(* ===== verification/Pds_Prelude.thy ===== *)
theory Pds_Prelude
  imports Main "HOL-Library.Word"
begin

text \<open>
  Shared vocabulary of the development: the widths of the machine integers the sources use,
  segments of flat arrays (\<open>slice\<close>), the remove-by-swapping-with-the-last operation that both
  processes run on their copy lists, pointer alignment, decimal output, and the generic list
  lemmas the component theories rely on. Lemmas that unfold model definitions are collected in
  \<open>pds_defs\<close>, invariants in \<open>pds_inv\<close>.
\<close>

named_theorems pds_defs
named_theorems pds_inv

type_synonym u8 = "8 word"
type_synonym u32 = "32 word"
type_synonym u64 = "64 word"

section \<open>Segments of flat arrays\<close>

text \<open>
  Several arrays of the sources hold four segments one after the other, each addressed by the
  pointer to its first cell and a fill count. \<open>slice b n xs\<close> is the segment of \<open>n\<close> cells
  at offset \<open>b\<close>.
\<close>

definition slice :: "nat \<Rightarrow> nat \<Rightarrow> 'a list \<Rightarrow> 'a list" where
  "slice b n xs = take n (drop b xs)"

lemma length_slice [simp]: "length (slice b n xs) = min n (length xs - b)"
  by (simp add: slice_def)

lemma slice_0 [simp]: "slice b 0 xs = []"
  by (simp add: slice_def)

lemma nth_slice: "k < n \<Longrightarrow> b + n \<le> length xs \<Longrightarrow> slice b n xs ! k = xs ! (b + k)"
  by (simp add: slice_def add.commute)

lemma slice_list_eqI:
  "b + n \<le> length xs \<Longrightarrow> length ys = n \<Longrightarrow> (\<And>k. k < n \<Longrightarrow> ys ! k = xs ! (b + k)) \<Longrightarrow> slice b n xs = ys"
  by (rule nth_equalityI) (auto simp: nth_slice)

lemma slice_update_outside:
  "i < b \<or> b + n \<le> i \<Longrightarrow> slice b n (xs[i := v]) = slice b n xs"
  by (auto simp: slice_def drop_update_swap)

lemma slice_update_inside:
  assumes "k < n" and "b + n \<le> length xs"
  shows "slice b n (xs[b + k := v]) = (slice b n xs)[k := v]"
  using assms by (auto simp: slice_def drop_update_swap take_update_swap)

lemma slice_append_cell:
  assumes "b + n < length xs"
  shows "slice b (Suc n) (xs[b + n := v]) = slice b n xs @ [v]"
  using assms
  by (intro slice_list_eqI) (auto simp: nth_append nth_slice nth_list_update less_Suc_eq)

lemma slice_Suc:
  "b + n < length xs \<Longrightarrow> slice b (Suc n) xs = slice b n xs @ [xs ! (b + n)]"
  by (simp add: slice_def take_Suc_conv_app_nth add.commute)

lemma butlast_slice:
  "b + Suc n \<le> length xs \<Longrightarrow> butlast (slice b (Suc n) xs) = slice b n xs"
  by (simp add: slice_Suc)

lemma map_slice: "map f (slice b n xs) = slice b n (map f xs)"
  by (simp add: slice_def take_map drop_map)

lemma map_update_same: "f v = f (xs ! i) \<Longrightarrow> map f (xs[i := v]) = map f xs"
  by (cases "i < length xs") (auto simp: list_eq_iff_nth_eq nth_list_update list_update_beyond)

lemma set_slice_subset: "set (slice b n xs) \<subseteq> set xs"
  by (auto simp: slice_def dest: in_set_takeD in_set_dropD)

text \<open>Unfolding of lists of a literal length.\<close>

lemma replicate_numeral_unfold: "replicate (numeral k) x = x # replicate (pred_numeral k) x"
  by (simp add: numeral_eq_Suc)

lemma upt_numeral_unfold: "[0..<numeral k] = [0..<pred_numeral k] @ [pred_numeral k]"
  by (simp add: numeral_eq_Suc)

section \<open>Removal by swapping with the last element\<close>

text \<open>The element at \<open>p\<close> is overwritten with the last one, then the list is cut by one.\<close>

definition swap_remove :: "nat \<Rightarrow> 'a list \<Rightarrow> 'a list" where
  "swap_remove p xs = butlast (xs[p := last xs])"

lemma length_swap_remove [simp]: "length (swap_remove p xs) = length xs - 1"
  by (simp add: swap_remove_def)

lemma nth_swap_remove:
  "k < length xs - 1 \<Longrightarrow> swap_remove p xs ! k = (if k = p then last xs else xs ! k)"
  by (auto simp: swap_remove_def nth_butlast nth_list_update)

lemma swap_remove_last [simp]: "swap_remove (length xs - 1) xs = butlast xs"
  by (rule nth_equalityI) (auto simp: nth_swap_remove nth_butlast)

lemma map_swap_remove: "xs \<noteq> [] \<Longrightarrow> map f (swap_remove p xs) = swap_remove p (map f xs)"
  by (simp add: swap_remove_def map_butlast map_update last_map)

lemma set_swap_remove:
  assumes "distinct xs" and "p < length xs"
  shows "set (swap_remove p xs) = set xs - {xs ! p}"
proof (cases "p = length xs - 1")
  case True
  with assms have "xs = butlast xs @ [xs ! p]"
    by (metis append_butlast_last_id last_conv_nth length_0_conv less_nat_zero_code)
  with assms(1) True show ?thesis
    by (metis Diff_insert_absorb distinct_append insert_iff list.simps(15) not_distinct_conv_prefix
        rotate1.simps(2) set_rotate1 swap_remove_last disjoint_insert(1) list.set(1))
next
  case False
  show ?thesis
  proof (intro set_eqI iffI)
    fix x assume "x \<in> set (swap_remove p xs)"
    then obtain k where k: "k < length xs - 1" "swap_remove p xs ! k = x"
      by (auto simp: in_set_conv_nth)
    moreover have "last xs = xs ! (length xs - 1)" using assms(2) by (intro last_conv_nth) auto
    ultimately show "x \<in> set xs - {xs ! p}" using assms False
      by (auto simp: nth_swap_remove nth_eq_iff_index_eq split: if_splits)
  next
    fix x assume "x \<in> set xs - {xs ! p}"
    then obtain k where k: "k < length xs" "xs ! k = x" "k \<noteq> p"
      by (auto simp: in_set_conv_nth)
    let ?k = "if k = length xs - 1 then p else k"
    have lt: "?k < length xs - 1" using k False assms(2) by auto
    then have "swap_remove p xs ! ?k = x"
      using k by (cases "xs = []") (auto simp: nth_swap_remove last_conv_nth)
    with lt show "x \<in> set (swap_remove p xs)"
      by (metis length_swap_remove nth_mem)
  qed
qed

lemma distinct_swap_remove:
  assumes "distinct xs" and "p < length xs"
  shows "distinct (swap_remove p xs)"
proof -
  have "card (set (swap_remove p xs)) = length (swap_remove p xs)"
    using assms by (simp add: set_swap_remove distinct_card)
  then show ?thesis by (rule card_distinct)
qed

lemma swap_remove_snoc:
  "p \<le> length ys \<Longrightarrow> swap_remove p (ys @ [l]) = (if p = length ys then ys else ys[p := l])"
  by (auto simp: swap_remove_def list_update_append butlast_append)

lemma sum_list_swap_remove:
  fixes f :: "'a \<Rightarrow> nat"
  assumes "p < length xs"
  shows "sum_list (map f (swap_remove p xs)) + f (xs ! p) = sum_list (map f xs)"
proof -
  obtain ys l where xs: "xs = ys @ [l]"
    using assms by (metis append_butlast_last_id length_0_conv less_nat_zero_code)
  have "f (ys ! p) \<le> sum_list (map f ys)" if "p < length ys"
    using that by (intro member_le_sum_list) auto
  then show ?thesis
    using assms by (auto simp: xs swap_remove_snoc nth_append map_update sum_list_update)
qed

lemma slice_swap_remove:
  assumes "p < Suc n" and "b + Suc n \<le> length xs"
  shows "slice b n (xs[b + p := xs ! (b + n)]) = swap_remove p (slice b (Suc n) xs)"
  using assms
  by (intro slice_list_eqI)
    (auto simp: nth_swap_remove nth_slice last_conv_nth nth_list_update slice_Suc nth_append)

section \<open>Pointer alignment (\<open>lib/Pointer.h\<close>)\<close>

text \<open>\<open>sizeof(void*)\<close> on the LP64 platforms the library targets.\<close>

definition ptr_size :: nat where
  "ptr_size = 8"

text \<open>
  \<open>(len + mask) & ~mask\<close> with \<open>mask = sizeof(void*) - 1\<close> clears the low three bits, i.e.
  rounds up to a multiple of the pointer size. The machine version is \<open>ptr_align_word\<close>; \<open>ptr_align\<close>
  is its reading on natural numbers, and \<open>ptr_align_word_nat\<close> shows that they agree.
\<close>

definition ptr_align :: "nat \<Rightarrow> nat" where
  "ptr_align n = (n + (ptr_size - 1)) div ptr_size * ptr_size"

lemma ptr_align_ge: "n \<le> ptr_align n"
  by (simp add: ptr_align_def ptr_size_def)

lemma ptr_align_less: "ptr_align n < n + ptr_size"
  by (simp add: ptr_align_def ptr_size_def)

lemma ptr_align_dvd: "ptr_size dvd ptr_align n"
  by (simp add: ptr_align_def)

lemma ptr_align_id: "ptr_size dvd n \<Longrightarrow> ptr_align n = n"
  by (auto simp: ptr_align_def ptr_size_def elim!: dvdE)

lemma ptr_align_mono: "m \<le> n \<Longrightarrow> ptr_align m \<le> ptr_align n"
  by (simp add: ptr_align_def ptr_size_def div_le_mono)

unbundle bit_operations_syntax

definition ptr_align_word :: "u64 \<Rightarrow> u64" where
  "ptr_align_word len = (let mask = 7 in (len + mask) AND NOT mask)"

lemma ptr_align_word_nat:
  assumes "unat len + 7 < 2 ^ 64"
  shows "unat (ptr_align_word len) = ptr_align (unat len)"
proof -
  have m: "(7 :: u64) = Bit_Operations.mask 3"
    by (simp add: mask_eq_exp_minus_1)
  have "ptr_align_word len = push_bit 3 (drop_bit 3 (len + 7))"
    unfolding ptr_align_word_def Let_def m
    by (rule bit_eqI) (auto simp add: bit_simps)
  then show ?thesis
    using assms
    by (simp add: ptr_align_def ptr_size_def push_bit_eq_mult drop_bit_eq_div unat_word_ariths
        unat_div_distrib)
qed

section \<open>Decimal output of unsigned numbers\<close>

definition digit_char :: "nat \<Rightarrow> char" where
  "digit_char d = char_of (48 + d)"

fun show_nat :: "nat \<Rightarrow> string" where
  "show_nat n = (if n < 10 then [digit_char n] else show_nat (n div 10) @ [digit_char (n mod 10)])"

declare show_nat.simps [simp del]

definition show_int :: "int \<Rightarrow> string" where
  "show_int i = (if i < 0 then CHR ''-'' # show_nat (nat (- i)) else show_nat (nat i))"

definition digit_val :: "char \<Rightarrow> nat" where
  "digit_val c = of_char c - 48"

definition is_digit :: "char \<Rightarrow> bool" where
  "is_digit c \<longleftrightarrow> 48 \<le> (of_char c :: nat) \<and> (of_char c :: nat) \<le> 57"

definition dec_value :: "string \<Rightarrow> nat" where
  "dec_value s = foldl (\<lambda>v c. 10 * v + digit_val c) 0 s"

lemma digit_val_digit_char [simp]: "d < 10 \<Longrightarrow> digit_val (digit_char d) = d"
  by (simp add: digit_val_def digit_char_def)

lemma is_digit_digit_char [simp]: "d < 10 \<Longrightarrow> is_digit (digit_char d)"
  by (simp add: is_digit_def digit_char_def)

lemma show_nat_digits: "list_all is_digit (show_nat n)"
proof (induction n rule: show_nat.induct)
  case (1 n)
  then show ?case by (cases "n < 10") (simp_all add: show_nat.simps [of n])
qed

lemma show_nat_nonempty [simp]: "show_nat n \<noteq> []"
  by (subst show_nat.simps) simp

lemma dec_value_show_nat [simp]: "dec_value (show_nat n) = n"
proof (induction n rule: show_nat.induct)
  case (1 n)
  show ?case
  proof (cases "n < 10")
    case True
    then show ?thesis by (simp add: show_nat.simps [of n] dec_value_def)
  next
    case False
    with 1 have "dec_value (show_nat (n div 10)) = n div 10" by simp
    with False show ?thesis by (simp add: show_nat.simps [of n] dec_value_def)
  qed
qed

lemma show_nat_inj [simp]: "show_nat m = show_nat n \<longleftrightarrow> m = n"
  by (metis dec_value_show_nat)

section \<open>Comma separated text\<close>

fun commas :: "string list \<Rightarrow> string" where
  "commas [] = []"
| "commas [x] = x"
| "commas (x # y # zs) = x @ '','' @ commas (y # zs)"

lemma commas_Cons: "commas (x # xs) = x @ concat (map (\<lambda>y. '','' @ y) xs)"
  by (induction xs arbitrary: x) auto

end
