(* ===== verification/DataType.thy ===== *)
theory DataType
  imports Pds_Prelude
begin

text \<open>
  \<open>src/DataType.h\<close> and \<open>src/DataType.cpp\<close>: primary and compound data types, array
  dimensions, alignment and the CSV printer. A \<open>DataType\<close> object is a value of \<open>dtype\<close>; the
  template parameter of \<open>PrimaryType<T>\<close> is a value of \<open>ctype\<close>. Types are completed with
  \<open>addField\<close> before variables of the type are registered, so a field holds its type by value.
\<close>

section \<open>Types\<close>

datatype primary =
    compound_T | boolean_T | uint8_T | int8_T | uint16_T | int16_T
  | uint32_T | int32_T | uint64_T | int64_T | double_T | single_T

datatype ctype =
    C_bool | C_uint8 | C_int8 | C_uint16 | C_int16 | C_uint32 | C_int32
  | C_uint64 | C_int64 | C_double | C_float

fun sizeof :: "ctype \<Rightarrow> nat" where
  "sizeof C_bool = 1"
| "sizeof C_uint8 = 1"
| "sizeof C_int8 = 1"
| "sizeof C_uint16 = 2"
| "sizeof C_int16 = 2"
| "sizeof C_uint32 = 4"
| "sizeof C_int32 = 4"
| "sizeof C_uint64 = 8"
| "sizeof C_int64 = 8"
| "sizeof C_double = 8"
| "sizeof C_float = 4"

fun TypeNum_value :: "ctype \<Rightarrow> primary" where
  "TypeNum_value C_bool = boolean_T"
| "TypeNum_value C_uint8 = uint8_T"
| "TypeNum_value C_int8 = int8_T"
| "TypeNum_value C_uint16 = uint16_T"
| "TypeNum_value C_int16 = int16_T"
| "TypeNum_value C_uint32 = uint32_T"
| "TypeNum_value C_int32 = int32_T"
| "TypeNum_value C_uint64 = uint64_T"
| "TypeNum_value C_int64 = int64_T"
| "TypeNum_value C_double = double_T"
| "TypeNum_value C_float = single_T"

definition TypeNum_align :: "ctype \<Rightarrow> nat" where
  "TypeNum_align T = sizeof T"

datatype dtype =
    PrimaryType ctype
  | CompoundType string nat "field list"
and field = Field (field_name: string) (field_type: dtype) (field_offset: nat) (field_dim: "nat list")

fun dt_size :: "dtype \<Rightarrow> nat" where
  "dt_size (PrimaryType T) = sizeof T"
| "dt_size (CompoundType _ s _) = s"

fun getFieldList :: "dtype \<Rightarrow> field list" where
  "getFieldList (PrimaryType _) = []"
| "getFieldList (CompoundType _ _ fs) = fs"

fun primary_of :: "dtype \<Rightarrow> primary" where
  "primary_of (PrimaryType T) = TypeNum_value T"
| "primary_of (CompoundType _ _ _) = compound_T"

definition isPrimary :: "dtype \<Rightarrow> bool" where
  "isPrimary d \<longleftrightarrow> primary_of d \<noteq> compound_T"

text \<open>
  \<open>addField\<close>: with a null \<open>dims\<close> the field is a vector of \<open>ndims\<close> elements, otherwise
  \<open>dims\<close> lists the extents.
\<close>

definition mk_dims :: "nat \<Rightarrow> nat list option \<Rightarrow> nat list" where
  "mk_dims ndims dims = (case dims of None \<Rightarrow> [ndims] | Some ds \<Rightarrow> take ndims ds)"

fun addField :: "dtype \<Rightarrow> string \<Rightarrow> dtype \<Rightarrow> nat \<Rightarrow> nat \<Rightarrow> nat list option \<Rightarrow> dtype" where
  "addField (CompoundType n s fs) nm ty off ndims dims =
     CompoundType n s (fs @ [Field nm ty off (mk_dims ndims dims)])"
| "addField (PrimaryType T) nm ty off ndims dims = PrimaryType T"

section \<open>Dimensions\<close>

text \<open>
  \<open>DimType::nelem\<close> accumulates the product of the extents in an \<open>unsigned int\<close> (the type of
  the initial value \<open>1U\<close>), so every partial product is reduced modulo \<open>2 ^ 32\<close>.
\<close>

definition nelem :: "nat list \<Rightarrow> nat" where
  "nelem dim = foldl (\<lambda>acc d. acc * d mod 2 ^ 32) 1 dim"

definition isScalar :: "nat list \<Rightarrow> bool" where
  "isScalar dim \<longleftrightarrow> nelem dim = 1"

definition isVector :: "nat list \<Rightarrow> bool" where
  "isVector dim \<longleftrightarrow> length dim = 1"

definition isMultiDim :: "nat list \<Rightarrow> bool" where
  "isMultiDim dim \<longleftrightarrow> length dim > 1"

section \<open>Alignment\<close>

fun align :: "dtype \<Rightarrow> nat"
  and align_fields :: "nat \<Rightarrow> field list \<Rightarrow> nat" where
  "align (PrimaryType T) = TypeNum_align T"
| "align (CompoundType _ _ fs) = align_fields 1 fs"
| "align_fields n [] = n"
| "align_fields n (Field _ ty _ _ # fs) =
     (let n1 = align ty in align_fields (if n < n1 then n1 else n) fs)"

section \<open>Printing\<close>

text \<open>
  A buffer is memory read through \<open>mem\<close>; the pointers \<open>data\<close>, \<open>start\<close> and \<open>end\<close> are
  addresses. Integers are stored in little endian order. The text of a floating point value is the
  output of \<open>std::ostream\<close> for the stream's precision, the parameter \<open>ff\<close>.
\<close>

definition read_bytes :: "(nat \<Rightarrow> u8) \<Rightarrow> nat \<Rightarrow> nat \<Rightarrow> u8 list" where
  "read_bytes mem a n = map (\<lambda>k. mem (a + k)) [0..<n]"

fun le_nat :: "u8 list \<Rightarrow> nat" where
  "le_nat [] = 0"
| "le_nat (b # bs) = unat b + 256 * le_nat bs"

definition le_int :: "u8 list \<Rightarrow> int" where
  "le_int bs = (let v = int (le_nat bs); m = 2 ^ (8 * length bs)
                in if 2 * v < m then v else v - m)"

fun fmt_value :: "(ctype \<Rightarrow> u8 list \<Rightarrow> string) \<Rightarrow> ctype \<Rightarrow> u8 list \<Rightarrow> string" where
  "fmt_value ff C_double bs = ff C_double bs"
| "fmt_value ff C_float bs = ff C_float bs"
| "fmt_value ff C_int8 bs = show_int (le_int bs)"
| "fmt_value ff C_int16 bs = show_int (le_int bs)"
| "fmt_value ff C_int32 bs = show_int (le_int bs)"
| "fmt_value ff C_int64 bs = show_int (le_int bs)"
| "fmt_value ff C_bool bs = show_nat (le_nat bs)"
| "fmt_value ff C_uint8 bs = show_nat (le_nat bs)"
| "fmt_value ff C_uint16 bs = show_nat (le_nat bs)"
| "fmt_value ff C_uint32 bs = show_nat (le_nat bs)"
| "fmt_value ff C_uint64 bs = show_nat (le_nat bs)"

lemma sizeof_pos [simp]: "0 < sizeof T"
  by (cases T) auto

function print_primary ::
    "(ctype \<Rightarrow> u8 list \<Rightarrow> string) \<Rightarrow> (nat \<Rightarrow> u8) \<Rightarrow> ctype \<Rightarrow> bool \<Rightarrow> nat \<Rightarrow> nat \<Rightarrow> nat \<Rightarrow> string" where
  "print_primary ff mem T delim val start end =
     (if val < end then
        if val < start then print_primary ff mem T delim (val + sizeof T) start end
        else (if delim then '','' else '''') @ fmt_value ff T (read_bytes mem val (sizeof T))
          @ print_primary ff mem T True (val + sizeof T) start end
      else '''')"
  by pat_completeness auto
termination
  by (relation "measure (\<lambda>(ff, mem, T, delim, val, start, end). end - val)")
    (auto intro!: diff_less_mono2 sizeof_pos)

declare print_primary.simps [simp del]

text \<open>
  The printer of a compound walks its elements and, in each, the field list; it stops inside the
  element that reaches \<open>end\<close>. A compound whose declared size is zero makes the element loop run
  forever, which is the value \<open>None\<close>. The fields are printed with the printer of their type
  (\<open>dt_print\<close>), the flag of the result says that the loop returned early.
\<close>

function (sequential) dt_print ::
    "(ctype \<Rightarrow> u8 list \<Rightarrow> string) \<Rightarrow> (nat \<Rightarrow> u8) \<Rightarrow> dtype \<Rightarrow> nat \<Rightarrow> nat \<Rightarrow> nat \<Rightarrow> string option"
  and print_elems ::
    "(ctype \<Rightarrow> u8 list \<Rightarrow> string) \<Rightarrow> (nat \<Rightarrow> u8) \<Rightarrow> nat \<Rightarrow> field list \<Rightarrow> bool \<Rightarrow> nat \<Rightarrow> nat \<Rightarrow> nat
      \<Rightarrow> string option"
  and print_fields ::
    "(ctype \<Rightarrow> u8 list \<Rightarrow> string) \<Rightarrow> (nat \<Rightarrow> u8) \<Rightarrow> field list \<Rightarrow> bool \<Rightarrow> nat \<Rightarrow> nat \<Rightarrow> nat
      \<Rightarrow> (string \<times> bool \<times> bool) option" where
  "dt_print ff mem (PrimaryType T) data start end = Some (print_primary ff mem T False data start end)"
| "dt_print ff mem (CompoundType nm sz fs) data start end = print_elems ff mem sz fs False data start end"
| "print_elems ff mem sz fs delim data start end =
     (if \<not> data < end then Some ''''
      else case print_fields ff mem fs delim data start end of
        None \<Rightarrow> None
      | Some (s, delim', ret) \<Rightarrow>
          if ret then Some s
          else if sz = 0 then None
          else map_option (\<lambda>r. s @ r) (print_elems ff mem sz fs delim' (data + sz) start end))"
| "print_fields ff mem [] delim data start end = Some ('''', delim, False)"
| "print_fields ff mem (Field nm ty off dim # fs) delim data start end =
     (let p1 = data + off in
      if p1 < start then print_fields ff mem fs delim data start end
      else let pre = (if delim then '','' else '''');
               p2 = p1 + nelem dim * dt_size ty in
        if p2 < end then
          (case dt_print ff mem ty p1 start p2 of
             None \<Rightarrow> None
           | Some s \<Rightarrow> map_option (\<lambda>(r, d, ret). (pre @ s @ r, d, ret))
                        (print_fields ff mem fs True data start end))
        else map_option (\<lambda>s. (pre @ s, True, True)) (dt_print ff mem ty p1 start end))"
  by pat_completeness auto
termination
  by (relation "measures
      [\<lambda>x. case x of Inl (_, _, d, _, _, _) \<Rightarrow> 2 * size d
            | Inr (Inl (_, _, _, fs, _, _, _, _)) \<Rightarrow> 2 * size_list size fs + 1
            | Inr (Inr (_, _, fs, _, _, _, _)) \<Rightarrow> 2 * size_list size fs,
       \<lambda>x. case x of Inl _ \<Rightarrow> 0
            | Inr (Inl (_, _, _, _, _, dat, _, end)) \<Rightarrow> end - dat
            | Inr (Inr _) \<Rightarrow> 0]") auto

section \<open>Facts about dimensions and alignment\<close>

lemma nelem_foldl: "foldl (\<lambda>acc d. acc * d mod 2 ^ 32) ((a :: nat) mod 2 ^ 32) dim = a * prod_list dim mod 2 ^ 32"
proof (induction dim arbitrary: a)
  case Nil
  then show ?case by simp
next
  case (Cons d dim)
  have "a mod 2 ^ 32 * d mod 2 ^ 32 = a * d mod 2 ^ 32"
    by (rule mod_mult_left_eq)
  with Cons.IH [of "a * d"] show ?case by (simp add: mult.assoc)
qed

lemma nelem_prod_list: "nelem dim = prod_list dim mod 2 ^ 32"
  using nelem_foldl [of 1 dim] by (simp add: nelem_def)

lemma nelem_exact: "prod_list dim < 2 ^ 32 \<Longrightarrow> nelem dim = prod_list dim"
  by (simp add: nelem_prod_list)

lemma align_range:
  "align d \<in> {1, 2, 4, 8}"
  "n \<in> {1, 2, 4, 8} \<Longrightarrow> align_fields n fs \<in> {1, 2, 4, 8}"
proof (induction d and n fs rule: align_align_fields.induct)
  case (1 T)
  then show ?case by (cases T) (auto simp: TypeNum_align_def)
next
  case (4 n nm ty off dim fs)
  then show ?case by (auto simp: Let_def)
qed auto

lemma align_fields_ge_start: "n \<le> align_fields n fs"
proof (induction fs arbitrary: n)
  case (Cons f fs)
  show ?case
  proof (cases f)
    case (Field nm ty off dim)
    with Cons.IH [of "align ty"] Cons.IH [of n] show ?thesis by (simp add: Let_def)
  qed
qed simp

lemma align_fields_eq_max:
  "align_fields n fs = Max (insert n ((\<lambda>f. align (field_type f)) ` set fs))"
proof (induction fs arbitrary: n)
  case (Cons f fs)
  show ?case
  proof (cases f)
    case (Field nm ty off dim)
    have "align_fields n (f # fs) = align_fields (max n (align ty)) fs"
      by (simp add: Field Let_def max_def)
    also have "\<dots> = Max (insert n (insert (align ty) ((\<lambda>f. align (field_type f)) ` set fs)))"
      by (cases "fs = []") (simp_all add: Cons.IH max.assoc)
    finally show ?thesis by (simp add: Field)
  qed
qed simp

section \<open>Facts about printing\<close>

lemma print_primary_delim:
  assumes "start \<le> val" and "end = val + n * sizeof T"
  shows "print_primary ff mem T True val start end
       = concat (map (\<lambda>k. '','' @ fmt_value ff T (read_bytes mem (val + k * sizeof T) (sizeof T))) [0..<n])"
  using assms
proof (induction n arbitrary: val)
  case 0
  then show ?case by (simp add: print_primary.simps)
next
  case (Suc n)
  from Suc.prems have "end = (val + sizeof T) + n * sizeof T" by simp
  with Suc.prems(1) have IH: "print_primary ff mem T True (val + sizeof T) start end
      = concat (map (\<lambda>k. '','' @ fmt_value ff T
          (read_bytes mem (val + sizeof T + k * sizeof T) (sizeof T))) [0..<n])"
    by (intro Suc.IH) auto
  have "val < end" using Suc.prems(2) sizeof_pos [of T] by simp
  then show ?case
    using Suc.prems(1)
    by (subst print_primary.simps)
      (simp add: IH upt_conv_Cons map_Suc_upt [symmetric] o_def add.assoc del: upt_Suc)
qed

text \<open>Printing \<open>n\<close> values from the start of a buffer is the comma separated list of their texts.\<close>

lemma print_primary_commas:
  "print_primary ff mem T False a a (a + n * sizeof T)
   = commas (map (\<lambda>k. fmt_value ff T (read_bytes mem (a + k * sizeof T) (sizeof T))) [0..<n])"
proof (cases n)
  case 0
  then show ?thesis by (simp add: print_primary.simps)
next
  case (Suc m)
  have "print_primary ff mem T True (a + sizeof T) a (a + n * sizeof T)
      = concat (map (\<lambda>k. '','' @ fmt_value ff T
          (read_bytes mem (a + sizeof T + k * sizeof T) (sizeof T))) [0..<m])"
    by (rule print_primary_delim) (simp_all add: Suc)
  then show ?thesis
    using sizeof_pos [of T]
    by (subst print_primary.simps)
      (simp add: Suc upt_conv_Cons map_Suc_upt [symmetric] commas_Cons o_def add.assoc del: upt_Suc)
qed

text \<open>
  \<open>sized d\<close>: no compound that \<open>d\<close> consists of was declared with size zero.
\<close>

fun sized :: "dtype \<Rightarrow> bool"
  and sized_fields :: "field list \<Rightarrow> bool" where
  "sized (PrimaryType T) = True"
| "sized (CompoundType _ sz fs) = (sz \<noteq> 0 \<and> sized_fields fs)"
| "sized_fields [] = True"
| "sized_fields (Field _ ty _ _ # fs) = (sized ty \<and> sized_fields fs)"

lemma dt_print_defined:
  "sized d \<Longrightarrow> dt_print ff mem d data start end \<noteq> None"
  "sz \<noteq> 0 \<Longrightarrow> sized_fields fs \<Longrightarrow> print_elems ff mem sz fs delim data start end \<noteq> None"
  "sized_fields fs \<Longrightarrow> print_fields ff mem fs delim data start end \<noteq> None"
proof (induction ff mem d data start "end" and ff mem sz fs delim data start "end"
    and ff mem fs delim data start "end" rule: dt_print_print_elems_print_fields.induct)
  case (3 ff mem sz fs delim data start "end")
  then show ?case by (subst print_elems.simps) (fastforce split: option.splits prod.splits)
next
  case (5 ff mem nm ty off dim fs delim data start "end")
  then show ?case by (subst print_fields.simps) (fastforce simp: Let_def split: option.splits)
qed auto

text \<open>
  Property C11 (dt_print_total): printing returns for every data type without a compound of declared
  size zero, whatever the range: the loops over elements and fields end.
\<close>

theorem dt_print_total:
  assumes "sized d"
  shows "\<exists>s. dt_print ff mem d data start end = Some s"
  using dt_print_defined(1) [OF assms] by blast

theorem dt_print_total_witness:
  "\<exists>s. dt_print (\<lambda>_ _. ''x'') (\<lambda>a. of_nat a)
     (CompoundType ''pt'' 4 [Field ''u'' (PrimaryType C_uint8) 0 [2], Field ''v'' (PrimaryType C_uint16) 2 [1]]) 0 0 8 = Some s"
  by (rule dt_print_total) simp

text \<open>
  The text of a vector of \<open>n\<close> primary values is the comma separated
  list of the texts of the values, in memory order.
\<close>

theorem print_elements:
  "dt_print ff mem (PrimaryType T) a a (a + n * sizeof T)
   = Some (commas (map (\<lambda>k. fmt_value ff T (read_bytes mem (a + k * sizeof T) (sizeof T))) [0..<n]))"
  by (simp add: print_primary_commas)

text \<open>
  The element count of a dimension vector is the product of its extents
  modulo \<open>2 ^ 32\<close>; it is the exact product below that bound and always fits into 32 bits.
\<close>

theorem nelem_wraps:
  "nelem dim = prod_list dim mod 2 ^ 32 \<and> nelem dim < 2 ^ 32 \<and> nelem [65536, 65536] = 0"
  by (simp add: nelem_prod_list)

text \<open>
  Property C12 (align_power): the alignment of a data type is 1, 2, 4 or 8 and, for a compound, the
  largest alignment of its fields, 1 without fields.
\<close>

theorem align_power:
  "align d \<in> {1, 2, 4, 8} \<and>
   align (CompoundType nm sz fs) = Max (insert 1 ((\<lambda>f. align (field_type f)) ` set fs))"
  using align_range(1) [of d] by (simp add: align_fields_eq_max)

end
