(* ===== verification/Signal_Ring.thy ===== *)
theory Signal_Ring
  imports Pds_Prelude
begin

text \<open>
  The single-producer single-consumer ring in shared memory through which the non-real-time
  process sends changes of the copy list to the real-time process (\<open>signalList\<close>,
  \<open>signalListEnd\<close>, \<open>signalListRp\<close>, \<open>signalListWp\<close> of \<open>lib/Task.cpp\<close>).
  Both pointers address the entry handled last: the ring is empty when they are equal, and the
  writer waits when the entry after its own is the reader's. The contract of such a queue is the
  locale \<open>spsc_fifo\<close>; \<open>command_log\<close> adds commands that a writer has applied to its own state
  and a reader replays, and \<open>ring\<close> interprets both.
\<close>

section \<open>The ring\<close>

record 'e ring =
  slots :: "'e list"
  ring_rp :: nat
  ring_wp :: nat

definition ring_next :: "('e, 'z) ring_scheme \<Rightarrow> nat \<Rightarrow> nat" where
  "ring_next r p = (if Suc p = length (slots r) then 0 else Suc p)"

definition ring_full :: "('e, 'z) ring_scheme \<Rightarrow> bool" where
  "ring_full r \<longleftrightarrow> ring_next r (ring_wp r) = ring_rp r"

text \<open>The writer fills the entry after its pointer (\<open>ring_scratch\<close>), then moves the pointer
  there (\<open>ring_publish\<close>).\<close>

definition ring_scratch :: "('e \<Rightarrow> 'e) \<Rightarrow> ('e, 'z) ring_scheme \<Rightarrow> ('e, 'z) ring_scheme" where
  "ring_scratch f r =
     (let w = ring_next r (ring_wp r) in r\<lparr>slots := (slots r)[w := f (slots r ! w)]\<rparr>)"

definition ring_publish :: "('e, 'z) ring_scheme \<Rightarrow> ('e, 'z) ring_scheme" where
  "ring_publish r = r\<lparr>ring_wp := ring_next r (ring_wp r)\<rparr>"

definition ring_put :: "'e \<Rightarrow> ('e, 'z) ring_scheme \<Rightarrow> ('e, 'z) ring_scheme" where
  "ring_put e r = ring_publish (ring_scratch (\<lambda>_. e) r)"

definition ring_head :: "('e, 'z) ring_scheme \<Rightarrow> 'e" where
  "ring_head r = slots r ! ring_next r (ring_rp r)"

definition ring_advance :: "('e, 'z) ring_scheme \<Rightarrow> ('e, 'z) ring_scheme" where
  "ring_advance r = r\<lparr>ring_rp := ring_next r (ring_rp r)\<rparr>"

definition ring_inv :: "('e, 'z) ring_scheme \<Rightarrow> bool" where
  "ring_inv r \<longleftrightarrow> 2 \<le> length (slots r) \<and> ring_rp r < length (slots r) \<and> ring_wp r < length (slots r)"

text \<open>The entries published and not yet read, oldest first.\<close>

definition ring_count :: "('e, 'z) ring_scheme \<Rightarrow> nat" where
  "ring_count r = (ring_wp r + length (slots r) - ring_rp r) mod length (slots r)"

definition pending :: "('e, 'z) ring_scheme \<Rightarrow> 'e list" where
  "pending r = map (\<lambda>k. slots r ! ((ring_rp r + Suc k) mod length (slots r))) [0..<ring_count r]"

lemmas ring_defs [pds_defs] =
  ring_next_def ring_full_def ring_scratch_def ring_publish_def ring_put_def ring_head_def
  ring_advance_def ring_inv_def ring_count_def

section \<open>Commands replayed by a reader\<close>

fun run_ok :: "('e \<Rightarrow> 's \<Rightarrow> bool) \<Rightarrow> ('e \<Rightarrow> 's \<Rightarrow> 's) \<Rightarrow> 's \<Rightarrow> 'e list \<Rightarrow> bool" where
  "run_ok ok ap s [] = True"
| "run_ok ok ap s (e # es) = (ok e s \<and> run_ok ok ap (ap e s) es)"

definition run_all :: "('e \<Rightarrow> 's \<Rightarrow> 's) \<Rightarrow> 's \<Rightarrow> 'e list \<Rightarrow> 's" where
  "run_all ap s es = fold ap es s"

lemma run_all_Nil [simp]: "run_all ap s [] = s"
  by (simp add: run_all_def)

lemma run_all_Cons [simp]: "run_all ap s (e # es) = run_all ap (ap e s) es"
  by (simp add: run_all_def)

lemma run_all_append [simp]: "run_all ap s (es @ fs) = run_all ap (run_all ap s es) fs"
  by (simp add: run_all_def)

lemma run_ok_append [simp]:
  "run_ok ok ap s (es @ fs) \<longleftrightarrow> run_ok ok ap s es \<and> run_ok ok ap (run_all ap s es) fs"
  by (induction es arbitrary: s) auto

section \<open>Contracts\<close>

locale spsc_fifo =
  fixes inv :: "'q \<Rightarrow> bool"
    and full :: "'q \<Rightarrow> bool"
    and put :: "'e \<Rightarrow> 'q \<Rightarrow> 'q"
    and head :: "'q \<Rightarrow> 'e"
    and advance :: "'q \<Rightarrow> 'q"
    and contents :: "'q \<Rightarrow> 'e list"
  assumes put_inv: "inv q \<Longrightarrow> inv (put e q)"
    and put_contents: "inv q \<Longrightarrow> \<not> full q \<Longrightarrow> contents (put e q) = contents q @ [e]"
    and head_contents: "inv q \<Longrightarrow> contents q \<noteq> [] \<Longrightarrow> head q = hd (contents q)"
    and advance_inv: "inv q \<Longrightarrow> inv (advance q)"
    and advance_contents: "inv q \<Longrightarrow> contents q \<noteq> [] \<Longrightarrow> contents (advance q) = tl (contents q)"
    and advance_frees: "inv q \<Longrightarrow> contents q \<noteq> [] \<Longrightarrow> \<not> full (advance q)"
begin

lemma contents_split:
  "inv q \<Longrightarrow> contents q \<noteq> [] \<Longrightarrow> contents q = head q # contents (advance q)"
  by (simp add: head_contents advance_contents)

lemma put_then_drained:
  assumes "inv q" and "contents q = []" and "\<not> full q"
  shows "head (put e q) = e" and "contents (advance (put e q)) = []"
  using assms by (simp_all add: head_contents advance_contents put_contents put_inv)

end

text \<open>
  A writer applies a command to its own state and appends it; the reader, which holds a state of
  its own, replays the commands in order. \<open>in_step q w r\<close> says that the reader is behind exactly
  by the pending commands and that each of them is admissible where it will be replayed.
\<close>

definition in_step ::
    "('e \<Rightarrow> 's \<Rightarrow> bool) \<Rightarrow> ('e \<Rightarrow> 's \<Rightarrow> 's) \<Rightarrow> 'e list \<Rightarrow> 's \<Rightarrow> 's \<Rightarrow> bool" where
  "in_step ok ap es w r \<longleftrightarrow> run_ok ok ap r es \<and> run_all ap r es = w"

locale command_log = spsc_fifo inv full put head advance contents
  for inv :: "'q \<Rightarrow> bool"
    and full :: "'q \<Rightarrow> bool"
    and put :: "'e \<Rightarrow> 'q \<Rightarrow> 'q"
    and head :: "'q \<Rightarrow> 'e"
    and advance :: "'q \<Rightarrow> 'q"
    and contents :: "'q \<Rightarrow> 'e list" +
  fixes ok :: "'e \<Rightarrow> 's \<Rightarrow> bool"
    and ap :: "'e \<Rightarrow> 's \<Rightarrow> 's"
begin

lemma writer_step:
  assumes "inv q" and "\<not> full q" and "in_step ok ap (contents q) w r" and "ok e w"
  shows "in_step ok ap (contents (put e q)) (ap e w) r"
  using assms by (simp add: in_step_def put_contents)

lemma reader_step:
  assumes "inv q" and "contents q \<noteq> []" and "in_step ok ap (contents q) w r"
  shows "ok (head q) r" and "in_step ok ap (contents (advance q)) w (ap (head q) r)"
  using assms contents_split [OF assms(1,2)] by (auto simp: in_step_def)

lemma caught_up: "contents q = [] \<Longrightarrow> in_step ok ap (contents q) w r \<Longrightarrow> r = w"
  by (simp add: in_step_def)

end

section \<open>The ring implements the contract\<close>

lemma ring_next_mod: "ring_inv r \<Longrightarrow> p < length (slots r) \<Longrightarrow> ring_next r p = Suc p mod length (slots r)"
  by (auto simp: ring_next_def)

lemma ring_next_less: "ring_inv r \<Longrightarrow> p < length (slots r) \<Longrightarrow> ring_next r p < length (slots r)"
  by (auto simp: ring_next_def ring_inv_def)

lemma ring_count_cases:
  "ring_inv r \<Longrightarrow> ring_count r =
     (if ring_rp r \<le> ring_wp r then ring_wp r - ring_rp r else ring_wp r + length (slots r) - ring_rp r)"
  by (auto simp: ring_count_def ring_inv_def le_mod_geq)

lemma ring_count_less: "ring_inv r \<Longrightarrow> ring_count r < length (slots r)"
  by (auto simp: ring_count_cases) (auto simp: ring_inv_def)

lemma ring_wp_eq: "ring_inv r \<Longrightarrow> ring_wp r = (ring_rp r + ring_count r) mod length (slots r)"
  by (auto simp: ring_count_cases) (auto simp: ring_inv_def)

lemma ring_empty_iff: "ring_inv r \<Longrightarrow> pending r = [] \<longleftrightarrow> ring_rp r = ring_wp r"
  by (auto simp: pending_def ring_count_cases) (auto simp: ring_inv_def)

lemma ring_full_iff: "ring_inv r \<Longrightarrow> ring_full r \<longleftrightarrow> Suc (ring_count r) = length (slots r)"
  by (auto simp: ring_full_def ring_next_def ring_count_cases) (auto simp: ring_inv_def)

lemma ring_publish_inv: "ring_inv r \<Longrightarrow> ring_inv (ring_publish r)"
  using ring_next_less [of r "ring_wp r"] by (simp add: ring_inv_def ring_publish_def)

lemma ring_publish_count:
  assumes "ring_inv r" and "\<not> ring_full r"
  shows "ring_count (ring_publish r) = Suc (ring_count r)"
  using assms ring_publish_inv [OF assms(1)]
  by (auto simp: ring_full_def ring_next_def ring_count_cases ring_publish_def) (auto simp: ring_inv_def)

lemma ring_scratch_count [simp]: "ring_count (ring_scratch f r) = ring_count r"
  by (simp add: ring_count_def ring_scratch_def Let_def)

lemma ring_scratch_sel [simp]:
  "ring_rp (ring_scratch f r) = ring_rp r" "ring_wp (ring_scratch f r) = ring_wp r"
  "length (slots (ring_scratch f r)) = length (slots r)"
  by (simp_all add: ring_scratch_def Let_def)

lemma ring_scratch_inv [simp]: "ring_inv (ring_scratch f r) = ring_inv r"
  by (simp add: ring_inv_def)

lemma ring_scratch_full [simp]: "ring_full (ring_scratch f r) = ring_full r"
  by (simp add: ring_full_def ring_next_def)

lemma ring_slot_distinct:
  assumes "ring_inv r" and "\<not> ring_full r" and "k < ring_count r"
  shows "(ring_rp r + Suc k) mod length (slots r) \<noteq> ring_next r (ring_wp r)"
proof -
  let ?n = "length (slots r)"
  have lt: "Suc (ring_count r) < ?n"
    using assms(1,2) ring_count_less [OF assms(1)] by (auto simp: ring_full_iff)
  have "ring_next r (ring_wp r) = (ring_rp r + Suc (ring_count r)) mod ?n"
    using assms(1) by (simp add: ring_next_mod ring_inv_def)
      (simp add: ring_wp_eq [OF assms(1)] mod_Suc_eq)
  moreover have "(ring_rp r + Suc k) mod ?n \<noteq> (ring_rp r + Suc (ring_count r)) mod ?n"
  proof
    assume "(ring_rp r + Suc k) mod ?n = (ring_rp r + Suc (ring_count r)) mod ?n"
    then have "Suc k mod ?n = Suc (ring_count r) mod ?n"
      by (simp add: nat_mod_eq_iff)
    with lt assms(3) show False by simp
  qed
  ultimately show ?thesis by simp
qed

text \<open>Filling the entry after the write pointer is not visible to the reader.\<close>

lemma pending_scratch [simp]:
  assumes "ring_inv r" and "\<not> ring_full r"
  shows "pending (ring_scratch f r) = pending r"
proof -
  have "slots (ring_scratch f r) ! ((ring_rp r + Suc k) mod length (slots r))
      = slots r ! ((ring_rp r + Suc k) mod length (slots r))" if "k < ring_count r" for k
    using ring_slot_distinct [OF assms that]
    by (simp add: ring_scratch_def Let_def nth_list_update_neq [OF not_sym])
  then show ?thesis by (simp add: pending_def)
qed

lemma pending_publish:
  assumes "ring_inv r" and "\<not> ring_full r"
  shows "pending (ring_publish r) = pending r @ [slots r ! ring_next r (ring_wp r)]"
proof -
  have "ring_next r (ring_wp r) = (ring_rp r + Suc (ring_count r)) mod length (slots r)"
    using assms(1) by (simp add: ring_next_mod ring_inv_def)
      (simp add: ring_wp_eq [OF assms(1)] mod_Suc_eq)
  then show ?thesis
    using ring_publish_count [OF assms] by (simp add: pending_def) (simp add: ring_publish_def)
qed

lemma pending_publish_scratch:
  assumes "ring_inv r" and "\<not> ring_full r"
  shows "pending (ring_publish (ring_scratch f r)) = pending r @ [f (slots r ! ring_next r (ring_wp r))]"
  using assms ring_next_less [of r "ring_wp r"]
  by (simp add: pending_publish) (simp add: ring_scratch_def Let_def ring_next_def ring_inv_def)

lemma ring_scratch_scratch:
  "ring_inv r \<Longrightarrow> ring_scratch f (ring_scratch g r) = ring_scratch (\<lambda>e. f (g e)) r"
  using ring_next_less [of r "ring_wp r"]
  by (simp add: ring_scratch_def Let_def ring_next_def ring_inv_def)

lemma ring_publish_scratch_slot:
  "ring_inv r \<Longrightarrow> slots (ring_publish (ring_scratch f r)) ! ring_wp (ring_publish (ring_scratch f r))
     = f (slots r ! ring_next r (ring_wp r))"
  using ring_next_less [of r "ring_wp r"]
  by (simp add: ring_publish_def ring_scratch_def Let_def ring_next_def ring_inv_def)

lemma ring_scratch_wp_slot:
  "ring_inv r \<Longrightarrow> slots (ring_scratch f r) ! ring_wp r = slots r ! ring_wp r"
  by (auto simp: ring_scratch_def Let_def ring_next_def ring_inv_def nth_list_update)

lemma ring_advance_inv: "ring_inv r \<Longrightarrow> ring_inv (ring_advance r)"
  using ring_next_less [of r "ring_rp r"] by (simp add: ring_inv_def ring_advance_def)

lemma ring_advance_count:
  assumes "ring_inv r" and "pending r \<noteq> []"
  shows "ring_count r = Suc (ring_count (ring_advance r))"
  using assms ring_advance_inv [OF assms(1)]
  by (auto simp: ring_empty_iff ring_next_def ring_count_cases ring_advance_def) (auto simp: ring_inv_def)

lemma pending_advance:
  assumes "ring_inv r" and "pending r \<noteq> []"
  shows "pending r = ring_head r # pending (ring_advance r)"
proof -
  let ?n = "length (slots r)"
  have rp: "ring_rp (ring_advance r) = Suc (ring_rp r) mod ?n"
    using assms(1) by (simp add: ring_advance_def ring_next_mod ring_inv_def)
  have hd: "ring_head r = slots r ! ((ring_rp r + Suc 0) mod ?n)"
    using assms(1) by (simp add: ring_head_def ring_next_mod ring_inv_def)
  have "pending (ring_advance r)
      = map (\<lambda>k. slots r ! ((ring_rp r + Suc (Suc k)) mod ?n)) [0..<ring_count (ring_advance r)]"
  proof -
    have "(Suc (ring_rp r) mod ?n + Suc k) mod ?n = (ring_rp r + Suc (Suc k)) mod ?n" for k
      by (subst mod_add_left_eq) simp
    then show ?thesis unfolding pending_def rp by (simp add: ring_advance_def)
  qed
  with hd show ?thesis
    unfolding pending_def [of r] ring_advance_count [OF assms]
    by (simp add: upt_conv_Cons map_Suc_upt [symmetric] o_def del: upt_Suc)
qed

interpretation sring: spsc_fifo ring_inv ring_full ring_put ring_head ring_advance
    "pending :: ('e, 'z) ring_scheme \<Rightarrow> 'e list"
proof unfold_locales
  fix q :: "('e, 'z) ring_scheme" and e
  show "ring_inv q \<Longrightarrow> ring_inv (ring_put e q)"
    by (simp add: ring_put_def ring_publish_inv)
  show "ring_inv q \<Longrightarrow> \<not> ring_full q \<Longrightarrow> pending (ring_put e q) = pending q @ [e]"
    by (simp add: ring_put_def pending_publish_scratch)
  show "ring_inv q \<Longrightarrow> pending q \<noteq> [] \<Longrightarrow> ring_head q = hd (pending q)"
    using pending_advance [of q] by (metis list.sel(1))
  show "ring_inv q \<Longrightarrow> ring_inv (ring_advance q)"
    by (rule ring_advance_inv)
  show "ring_inv q \<Longrightarrow> pending q \<noteq> [] \<Longrightarrow> pending (ring_advance q) = tl (pending q)"
    using pending_advance [of q] by (metis list.sel(3))
  show "ring_inv q \<Longrightarrow> pending q \<noteq> [] \<Longrightarrow> \<not> ring_full (ring_advance q)"
    using ring_count_less [of q] ring_advance_count [of q]
    by (simp add: ring_full_iff ring_advance_inv) (simp add: ring_advance_def)
qed

end
