(* ===== verification/Shm_Task.thy ===== *)
theory Shm_Task
  imports DataType Signal_Ring "HOL-Library.While_Combinator" "HOL-Library.Monad_Syntax"
begin

text \<open>
  \<open>lib/Task.cpp\<close> and \<open>lib/Signal.cpp\<close>: registration of signals and the transfer list.
  The task object exists twice after the fork. The non-real-time process keeps the list of
  signals that have to be transferred (\<open>signalCopyList\<close>) and sends every change through the
  ring of \<open>Signal_Ring\<close>; the real-time process replays the changes on its own
  list (\<open>copyList\<close>). Pointers to signals are indices into \<open>signals\<close>; the four arrays that
  share one allocation are that allocation and the offsets of the segments.
\<close>

section \<open>Signals\<close>

record signal =
  sig_path :: string
  sig_decimation :: nat
  sig_dtype :: dtype
  sig_dim :: "nat list"
  sig_addr :: nat
  sig_index :: nat

definition sig_memSize :: "signal \<Rightarrow> nat" where
  "sig_memSize s = nelem (sig_dim s) * dt_size (sig_dtype s)"

definition dataTypeIndex :: "nat list" where
  "dataTypeIndex = [3, 3, 2, 3, 1, 3, 3, 3, 0]"

text \<open>The class of a signal: the entry of the table selected by the alignment of its type.\<close>

definition sig_class :: "signal \<Rightarrow> nat" where
  "sig_class s = dataTypeIndex ! align (sig_dtype s)"

text \<open>The members of a signal that the non-real-time task changes.\<close>

record sub =
  sessions :: "nat set"
  subscriptionId :: u32
  copyListPos :: nat

section \<open>The task object\<close>

record copy_entry =
  ce_signal :: nat
  ce_src :: nat
  ce_len :: nat

datatype sl_action = NoAction | Insert | Remove

record sl_entry =
  sl_action :: sl_action
  sl_listId :: u32
  sl_position :: nat
  sl_signal :: nat

record task =
  signals :: "signal list"
  subs :: "sub list"
  signalTypeCount :: "nat \<Rightarrow> nat"
  signalMemSize :: nat
  signalListId :: u32
  seqNo :: u32
  signalCopyBase :: "nat \<Rightarrow> nat"
  signalCopyList :: "nat list"
  copyBase :: "nat \<Rightarrow> nat"
  copyList :: "copy_entry list"

definition Task_new :: task where
  "Task_new = \<lparr>signals = [], subs = [], signalTypeCount = (\<lambda>_. 0), signalMemSize = 0,
     signalListId = 0, seqNo = 0, signalCopyBase = (\<lambda>_. 0), signalCopyList = [],
     copyBase = (\<lambda>_. 0), copyList = []\<rparr>"

definition Signal_new :: "nat \<Rightarrow> nat \<Rightarrow> string \<Rightarrow> dtype \<Rightarrow> nat \<Rightarrow> nat \<Rightarrow> nat list option \<Rightarrow> signal" where
  "Signal_new index decimation path dt addr n dim =
     \<lparr>sig_path = path, sig_decimation = decimation, sig_dtype = dt, sig_dim = mk_dims n dim,
      sig_addr = addr, sig_index = index\<rparr>"

definition Task_addSignal ::
    "nat \<Rightarrow> string \<Rightarrow> dtype \<Rightarrow> nat \<Rightarrow> nat \<Rightarrow> nat list option \<Rightarrow> 'z task_scheme \<Rightarrow> 'z task_scheme" where
  "Task_addSignal decimation path dt addr n dim t =
     (let s = Signal_new (length (signals t)) decimation path dt addr n dim in
      t\<lparr>signals := signals t @ [s],
        subs := subs t @ [\<lparr>sessions = {}, subscriptionId = 0, copyListPos = 0\<rparr>],
        signalTypeCount := (signalTypeCount t)(sig_class s := signalTypeCount t (sig_class s) + 1),
        signalMemSize := signalMemSize t + sig_memSize s\<rparr>)"

text \<open>\<open>seg_base c e\<close>: offsets of consecutive segments of \<open>c w + e\<close> cells.\<close>

fun seg_base :: "(nat \<Rightarrow> nat) \<Rightarrow> nat \<Rightarrow> nat \<Rightarrow> nat" where
  "seg_base c e 0 = 0"
| "seg_base c e (Suc w) = seg_base c e w + c w + e"

definition Task_rt_init :: "'z task_scheme \<Rightarrow> 'z task_scheme" where
  "Task_rt_init t =
     t\<lparr>signalMemSize := 0,
       copyBase := seg_base (signalTypeCount t) 1,
       copyList := replicate (length (signals t) + 4) \<lparr>ce_signal = 0, ce_src = 0, ce_len = 0\<rparr>,
       signalTypeCount := (\<lambda>_. 0)\<rparr>"

definition Task_nrt_init :: "'z task_scheme \<Rightarrow> 'z task_scheme" where
  "Task_nrt_init t =
     t\<lparr>signalCopyBase := seg_base (signalTypeCount t) 0,
       signalCopyList := replicate (length (signals t)) 0,
       signalTypeCount := (\<lambda>_. 0)\<rparr>"

section \<open>Non-real-time operations\<close>

definition Task_getSignalList :: "'z task_scheme \<Rightarrow> sl_entry ring \<Rightarrow> nat list \<times> nat \<times> u32" where
  "Task_getSignalList t r =
     (concat (map (\<lambda>i. map (\<lambda>j. signalCopyList t ! (signalCopyBase t i + j)) [0..<signalTypeCount t i]) [0..<4]),
      sum_list (map (signalTypeCount t) [0..<4]),
      sl_listId (slots r ! ring_wp r))"

text \<open>
  \<open>Task_publish\<close> is the end of \<open>subscribe\<close>: the entry gets the next list id, the signal
  remembers it, and after the write barrier the write pointer moves.
\<close>

definition Task_publish ::
    "nat \<Rightarrow> 'z task_scheme \<Rightarrow> sl_entry ring \<Rightarrow> 'z task_scheme \<times> sl_entry ring" where
  "Task_publish i t r =
     (let id = signalListId t + 1 in
      (t\<lparr>signalListId := id, subs := (subs t)[i := (subs t ! i)\<lparr>subscriptionId := id\<rparr>]\<rparr>,
       ring_publish (ring_scratch (\<lambda>e. e\<lparr>sl_listId := id\<rparr>) r)))"

text \<open>
  \<open>subscribe(signal, session, insert)\<close>. \<open>None\<close>: the ring is full and the caller sleeps until
  the real-time task has read an entry. The returned flag is the code's result: \<open>True\<close> when the
  transfer list did not have to change.
\<close>

definition Task_subscribe ::
    "nat \<Rightarrow> nat \<Rightarrow> bool \<Rightarrow> 'z task_scheme \<Rightarrow> sl_entry ring
      \<Rightarrow> (bool \<times> 'z task_scheme \<times> sl_entry ring) option" where
  "Task_subscribe i st ins t r =
     (if ring_full r then None
      else let w = sig_class (signals t ! i); sb = subs t ! i;
               r1 = ring_scratch (\<lambda>e. e\<lparr>sl_signal := i\<rparr>) r in
        if ins then
          let t1 = t\<lparr>subs := (subs t)[i := sb\<lparr>sessions := insert st (sessions sb)\<rparr>]\<rparr> in
          if sessions sb \<noteq> {} then Some (True, t1, r1)
          else let k = signalTypeCount t w;
                   t2 = t1\<lparr>signalTypeCount := (signalTypeCount t)(w := k + 1),
                           signalCopyList := (signalCopyList t)[signalCopyBase t w + k := i],
                           subs := (subs t1)[i := (subs t1 ! i)\<lparr>copyListPos := k\<rparr>]\<rparr>
               in Some (False, Task_publish i t2 (ring_scratch (\<lambda>e. e\<lparr>sl_action := Insert\<rparr>) r1))
        else
          let sb' = sb\<lparr>sessions := sessions sb - {st}\<rparr>;
              t1 = t\<lparr>subs := (subs t)[i := sb']\<rparr> in
          if sessions sb = {} \<or> sessions sb' \<noteq> {} then Some (True, t1, r1)
          else let pos = copyListPos sb;
                   k = signalTypeCount t w - 1;
                   cs = signalCopyList t ! (signalCopyBase t w + k);
                   t2 = t1\<lparr>signalTypeCount := (signalTypeCount t)(w := k),
                           signalCopyList := (signalCopyList t)[signalCopyBase t w + pos := cs],
                           subs := (subs t1)[sig_index (signals t ! cs) :=
                              (subs t1 ! sig_index (signals t ! cs))\<lparr>copyListPos := pos\<rparr>]\<rparr>
               in Some (False, Task_publish i t2
                    (ring_scratch (\<lambda>e. e\<lparr>sl_action := Remove, sl_position := pos\<rparr>) r1)))"

section \<open>Real-time operations\<close>

definition Task_processSignalList :: "'z task_scheme \<Rightarrow> sl_entry ring \<Rightarrow> 'z task_scheme \<times> sl_entry ring" where
  "Task_processSignalList t r =
     (let sp = ring_head r; sg = signals t ! sl_signal sp; w = sig_class sg;
          t1 = t\<lparr>signalListId := sl_listId sp\<rparr>;
          t2 = (case sl_action sp of
              Insert \<Rightarrow>
                let k = signalTypeCount t w in
                t1\<lparr>signalTypeCount := (signalTypeCount t)(w := k + 1),
                   copyList := (copyList t)[copyBase t w + k :=
                     \<lparr>ce_signal = sl_signal sp, ce_src = sig_addr sg, ce_len = sig_memSize sg\<rparr>],
                   signalMemSize := signalMemSize t + sig_memSize sg\<rparr>
            | Remove \<Rightarrow>
                let k = signalTypeCount t w - 1; cl = copyList t ! (copyBase t w + k);
                    moved = (copyList t)[copyBase t w + sl_position sp := cl] in
                t1\<lparr>signalTypeCount := (signalTypeCount t)(w := k),
                   copyList := moved[copyBase t w + k := (moved ! (copyBase t w + k))\<lparr>ce_src := 0\<rparr>],
                   signalMemSize := signalMemSize t - sig_memSize sg\<rparr>
            | NoAction \<Rightarrow> t1)
      in (t2, ring_advance r))"

text \<open>The loop of \<open>rt_update\<close> over the ring: it runs while the pointers differ.\<close>

definition Task_drain ::
    "'z task_scheme \<Rightarrow> sl_entry ring \<Rightarrow> ('z task_scheme \<times> sl_entry ring) option" where
  "Task_drain t r =
     while_option (\<lambda>(t, r). ring_rp r \<noteq> ring_wp r) (\<lambda>(t, r). Task_processSignalList t r) (t, r)"

text \<open>
  The loops over a segment of the copy list run until an entry with a null source address
  (\<open>for (cl = copyList[i]; cl->src; ++cl)\<close>). \<open>None\<close>: no such entry before the end of the
  allocation.
\<close>

fun cl_walk :: "copy_entry list \<Rightarrow> copy_entry list option" where
  "cl_walk [] = None"
| "cl_walk (e # es) = (if ce_src e = 0 then Some [] else map_option ((#) e) (cl_walk es))"

definition cl_segment :: "'z task_scheme \<Rightarrow> nat \<Rightarrow> copy_entry list option" where
  "cl_segment t i = cl_walk (drop (copyBase t i) (copyList t))"

section \<open>Abstract transfer lists\<close>

text \<open>
  Both processes hold, for each of the four classes, a list of signal indices. \<open>nrt_segs\<close> and
  \<open>rt_segs\<close> read it off the arrays; a ring entry is a command on such lists.
\<close>

definition nrt_segs :: "'z task_scheme \<Rightarrow> nat \<Rightarrow> nat list" where
  "nrt_segs t w = slice (signalCopyBase t w) (signalTypeCount t w) (signalCopyList t)"

definition rt_segs :: "'z task_scheme \<Rightarrow> nat \<Rightarrow> nat list" where
  "rt_segs t w = map ce_signal (slice (copyBase t w) (signalTypeCount t w) (copyList t))"

definition sl_apply :: "signal list \<Rightarrow> sl_entry \<Rightarrow> (nat \<Rightarrow> nat list) \<Rightarrow> nat \<Rightarrow> nat list" where
  "sl_apply sigs e segs =
     (let w = sig_class (sigs ! sl_signal e) in
      case sl_action e of
        Insert \<Rightarrow> segs(w := segs w @ [sl_signal e])
      | Remove \<Rightarrow> segs(w := swap_remove (sl_position e) (segs w))
      | NoAction \<Rightarrow> segs)"

definition sl_ok :: "signal list \<Rightarrow> sl_entry \<Rightarrow> (nat \<Rightarrow> nat list) \<Rightarrow> bool" where
  "sl_ok sigs e segs \<longleftrightarrow>
     sl_signal e < length sigs \<and>
     (let w = sig_class (sigs ! sl_signal e) in
      case sl_action e of
        Insert \<Rightarrow> sl_signal e \<notin> set (segs w)
      | Remove \<Rightarrow> sl_position e < length (segs w) \<and> segs w ! sl_position e = sl_signal e
      | NoAction \<Rightarrow> False)"

text \<open>Number of signals of a class: the capacity of its segment.\<close>

definition class_cap :: "signal list \<Rightarrow> nat \<Rightarrow> nat" where
  "class_cap sigs w = length (filter (\<lambda>s. sig_class s = w) sigs)"

definition segs_ok :: "signal list \<Rightarrow> (nat \<Rightarrow> nat list) \<Rightarrow> bool" where
  "segs_ok sigs segs \<longleftrightarrow>
     (\<forall>w. distinct (segs w) \<and> (\<forall>j\<in>set (segs w). j < length sigs \<and> sig_class (sigs ! j) = w))"

section \<open>The same operations with every access checked\<close>

text \<open>
  Outside of an array \<open>xs ! i\<close> is unspecified and \<open>xs[i := v]\<close> does nothing. The variants below
  perform the accesses of \<open>subscribe\<close> (after it has found room in the ring) and of \<open>processSignalList\<close> one by one and
  answer \<open>None\<close> at the first that leaves its array or, in the copy lists, the segment of the class (\<open>cap\<close> cells from
  \<open>base\<close> on); also for a counter that would fall below zero.
\<close>

definition list_get :: "nat \<Rightarrow> 'a list \<Rightarrow> 'a option" where
  "list_get i xs = (if i < length xs then Some (xs ! i) else None)"

definition list_put :: "nat \<Rightarrow> 'a \<Rightarrow> 'a list \<Rightarrow> 'a list option" where
  "list_put i v xs = (if i < length xs then Some (xs[i := v]) else None)"

definition seg_get :: "nat \<Rightarrow> nat \<Rightarrow> nat \<Rightarrow> 'a list \<Rightarrow> 'a option" where
  "seg_get base cap k xs = (if k < cap then list_get (base + k) xs else None)"

definition seg_put :: "nat \<Rightarrow> nat \<Rightarrow> nat \<Rightarrow> 'a \<Rightarrow> 'a list \<Rightarrow> 'a list option" where
  "seg_put base cap k v xs = (if k < cap then list_put (base + k) v xs else None)"

definition less_by :: "nat \<Rightarrow> nat \<Rightarrow> nat option" where
  "less_by n k = (if k \<le> n then Some (n - k) else None)"

lemmas checked_defs = list_get_def list_put_def seg_get_def seg_put_def less_by_def

definition Task_subscribe_checked ::
    "nat \<Rightarrow> nat \<Rightarrow> bool \<Rightarrow> 'z task_scheme \<Rightarrow> sl_entry ring
      \<Rightarrow> (bool \<times> 'z task_scheme \<times> sl_entry ring) option" where
  "Task_subscribe_checked i st ins t r =
     do { sg \<leftarrow> list_get i (signals t);
          sb \<leftarrow> list_get i (subs t);
          let w = sig_class sg; base = signalCopyBase t w; cap = class_cap (signals t) w;
              r1 = ring_scratch (\<lambda>e. e\<lparr>sl_signal := i\<rparr>) r in
          if ins then do {
            s1 \<leftarrow> list_put i (sb\<lparr>sessions := insert st (sessions sb)\<rparr>) (subs t);
            if sessions sb \<noteq> {} then Some (True, t\<lparr>subs := s1\<rparr>, r1)
            else do {
              let k = signalTypeCount t w;
              cl \<leftarrow> seg_put base cap k i (signalCopyList t);
              sb1 \<leftarrow> list_get i s1;
              s2 \<leftarrow> list_put i (sb1\<lparr>copyListPos := k\<rparr>) s1;
              Some (False, Task_publish i
                (t\<lparr>signalTypeCount := (signalTypeCount t)(w := k + 1), signalCopyList := cl, subs := s2\<rparr>)
                (ring_scratch (\<lambda>e. e\<lparr>sl_action := Insert\<rparr>) r1)) } }
          else do {
            s1 \<leftarrow> list_put i (sb\<lparr>sessions := sessions sb - {st}\<rparr>) (subs t);
            if sessions sb = {} \<or> sessions sb - {st} \<noteq> {} then Some (True, t\<lparr>subs := s1\<rparr>, r1)
            else do {
              let pos = copyListPos sb;
              k \<leftarrow> less_by (signalTypeCount t w) 1;
              cs \<leftarrow> seg_get base cap k (signalCopyList t);
              cl \<leftarrow> seg_put base cap pos cs (signalCopyList t);
              moved \<leftarrow> list_get cs (signals t);
              sb1 \<leftarrow> list_get (sig_index moved) s1;
              s2 \<leftarrow> list_put (sig_index moved) (sb1\<lparr>copyListPos := pos\<rparr>) s1;
              Some (False, Task_publish i
                (t\<lparr>signalTypeCount := (signalTypeCount t)(w := k), signalCopyList := cl, subs := s2\<rparr>)
                (ring_scratch (\<lambda>e. e\<lparr>sl_action := Remove, sl_position := pos\<rparr>) r1)) } } }"

definition Task_processSignalList_checked ::
    "'z task_scheme \<Rightarrow> sl_entry ring \<Rightarrow> ('z task_scheme \<times> sl_entry ring) option" where
  "Task_processSignalList_checked t r =
     do { sp \<leftarrow> list_get (ring_next r (ring_rp r)) (slots r);
          sg \<leftarrow> list_get (sl_signal sp) (signals t);
          let w = sig_class sg;
          let base = copyBase t w;
          let cap = class_cap (signals t) w;
          let t1 = t\<lparr>signalListId := sl_listId sp\<rparr>;
          t2 \<leftarrow> (case sl_action sp of
              Insert \<Rightarrow> do {
                let k = signalTypeCount t w;
                cl \<leftarrow> seg_put base cap k \<lparr>ce_signal = sl_signal sp, ce_src = sig_addr sg, ce_len = sig_memSize sg\<rparr> (copyList t);
                Some (t1\<lparr>signalTypeCount := (signalTypeCount t)(w := k + 1), copyList := cl,
                         signalMemSize := signalMemSize t + sig_memSize sg\<rparr>) }
            | Remove \<Rightarrow> do {
                k \<leftarrow> less_by (signalTypeCount t w) 1;
                last \<leftarrow> seg_get base cap k (copyList t);
                cl \<leftarrow> seg_put base cap (sl_position sp) last (copyList t);
                e \<leftarrow> seg_get base cap k cl;
                cl' \<leftarrow> seg_put base cap k (e\<lparr>ce_src := 0\<rparr>) cl;
                n \<leftarrow> less_by (signalMemSize t) (sig_memSize sg);
                Some (t1\<lparr>signalTypeCount := (signalTypeCount t)(w := k), copyList := cl', signalMemSize := n\<rparr>) }
            | NoAction \<Rightarrow> Some t1);
          Some (t2, ring_advance r) }"

section \<open>Classes and capacities\<close>

lemma dataTypeIndex_in_range:
  "align d < length dataTypeIndex \<and> dataTypeIndex ! align d < 4"
  using align_range(1) [of d] by (auto simp: dataTypeIndex_def)

lemma sig_class_less [simp]: "sig_class s < 4"
  using dataTypeIndex_in_range by (simp add: sig_class_def)

lemma class_cap_0: "4 \<le> w \<Longrightarrow> class_cap sigs w = 0"
  by (auto simp: class_cap_def filter_empty_conv dest: leD [of 4])

lemma class_cap_append [simp]:
  "class_cap (sigs @ [s]) w = class_cap sigs w + (if sig_class s = w then 1 else 0)"
  by (simp add: class_cap_def)

lemma class_cap_card: "class_cap sigs w = card {j. j < length sigs \<and> sig_class (sigs ! j) = w}"
  by (simp add: class_cap_def length_filter_conv_card)

lemma seg_base_add:
  "seg_base (\<lambda>w. c w + d w) e n = seg_base c e n + (\<Sum>w<n. d w)"
  by (induction n) simp_all

lemma seg_base_total: "seg_base (class_cap sigs) e 4 = length sigs + 4 * e"
proof (induction sigs rule: rev_induct)
  case Nil
  have "seg_base (class_cap []) e n = n * e" for n
    by (induction n) (simp_all add: class_cap_def)
  then show ?case by simp
next
  case (snoc s sigs)
  have "(\<Sum>w<4. if sig_class s = w then 1 else 0 :: nat) = 1"
    using sig_class_less [of s] by (simp add: lessThan_iff)
  with snoc show ?case
    by (simp add: seg_base_add [of "class_cap sigs" "\<lambda>w. if sig_class s = w then 1 else 0"])
qed

lemma seg_base_mono: "v < w \<Longrightarrow> seg_base c e v + c v + e \<le> seg_base c e w"
proof (induction w)
  case (Suc w)
  then show ?case by (cases "v = w") auto
qed simp

lemma seg_base_disjoint:
  "v \<noteq> w \<Longrightarrow> k < c w + e \<Longrightarrow>
   seg_base c e w + k < seg_base c e v \<or> seg_base c e v + (c v + e) \<le> seg_base c e w + k"
  using seg_base_mono [of v w c e] seg_base_mono [of w v c e] by (cases "v < w") auto

lemma seg_base_bound:
  "w < 4 \<Longrightarrow> seg_base (class_cap sigs) e w + (class_cap sigs w + e) \<le> length sigs + 4 * e"
  using seg_base_mono [of w 4 "class_cap sigs" e] by (simp add: seg_base_total)

lemma segs_ok_length:
  assumes "segs_ok sigs segs"
  shows "length (segs w) \<le> class_cap sigs w"
proof -
  have "length (segs w) = card (set (segs w))"
    using assms by (simp add: segs_ok_def distinct_card)
  also have "\<dots> \<le> class_cap sigs w"
    unfolding class_cap_card using assms by (intro card_mono) (auto simp: segs_ok_def)
  finally show ?thesis .
qed

lemma segs_ok_insert_length:
  assumes "segs_ok sigs segs" and "i < length sigs" and "sig_class (sigs ! i) = w"
    and "i \<notin> set (segs w)"
  shows "length (segs w) < class_cap sigs w"
proof -
  have "segs_ok sigs (segs(w := segs w @ [i]))"
    using assms by (auto simp: segs_ok_def)
  from segs_ok_length [OF this, of w] show ?thesis by simp
qed

lemma sl_apply_segs_ok:
  assumes "segs_ok sigs segs" and "sl_ok sigs e segs"
  shows "segs_ok sigs (sl_apply sigs e segs)"
  using assms
  by (cases "sl_action e")
    (auto simp: segs_ok_def sl_ok_def sl_apply_def Let_def distinct_swap_remove set_swap_remove)

section \<open>Updates of segmented arrays\<close>

lemma segs_update_outside:
  assumes "v \<noteq> w" and "k < c w + e" and "n \<le> c v + e"
  shows "slice (seg_base c e v) n (xs[seg_base c e w + k := x]) = slice (seg_base c e v) n xs"
  using seg_base_disjoint [of v w k c e] assms by (intro slice_update_outside) auto

lemma segs_append_cell:
  assumes "k = cnt w" and "k < c w" and "seg_base c e w + k < length xs"
    and "\<And>v. cnt v \<le> c v"
  shows "(\<lambda>v. slice (seg_base c e v) ((cnt(w := Suc k)) v) (xs[seg_base c e w + k := x]))
       = (\<lambda>v. slice (seg_base c e v) (cnt v) xs)(w := slice (seg_base c e w) (cnt w) xs @ [x])"
proof
  fix v
  have "cnt v \<le> c v + e" using assms(4) [of v] by simp
  with assms(1-3) show "slice (seg_base c e v) ((cnt(w := Suc k)) v) (xs[seg_base c e w + k := x])
      = ((\<lambda>v. slice (seg_base c e v) (cnt v) xs)(w := slice (seg_base c e w) (cnt w) xs @ [x])) v"
    by (cases "v = w") (simp_all add: slice_append_cell segs_update_outside)
qed

lemma segs_swap_remove:
  assumes "cnt w = Suc k" and "p \<le> k" and "Suc k \<le> c w" and "seg_base c e w + Suc k \<le> length xs"
    and "\<And>v. cnt v \<le> c v"
  shows "(\<lambda>v. slice (seg_base c e v) ((cnt(w := k)) v) (xs[seg_base c e w + p := xs ! (seg_base c e w + k)]))
       = (\<lambda>v. slice (seg_base c e v) (cnt v) xs)(w := swap_remove p (slice (seg_base c e w) (cnt w) xs))"
proof
  fix v
  have "cnt v \<le> c v + e" using assms(5) [of v] by simp
  with assms(1-4) show "slice (seg_base c e v) ((cnt(w := k)) v)
        (xs[seg_base c e w + p := xs ! (seg_base c e w + k)])
      = ((\<lambda>v. slice (seg_base c e v) (cnt v) xs)(w := swap_remove p (slice (seg_base c e w) (cnt w) xs))) v"
    by (cases "v = w") (simp_all add: slice_swap_remove segs_update_outside)
qed

section \<open>The non-real-time side\<close>

definition nrt_inv :: "'z task_scheme \<Rightarrow> bool" where
  "nrt_inv t \<longleftrightarrow>
     length (subs t) = length (signals t) \<and>
     length (signalCopyList t) = length (signals t) \<and>
     signalCopyBase t = seg_base (class_cap (signals t)) 0 \<and>
     (\<forall>w. signalTypeCount t w \<le> class_cap (signals t) w) \<and>
     (\<forall>j<length (signals t). sig_index (signals t ! j) = j) \<and>
     segs_ok (signals t) (nrt_segs t) \<and>
     (\<forall>j<length (signals t).
        (sessions (subs t ! j) \<noteq> {}) = (j \<in> set (nrt_segs t (sig_class (signals t ! j))))) \<and>
     (\<forall>j<length (signals t). sessions (subs t ! j) \<noteq> {} \<longrightarrow>
        copyListPos (subs t ! j) < signalTypeCount t (sig_class (signals t ! j)) \<and>
        nrt_segs t (sig_class (signals t ! j)) ! copyListPos (subs t ! j) = j)"

lemma nrt_invD:
  assumes "nrt_inv t"
  shows "length (subs t) = length (signals t)" "length (signalCopyList t) = length (signals t)"
    "signalCopyBase t = seg_base (class_cap (signals t)) 0"
    "signalTypeCount t w \<le> class_cap (signals t) w"
    "segs_ok (signals t) (nrt_segs t)"
    "j < length (signals t) \<Longrightarrow> sig_index (signals t ! j) = j"
    "j < length (signals t) \<Longrightarrow>
       (sessions (subs t ! j) \<noteq> {}) = (j \<in> set (nrt_segs t (sig_class (signals t ! j))))"
    "j < length (signals t) \<Longrightarrow> sessions (subs t ! j) \<noteq> {} \<Longrightarrow>
       copyListPos (subs t ! j) < signalTypeCount t (sig_class (signals t ! j))"
    "j < length (signals t) \<Longrightarrow> sessions (subs t ! j) \<noteq> {} \<Longrightarrow>
       nrt_segs t (sig_class (signals t ! j)) ! copyListPos (subs t ! j) = j"
  using assms by (auto simp: nrt_inv_def)

lemma nrt_segs_length:
  assumes "nrt_inv t"
  shows "length (nrt_segs t w) = signalTypeCount t w"
proof (cases "w < 4")
  case True
  with seg_base_bound [of w "signals t" 0] nrt_invD(4) [OF assms, of w] show ?thesis
    by (simp add: nrt_segs_def nrt_invD(2,3) [OF assms])
next
  case False
  with nrt_invD(4) [OF assms, of w] show ?thesis by (simp add: nrt_segs_def class_cap_0)
qed

lemma nrt_segs_cell_bound:
  assumes "nrt_inv t" and "w < 4" and "k < class_cap (signals t) w"
  shows "signalCopyBase t w + k < length (signalCopyList t)"
  using assms seg_base_bound [of w "signals t" 0] nrt_invD(2,3) [OF assms(1)] by simp

text \<open>Inserting a signal that no session uses appends it to its segment.\<close>

lemma nrt_insert:
  assumes inv: "nrt_inv t" and i: "i < length (signals t)" and unused: "sessions (subs t ! i) = {}"
    and w: "w = sig_class (signals t ! i)" and k: "k = signalTypeCount t w"
    and t': "signals t' = signals t" "signalCopyBase t' = signalCopyBase t"
      "signalTypeCount t' = (signalTypeCount t)(w := k + 1)"
      "signalCopyList t' = (signalCopyList t)[signalCopyBase t w + k := i]"
      "length (subs t') = length (subs t)"
      "sessions (subs t' ! i) = {st}" "copyListPos (subs t' ! i) = k"
      "\<And>j. j \<noteq> i \<Longrightarrow> sessions (subs t' ! j) = sessions (subs t ! j)"
      "\<And>j. j \<noteq> i \<Longrightarrow> copyListPos (subs t' ! j) = copyListPos (subs t ! j)"
  shows "k < class_cap (signals t) w" and "nrt_segs t' = (nrt_segs t)(w := nrt_segs t w @ [i])"
    and "nrt_inv t'"
proof -
  note D = nrt_invD [OF inv]
  have notin: "i \<notin> set (nrt_segs t w)" using D(7) [OF i] unused w by simp
  show lt: "k < class_cap (signals t) w"
    using segs_ok_insert_length [OF D(5) i w [symmetric] notin] k by (simp add: nrt_segs_length [OF inv])
  have w4: "w < 4" by (simp add: w)
  show segs: "nrt_segs t' = (nrt_segs t)(w := nrt_segs t w @ [i])"
    using segs_append_cell [of k "signalTypeCount t" w "class_cap (signals t)" 0 "signalCopyList t" i]
      k lt nrt_segs_cell_bound [OF inv w4 lt] D(3,4) t'(2-4)
    by (simp add: nrt_segs_def [abs_def])
  have ok: "segs_ok (signals t') (nrt_segs t')"
    using D(5) notin i w by (auto simp: segs t'(1) segs_ok_def)
  have "(sessions (subs t' ! j) \<noteq> {}) = (j \<in> set (nrt_segs t' (sig_class (signals t' ! j))))"
    if "j < length (signals t')" for j
    using D(7) [of j] that t'(1,6,8) w by (cases "j = i") (auto simp: segs)
  moreover have "copyListPos (subs t' ! j) < signalTypeCount t' (sig_class (signals t' ! j)) \<and>
      nrt_segs t' (sig_class (signals t' ! j)) ! copyListPos (subs t' ! j) = j"
    if "j < length (signals t')" "sessions (subs t' ! j) \<noteq> {}" for j
    using D(8,9) [of j] that t'(1,3,6-9) w k
    by (cases "j = i") (auto simp: segs nth_append nrt_segs_length [OF inv])
  moreover have "signalTypeCount t' v \<le> class_cap (signals t') v" for v
    using D(4) [of v] lt k t'(1,3) by (cases "v = w") auto
  ultimately show "nrt_inv t'"
    using ok D(1-3,6) t'(1,2,4,5) by (simp add: nrt_inv_def)
qed

text \<open>
  Removing the last user of a signal overwrites its cell with the last signal of the segment,
  whose recorded position follows.
\<close>

lemma nrt_remove_segs:
  assumes inv: "nrt_inv t" and i: "i < length (signals t)" and used: "sessions (subs t ! i) \<noteq> {}"
    and w: "w = sig_class (signals t ! i)" and k: "k = signalTypeCount t w - 1"
    and pos: "pos = copyListPos (subs t ! i)"
    and t': "signalCopyBase t' = signalCopyBase t"
      "signalTypeCount t' = (signalTypeCount t)(w := k)"
      "signalCopyList t' = (signalCopyList t)[signalCopyBase t w + pos := signalCopyList t ! (signalCopyBase t w + k)]"
  shows "signalTypeCount t w = Suc k" and "pos \<le> k" and "nrt_segs t w ! pos = i"
    and "signalCopyList t ! (signalCopyBase t w + k) = last (nrt_segs t w)"
    and "nrt_segs t' = (nrt_segs t)(w := swap_remove pos (nrt_segs t w))"
proof -
  note D = nrt_invD [OF inv]
  have lt: "pos < signalTypeCount t w" using D(8) [OF i used] w pos by simp
  then show cnt: "signalTypeCount t w = Suc k" and le: "pos \<le> k" using k by simp_all
  show "nrt_segs t w ! pos = i" using D(9) [OF i used] w pos by simp
  have w4: "w < 4" by (simp add: w)
  have cap: "Suc k \<le> class_cap (signals t) w" using D(4) [of w] cnt by simp
  have bnd: "signalCopyBase t w + k < length (signalCopyList t)"
    using nrt_segs_cell_bound [OF inv w4, of k] cap by simp
  then show "signalCopyList t ! (signalCopyBase t w + k) = last (nrt_segs t w)"
    by (simp add: nrt_segs_def cnt slice_Suc)
  show "nrt_segs t' = (nrt_segs t)(w := swap_remove pos (nrt_segs t w))"
    using segs_swap_remove [of "signalTypeCount t" w k pos "class_cap (signals t)" 0 "signalCopyList t"]
      cnt le cap bnd D(3,4) t' by (simp add: nrt_segs_def [abs_def])
qed

lemma nrt_remove:
  assumes inv: "nrt_inv t" and i: "i < length (signals t)" and used: "sessions (subs t ! i) \<noteq> {}"
    and w: "w = sig_class (signals t ! i)" and k: "k = signalTypeCount t w - 1"
    and pos: "pos = copyListPos (subs t ! i)"
    and cs: "cs = signalCopyList t ! (signalCopyBase t w + k)"
    and sig: "signals t' = signals t"
    and t': "signalCopyBase t' = signalCopyBase t"
      "signalTypeCount t' = (signalTypeCount t)(w := k)"
      "signalCopyList t' = (signalCopyList t)[signalCopyBase t w + pos := cs]"
    and len: "length (subs t') = length (subs t)"
    and ses: "sessions (subs t' ! i) = {}" "\<And>j. j \<noteq> i \<Longrightarrow> sessions (subs t' ! j) = sessions (subs t ! j)"
    and clp: "copyListPos (subs t' ! cs) = pos" "\<And>j. j \<noteq> cs \<Longrightarrow> copyListPos (subs t' ! j) = copyListPos (subs t ! j)"
  shows "nrt_inv t'"
proof -
  note D = nrt_invD [OF inv]
  note R = nrt_remove_segs [OF inv i used w k pos t'(1,2) t'(3) [unfolded cs]]
  let ?s = "nrt_segs t w"
  have dist: "distinct ?s" using D(5) by (simp add: segs_ok_def)
  have len_s: "length ?s = Suc k" by (simp add: nrt_segs_length [OF inv] R(1))
  have p: "pos < length ?s" using R(2) len_s by simp
  have cs_last: "cs = ?s ! k" using R(4) cs len_s by (simp add: last_conv_nth flip: length_0_conv)
  have set': "set (nrt_segs t' w) = set ?s - {i}"
    using set_swap_remove [OF dist p] R(3,5) by simp
  have "segs_ok (signals t') (nrt_segs t')"
    using D(5) set' distinct_swap_remove [OF dist p] R(5) by (auto simp: segs_ok_def sig)
  moreover have "(sessions (subs t' ! j) \<noteq> {}) = (j \<in> set (nrt_segs t' (sig_class (signals t' ! j))))"
    if "j < length (signals t')" for j
    using D(7) [of j] that ses w set' R(5) by (cases "j = i") (auto simp: sig)
  moreover have "copyListPos (subs t' ! j) < signalTypeCount t' (sig_class (signals t' ! j)) \<and>
      nrt_segs t' (sig_class (signals t' ! j)) ! copyListPos (subs t' ! j) = j"
    if j: "j < length (signals t')" "sessions (subs t' ! j) \<noteq> {}" for j
  proof -
    have ji: "j \<noteq> i" using j ses(1) by auto
    then have oldj: "sessions (subs t ! j) \<noteq> {}" using j ses(2) by simp
    note Dj = D(8,9) [OF j(1) [unfolded sig] oldj]
    have cls: "sig_class (signals t ! cs) = w"
      using D(5) nth_mem [of k ?s] len_s by (simp add: segs_ok_def cs_last)
    have pj: "copyListPos (subs t ! j) \<noteq> k" if "sig_class (signals t ! j) = w" "j \<noteq> cs"
      using Dj(2) that cs_last by auto
    have pji: "copyListPos (subs t ! j) \<noteq> pos" if "sig_class (signals t ! j) = w"
      using Dj(2) R(3) ji that by auto
    have "j = cs \<Longrightarrow> pos \<noteq> k" using R(3) cs_last ji by auto
    then show ?thesis
      using Dj j(1) clp pj pji cls R(1,2,5) len_s cs_last
      by (cases "j = cs"; cases "sig_class (signals t ! j) = w")
        (auto simp: sig t'(2) nth_swap_remove last_conv_nth simp flip: length_0_conv)
  qed
  moreover have "signalTypeCount t' v \<le> class_cap (signals t') v" for v
    using D(4) [of v] R(1) by (cases "v = w") (auto simp: sig t'(2))
  ultimately show ?thesis
    using D(1-3,6) t'(1,3) len by (simp add: nrt_inv_def sig)
qed

section \<open>What \<open>subscribe\<close> does\<close>

text \<open>
  The effect of a call on the abstract lists and on the ring. \<open>sub_effect\<close> holds of a call that
  leaves the transfer list alone (result \<open>True\<close>) or that appends exactly one admissible
  command to the ring (result \<open>False\<close>).
\<close>

definition sub_effect ::
    "'z task_scheme \<Rightarrow> sl_entry ring \<Rightarrow> bool \<Rightarrow> 'z task_scheme \<Rightarrow> sl_entry ring \<Rightarrow> bool" where
  "sub_effect t r b t' r' \<longleftrightarrow>
     nrt_inv t' \<and> ring_inv r' \<and> signals t' = signals t \<and>
     (if b then nrt_segs t' = nrt_segs t \<and> pending r' = pending r \<and>
        signalListId t' = signalListId t \<and> slots r' ! ring_wp r' = slots r ! ring_wp r
      else \<exists>e. pending r' = pending r @ [e] \<and> sl_ok (signals t) e (nrt_segs t) \<and>
        nrt_segs t' = sl_apply (signals t) e (nrt_segs t) \<and>
        sl_listId e = signalListId t' \<and> signalListId t' = signalListId t + 1 \<and>
        slots r' ! ring_wp r' = e)"

lemma nrt_inv_sessions:
  assumes inv: "nrt_inv t" and i: "i < length (signals t)" and ne: "S = {} \<longleftrightarrow> sessions (subs t ! i) = {}"
    and t': "t' = t\<lparr>subs := (subs t)[i := (subs t ! i)\<lparr>sessions := S\<rparr>]\<rparr>"
  shows "nrt_inv t'" and "nrt_segs t' = nrt_segs t"
proof -
  show segs: "nrt_segs t' = nrt_segs t" by (simp add: nrt_segs_def [abs_def] t')
  have "sessions (subs t' ! j) = {} \<longleftrightarrow> sessions (subs t ! j) = {}"
    and "copyListPos (subs t' ! j) = copyListPos (subs t ! j)" if "j < length (signals t)" for j
    using that ne i nrt_invD(1) [OF inv] by (auto simp: t' nth_list_update)
  with inv show "nrt_inv t'" unfolding nrt_inv_def segs by (simp add: t')
qed

lemma subscribe_noop:
  assumes inv: "nrt_inv t" and i: "i < length (signals t)" and rinv: "ring_inv r" "\<not> ring_full r"
    and ne: "S = {} \<longleftrightarrow> sessions (subs t ! i) = {}"
  shows "sub_effect t r True (t\<lparr>subs := (subs t)[i := (subs t ! i)\<lparr>sessions := S\<rparr>]\<rparr>)
           (ring_scratch (\<lambda>e. e\<lparr>sl_signal := i\<rparr>) r)"
  using nrt_inv_sessions [OF inv i ne refl] rinv
  by (simp add: sub_effect_def ring_scratch_wp_slot)

text \<open>The shared end of the two branches that change the list.\<close>

lemma publish_effect:
  assumes rinv: "ring_inv r" "\<not> ring_full r"
    and sig: "signals t2 = signals t" and id: "signalListId t2 = signalListId t"
    and e: "e = f (slots r ! ring_next r (ring_wp r))"
    and ok: "sl_ok (signals t) (e\<lparr>sl_listId := signalListId t + 1\<rparr>) (nrt_segs t)"
    and segs: "nrt_segs t2 = sl_apply (signals t) (e\<lparr>sl_listId := signalListId t + 1\<rparr>) (nrt_segs t)"
    and inv: "nrt_inv (fst (Task_publish i t2 (ring_scratch f r)))"
  shows "case Task_publish i t2 (ring_scratch f r) of (t', r') \<Rightarrow> sub_effect t r False t' r'"
proof -
  let ?id = "signalListId t + 1"
  have r': "snd (Task_publish i t2 (ring_scratch f r))
      = ring_publish (ring_scratch (\<lambda>x. (f x)\<lparr>sl_listId := ?id\<rparr>) r)"
    by (simp add: Task_publish_def Let_def id ring_scratch_scratch [OF rinv(1)])
  have "nrt_segs (fst (Task_publish i t2 (ring_scratch f r))) = nrt_segs t2"
    by (simp add: Task_publish_def Let_def nrt_segs_def [abs_def])
  with assms show ?thesis
    unfolding sub_effect_def case_prod_beta r'
    by (simp add: ring_publish_inv pending_publish_scratch ring_publish_scratch_slot)
      (simp add: Task_publish_def Let_def)
qed

lemma subscribe_insert:
  assumes inv: "nrt_inv t" and i: "i < length (signals t)" and rinv: "ring_inv r" "\<not> ring_full r"
    and unused: "sessions (subs t ! i) = {}"
  shows "\<exists>t' r'. Task_subscribe i st True t r = Some (False, t', r') \<and> sub_effect t r False t' r'"
proof -
  let ?w = "sig_class (signals t ! i)" and ?f = "\<lambda>e. e\<lparr>sl_signal := i, sl_action := Insert\<rparr>"
  let ?k = "signalTypeCount t ?w"
  let ?t2 = "t\<lparr>signalTypeCount := (signalTypeCount t)(?w := ?k + 1),
               signalCopyList := (signalCopyList t)[signalCopyBase t ?w + ?k := i],
               subs := (subs t)[i := (subs t ! i)\<lparr>sessions := {st}, copyListPos := ?k\<rparr>]\<rparr>"
  have li: "i < length (subs t)" using i nrt_invD(1) [OF inv] by simp
  have sub: "Task_subscribe i st True t r
      = Some (False, Task_publish i ?t2 (ring_scratch ?f r))"
    using li unused rinv by (simp add: Task_subscribe_def Let_def ring_scratch_scratch)
  have seg2: "nrt_segs ?t2 = (nrt_segs t)(?w := nrt_segs t ?w @ [i])"
    by (rule nrt_insert(2) [OF inv i unused refl refl, of _ st]) (use li in \<open>auto simp: nth_list_update\<close>)
  have inv2: "nrt_inv (fst (Task_publish i ?t2 (ring_scratch ?f r)))"
    by (rule nrt_insert(3) [OF inv i unused refl refl, of _ st])
      (use li in \<open>auto simp: Task_publish_def Let_def nth_list_update\<close>)
  have "i \<notin> set (nrt_segs t ?w)" using nrt_invD(7) [OF inv i] unused by simp
  then have "case Task_publish i ?t2 (ring_scratch ?f r) of (t', r') \<Rightarrow> sub_effect t r False t' r'"
    using i seg2 inv2
    by (intro publish_effect [OF rinv _ _ refl]) (simp_all add: sl_ok_def sl_apply_def Let_def)
  with sub show ?thesis by (cases "Task_publish i ?t2 (ring_scratch ?f r)") simp
qed

lemma subscribe_remove:
  assumes inv: "nrt_inv t" and i: "i < length (signals t)" and rinv: "ring_inv r" "\<not> ring_full r"
    and used: "sessions (subs t ! i) \<noteq> {}" "sessions (subs t ! i) - {st} = {}"
  shows "\<exists>t' r'. Task_subscribe i st False t r = Some (False, t', r') \<and> sub_effect t r False t' r'"
proof -
  let ?w = "sig_class (signals t ! i)" and ?pos = "copyListPos (subs t ! i)"
  let ?f = "\<lambda>e. e\<lparr>sl_signal := i, sl_action := Remove, sl_position := ?pos\<rparr>"
  let ?k = "signalTypeCount t ?w - 1"
  let ?cs = "signalCopyList t ! (signalCopyBase t ?w + ?k)"
  let ?s1 = "(subs t)[i := (subs t ! i)\<lparr>sessions := sessions (subs t ! i) - {st}\<rparr>]"
  let ?t2 = "t\<lparr>signalTypeCount := (signalTypeCount t)(?w := ?k),
               signalCopyList := (signalCopyList t)[signalCopyBase t ?w + ?pos := ?cs],
               subs := ?s1[?cs := (?s1 ! ?cs)\<lparr>copyListPos := ?pos\<rparr>]\<rparr>"
  note D = nrt_invD [OF inv]
  have li: "i < length (subs t)" using i D(1) by simp
  have R: "signalTypeCount t ?w = Suc ?k" "?pos \<le> ?k" "nrt_segs t ?w ! ?pos = i"
    "?cs = last (nrt_segs t ?w)"
    "nrt_segs ?t2 = (nrt_segs t)(?w := swap_remove ?pos (nrt_segs t ?w))"
    by (rule nrt_remove_segs [OF inv i used(1) refl refl refl, of ?t2]; simp)+
  have "?cs \<in> set (nrt_segs t ?w)"
    using R(1,4) nrt_segs_length [OF inv, of ?w]
    by (metis last_in_set length_0_conv nat.distinct(1))
  then have cs: "?cs < length (signals t)" using D(5) by (simp add: segs_ok_def)
  with D(1) have lcs: "?cs < length (subs t)" by simp
  have sub: "Task_subscribe i st False t r = Some (False, Task_publish i ?t2 (ring_scratch ?f r))"
    using li used rinv D(6) [OF cs] by (simp add: Task_subscribe_def Let_def ring_scratch_scratch)
  have inv2: "nrt_inv (fst (Task_publish i ?t2 (ring_scratch ?f r)))"
    by (rule nrt_remove [OF inv i used(1) refl refl refl refl])
      (use li lcs used(2) in \<open>auto simp: Task_publish_def Let_def nth_list_update\<close>)
  have "?pos < length (nrt_segs t ?w)" "nrt_segs t ?w ! ?pos = i"
    using R(1-3) nrt_segs_length [OF inv, of ?w] by simp_all
  then have "case Task_publish i ?t2 (ring_scratch ?f r) of (t', r') \<Rightarrow> sub_effect t r False t' r'"
    using i R(5) inv2
    by (intro publish_effect [OF rinv _ _ refl]) (simp_all add: sl_ok_def sl_apply_def Let_def)
  with sub show ?thesis by (cases "Task_publish i ?t2 (ring_scratch ?f r)") simp
qed

lemma subscribe_effect:
  assumes inv: "nrt_inv t" and i: "i < length (signals t)" and rinv: "ring_inv r"
    and res: "Task_subscribe i st ins t r = Some (b, t', r')"
  shows "sub_effect t r b t' r'"
proof -
  have nf: "\<not> ring_full r" using res by (auto simp: Task_subscribe_def split: if_splits)
  consider (new) "ins" "sessions (subs t ! i) = {}"
    | (last) "\<not> ins" "sessions (subs t ! i) \<noteq> {}" "sessions (subs t ! i) - {st} = {}"
    | (again) "ins" "sessions (subs t ! i) \<noteq> {}"
    | (others) "\<not> ins" "sessions (subs t ! i) = {} \<or> sessions (subs t ! i) - {st} \<noteq> {}"
    by blast
  then show ?thesis
  proof cases
    case new
    with subscribe_insert [OF inv i rinv nf, of st] res show ?thesis by auto
  next
    case last
    with subscribe_remove [OF inv i rinv nf, of st] res show ?thesis by auto
  next
    case again
    with res nf have "b" "t' = t\<lparr>subs := (subs t)[i := (subs t ! i)\<lparr>sessions := insert st (sessions (subs t ! i))\<rparr>]\<rparr>"
      "r' = ring_scratch (\<lambda>e. e\<lparr>sl_signal := i\<rparr>) r"
      by (auto simp: Task_subscribe_def Let_def)
    with again subscribe_noop [OF inv i rinv nf, of "insert st (sessions (subs t ! i))"] show ?thesis by simp
  next
    case others
    with res nf have "b" "t' = t\<lparr>subs := (subs t)[i := (subs t ! i)\<lparr>sessions := sessions (subs t ! i) - {st}\<rparr>]\<rparr>"
      "r' = ring_scratch (\<lambda>e. e\<lparr>sl_signal := i\<rparr>) r"
      by (auto simp: Task_subscribe_def Let_def)
    with others subscribe_noop [OF inv i rinv nf, of "sessions (subs t ! i) - {st}"] show ?thesis by auto
  qed
qed

section \<open>The real-time side\<close>

definition rt_inv :: "'z task_scheme \<Rightarrow> bool" where
  "rt_inv t \<longleftrightarrow>
     length (copyList t) = length (signals t) + 4 \<and>
     copyBase t = seg_base (class_cap (signals t)) 1 \<and>
     (\<forall>w. signalTypeCount t w \<le> class_cap (signals t) w) \<and>
     segs_ok (signals t) (rt_segs t) \<and>
     (\<forall>w<4. \<forall>k < signalTypeCount t w.
        ce_src (copyList t ! (copyBase t w + k)) = sig_addr (signals t ! ce_signal (copyList t ! (copyBase t w + k))) \<and>
        ce_len (copyList t ! (copyBase t w + k)) = sig_memSize (signals t ! ce_signal (copyList t ! (copyBase t w + k)))) \<and>
     (\<forall>w<4. \<forall>k. signalTypeCount t w \<le> k \<and> k \<le> class_cap (signals t) w \<longrightarrow>
        ce_src (copyList t ! (copyBase t w + k)) = 0) \<and>
     signalMemSize t = (\<Sum>w<4. sum_list (map (\<lambda>j. sig_memSize (signals t ! j)) (rt_segs t w)))"

lemma rt_invD:
  assumes "rt_inv t"
  shows "length (copyList t) = length (signals t) + 4"
    "copyBase t = seg_base (class_cap (signals t)) 1"
    "signalTypeCount t w \<le> class_cap (signals t) w"
    "segs_ok (signals t) (rt_segs t)"
    "w < 4 \<Longrightarrow> k < signalTypeCount t w \<Longrightarrow>
       ce_src (copyList t ! (copyBase t w + k)) = sig_addr (signals t ! ce_signal (copyList t ! (copyBase t w + k)))"
    "w < 4 \<Longrightarrow> k < signalTypeCount t w \<Longrightarrow>
       ce_len (copyList t ! (copyBase t w + k)) = sig_memSize (signals t ! ce_signal (copyList t ! (copyBase t w + k)))"
    "w < 4 \<Longrightarrow> signalTypeCount t w \<le> k \<Longrightarrow> k \<le> class_cap (signals t) w \<Longrightarrow>
       ce_src (copyList t ! (copyBase t w + k)) = 0"
    "signalMemSize t = (\<Sum>w<4. sum_list (map (\<lambda>j. sig_memSize (signals t ! j)) (rt_segs t w)))"
  using assms by (auto simp: rt_inv_def)

lemma rt_cell_bound:
  "rt_inv t \<Longrightarrow> w < 4 \<Longrightarrow> k \<le> class_cap (signals t) w \<Longrightarrow> copyBase t w + k < length (copyList t)"
  using seg_base_bound [of w "signals t" 1] rt_invD(1,2) [of t] by simp

lemma rt_segs_length:
  assumes "rt_inv t"
  shows "length (rt_segs t w) = signalTypeCount t w"
proof (cases "w < 4")
  case True
  with rt_cell_bound [OF assms True, of "class_cap (signals t) w"] rt_invD(3) [OF assms, of w]
  show ?thesis by (simp add: rt_segs_def)
next
  case False
  with rt_invD(3) [OF assms, of w] show ?thesis by (simp add: rt_segs_def class_cap_0)
qed

lemma rt_segs_map: "rt_segs t w = slice (copyBase t w) (signalTypeCount t w) (map ce_signal (copyList t))"
  by (simp add: rt_segs_def map_slice)

lemma rt_cell_neq:
  assumes "rt_inv t" and "k \<le> class_cap (signals t) w" and "k' \<le> class_cap (signals t) v"
    and "(v, k') \<noteq> (w, k)"
  shows "copyBase t v + k' \<noteq> copyBase t w + k"
  using assms seg_base_disjoint [of v w k "class_cap (signals t)" 1] rt_invD(2) [OF assms(1)]
  by (cases "v = w") auto

lemma sum_segs_update:
  fixes f :: "nat list \<Rightarrow> nat" and w :: nat
  assumes "w < 4"
  shows "(\<Sum>v<4. f ((segs(w := ys)) v)) + f (segs w) = (\<Sum>v<4. f (segs v)) + f ys"
proof -
  have "(\<Sum>v<4. f ((segs(w := ys)) v)) = f ys + (\<Sum>v\<in>{..<4} - {w}. f (segs v))"
    using assms by (subst sum.remove [of _ w]) (auto intro!: sum.cong)
  moreover have "(\<Sum>v<4. f (segs v)) = f (segs w) + (\<Sum>v\<in>{..<4} - {w}. f (segs v))"
    using assms by (subst sum.remove [of _ w]) auto
  ultimately show ?thesis by simp
qed

lemma process_insert:
  assumes inv: "rt_inv t" and ok: "sl_ok (signals t) (ring_head r) (rt_segs t)"
    and act: "sl_action (ring_head r) = Insert"
    and t': "t' = fst (Task_processSignalList t r)"
  shows "rt_inv t'" and "rt_segs t' = sl_apply (signals t) (ring_head r) (rt_segs t)"
proof -
  note D = rt_invD [OF inv]
  define i w where "i = sl_signal (ring_head r)" and "w = sig_class (signals t ! i)"
  define k where "k = signalTypeCount t w"
  have w4: "w < 4" by (simp add: w_def)
  have i: "i < length (signals t)" and new: "i \<notin> set (rt_segs t w)"
    using ok act by (auto simp: sl_ok_def i_def w_def Let_def)
  have lt: "k < class_cap (signals t) w"
    using segs_ok_insert_length [OF D(4) i w_def [symmetric] new] by (simp add: rt_segs_length [OF inv] k_def)
  have bnd: "copyBase t w + k < length (copyList t)"
    using rt_cell_bound [OF inv w4, of k] lt by simp
  let ?e = "\<lparr>ce_signal = i, ce_src = sig_addr (signals t ! i), ce_len = sig_memSize (signals t ! i)\<rparr>"
  have t'_sel: "signals t' = signals t" "copyBase t' = copyBase t"
    "signalTypeCount t' = (signalTypeCount t)(w := k + 1)"
    "copyList t' = (copyList t)[copyBase t w + k := ?e]"
    "signalMemSize t' = signalMemSize t + sig_memSize (signals t ! i)"
    using act by (simp_all add: t' Task_processSignalList_def Let_def i_def w_def k_def)
  have segs: "rt_segs t' = (rt_segs t)(w := rt_segs t w @ [i])"
    using segs_append_cell [of k "signalTypeCount t" w "class_cap (signals t)" 1 "map ce_signal (copyList t)" i]
      lt bnd D(2,3) by (simp add: rt_segs_map [abs_def] t'_sel map_update k_def)
  then show "rt_segs t' = sl_apply (signals t) (ring_head r) (rt_segs t)"
    using act by (simp add: sl_apply_def Let_def i_def w_def)
  have cell: "copyList t' ! (copyBase t v + m) = (if (v, m) = (w, k) then ?e else copyList t ! (copyBase t v + m))"
    if "m \<le> class_cap (signals t) v" for v m
    using rt_cell_neq [OF inv _ that, of k w] lt bnd by (auto simp: t'_sel nth_list_update)
  have cap: "m \<le> class_cap (signals t) v" if "m < signalTypeCount t' v" for v m
    using that D(3) [of v] lt by (auto simp: t'_sel split: if_splits)
  have "segs_ok (signals t') (rt_segs t')"
    using D(4) i new by (auto simp: segs t'_sel segs_ok_def w_def)
  moreover have "signalTypeCount t' v \<le> class_cap (signals t') v" for v
    using D(3) [of v] lt by (auto simp: t'_sel)
  moreover have "signalMemSize t' = (\<Sum>v<4. sum_list (map (\<lambda>j. sig_memSize (signals t' ! j)) (rt_segs t' v)))"
    using sum_segs_update [OF w4, of "\<lambda>xs. sum_list (map (\<lambda>j. sig_memSize (signals t ! j)) xs)" "rt_segs t"
        "rt_segs t w @ [i]"] D(8) by (simp add: segs t'_sel)
  ultimately show "rt_inv t'"
    unfolding rt_inv_def
    using D(1,2,5-7) cell cap lt
    by (auto simp: t'_sel(1-3) k_def less_Suc_eq Suc_le_eq) (auto simp: t'_sel(4))
qed

lemma process_remove:
  assumes inv: "rt_inv t" and ok: "sl_ok (signals t) (ring_head r) (rt_segs t)"
    and act: "sl_action (ring_head r) = Remove"
    and t': "t' = fst (Task_processSignalList t r)"
  shows "rt_inv t'" and "rt_segs t' = sl_apply (signals t) (ring_head r) (rt_segs t)"
proof -
  note D = rt_invD [OF inv]
  define i w p where "i = sl_signal (ring_head r)" and "w = sig_class (signals t ! i)"
    and "p = sl_position (ring_head r)"
  define k where "k = signalTypeCount t w - 1"
  have w4: "w < 4" by (simp add: w_def)
  have p: "p < length (rt_segs t w)" and seg_p: "rt_segs t w ! p = i"
    using ok act by (auto simp: sl_ok_def i_def w_def p_def Let_def)
  have cnt: "signalTypeCount t w = Suc k" and le: "p \<le> k"
    using p by (simp_all add: rt_segs_length [OF inv] k_def)
  have cap: "Suc k \<le> class_cap (signals t) w" using D(3) [of w] cnt by simp
  have bnd: "copyBase t w + k < length (copyList t)"
    using rt_cell_bound [OF inv w4, of k] cap by simp
  let ?cl = "copyList t ! (copyBase t w + k)"
  let ?mv = "(copyList t)[copyBase t w + p := ?cl]"
  have t'_sel: "signals t' = signals t" "copyBase t' = copyBase t"
    "signalTypeCount t' = (signalTypeCount t)(w := k)"
    "copyList t' = ?mv[copyBase t w + k := (?mv ! (copyBase t w + k))\<lparr>ce_src := 0\<rparr>]"
    "signalMemSize t' = signalMemSize t - sig_memSize (signals t ! i)"
    using act by (simp_all add: t' Task_processSignalList_def Let_def i_def w_def k_def p_def)
  have "map ce_signal (copyList t') = map ce_signal ?mv"
    unfolding t'_sel(4) by (rule map_update_same) simp
  then have segs: "rt_segs t' = (rt_segs t)(w := swap_remove p (rt_segs t w))"
    using segs_swap_remove [of "signalTypeCount t" w k p "class_cap (signals t)" 1 "map ce_signal (copyList t)"]
      cnt le cap bnd D(2,3) by (simp add: rt_segs_map [abs_def] t'_sel(2,3) map_update)
  then show "rt_segs t' = sl_apply (signals t) (ring_head r) (rt_segs t)"
    using act by (simp add: sl_apply_def Let_def i_def w_def p_def)
  have cell: "copyList t' ! (copyBase t v + m) =
      (if (v, m) = (w, k) then (?mv ! (copyBase t w + k))\<lparr>ce_src := 0\<rparr>
       else if (v, m) = (w, p) then ?cl else copyList t ! (copyBase t v + m))"
    if "m \<le> class_cap (signals t) v" for v m
  proof (cases "(v, m) = (w, k)")
    case True
    then show ?thesis using bnd by (simp add: t'_sel(4))
  next
    case False
    then have "copyBase t w + k \<noteq> copyBase t v + m"
      using rt_cell_neq [OF inv _ that, of k w] cap by auto
    moreover have "(v, m) \<noteq> (w, p) \<Longrightarrow> copyBase t w + p \<noteq> copyBase t v + m"
      using rt_cell_neq [OF inv _ that, of p w] cap le by auto
    ultimately show ?thesis
      using False bnd le by (cases "(v, m) = (w, p)") (auto simp: t'_sel(4))
  qed
  have lcap: "m \<le> class_cap (signals t) v" if "m < signalTypeCount t v" for v m
    using that D(3) [of v] by auto
  have dist: "distinct (rt_segs t w)" using D(4) by (simp add: segs_ok_def)
  have "segs_ok (signals t') (rt_segs t')"
    using D(4) distinct_swap_remove [OF dist p] set_swap_remove [OF dist p]
    by (auto simp: segs t'_sel segs_ok_def)
  moreover have "signalTypeCount t' v \<le> class_cap (signals t') v" for v
    using D(3) [of v] cap by (auto simp: t'_sel)
  moreover have "signalMemSize t' = (\<Sum>v<4. sum_list (map (\<lambda>j. sig_memSize (signals t' ! j)) (rt_segs t' v)))"
    using sum_segs_update [OF w4, of "\<lambda>xs. sum_list (map (\<lambda>j. sig_memSize (signals t ! j)) xs)" "rt_segs t"
        "swap_remove p (rt_segs t w)"] D(8) sum_list_swap_remove [OF p, of "\<lambda>j. sig_memSize (signals t ! j)"]
      seg_p by (simp add: segs t'_sel)
  moreover have "ce_src (copyList t' ! (copyBase t' v + m)) = 0"
    if "v < 4" "signalTypeCount t' v \<le> m" "m \<le> class_cap (signals t') v" for v m
    using that cell [of m v] D(7) [of v m] cnt le by (auto simp: t'_sel(1-3) split: if_splits)
  moreover have "ce_src (copyList t' ! (copyBase t' v + m)) = sig_addr (signals t' ! ce_signal (copyList t' ! (copyBase t' v + m)))
      \<and> ce_len (copyList t' ! (copyBase t' v + m)) = sig_memSize (signals t' ! ce_signal (copyList t' ! (copyBase t' v + m)))"
    if "v < 4" "m < signalTypeCount t' v" for v m
    using that cell [of m v] lcap [of m v] D(5,6) [of v m] D(5,6) [of w k] cnt w4
    by (auto simp: t'_sel(1-3) split: if_splits)
  ultimately show "rt_inv t'"
    using D(1,2) by (simp add: rt_inv_def t'_sel(1,2)) (simp add: t'_sel(4))
qed

lemma process_effect:
  assumes inv: "rt_inv t" and ok: "sl_ok (signals t) (ring_head r) (rt_segs t)"
    and res: "Task_processSignalList t r = (t', r')"
  shows "rt_inv t'" "rt_segs t' = sl_apply (signals t) (ring_head r) (rt_segs t)"
    "signals t' = signals t" "signalListId t' = sl_listId (ring_head r)" "r' = ring_advance r"
proof -
  have t': "t' = fst (Task_processSignalList t r)" by (simp add: res)
  have "sl_action (ring_head r) = Insert \<or> sl_action (ring_head r) = Remove"
    using ok by (cases "sl_action (ring_head r)") (auto simp: sl_ok_def Let_def)
  with process_insert [OF inv ok _ t'] process_remove [OF inv ok _ t']
  show "rt_inv t'" "rt_segs t' = sl_apply (signals t) (ring_head r) (rt_segs t)" by blast+
  show "signals t' = signals t" "signalListId t' = sl_listId (ring_head r)" "r' = ring_advance r"
    using res by (auto simp: Task_processSignalList_def Let_def split: sl_action.splits)
qed

section \<open>The two processes together\<close>

record sys =
  nrt :: task
  rt :: task
  ring :: "sl_entry ring"

text \<open>
  The interleaving of the two processes: a call of \<open>subscribe\<close> that does not have to wait, and
  the replay of one entry by the real-time task.
\<close>

inductive sys_step :: "sys \<Rightarrow> sys \<Rightarrow> bool" where
  sub: "i < length (signals (nrt s)) \<Longrightarrow> Task_subscribe i st ins (nrt s) (ring s) = Some (b, t', r') \<Longrightarrow>
     sys_step s (s\<lparr>nrt := t', ring := r'\<rparr>)"
| replay: "ring_rp (ring s) \<noteq> ring_wp (ring s) \<Longrightarrow> Task_processSignalList (rt s) (ring s) = (t', r') \<Longrightarrow>
     sys_step s (s\<lparr>rt := t', ring := r'\<rparr>)"

text \<open>State right after the fork: the task with its registered signals in both processes.\<close>

definition empty_ring :: "nat \<Rightarrow> sl_entry ring" where
  "empty_ring n = \<lparr>slots = replicate (2 * n) \<lparr>sl_action = NoAction, sl_listId = 0, sl_position = 0, sl_signal = 0\<rparr>,
     ring_rp = 0, ring_wp = 0\<rparr>"

definition sys_start :: "task \<Rightarrow> sys" where
  "sys_start t = \<lparr>nrt = Task_nrt_init t, rt = Task_rt_init t, ring = empty_ring (length (signals t))\<rparr>"

text \<open>Tasks made by registering signals.\<close>

inductive registered :: "task \<Rightarrow> bool" where
  new: "registered Task_new"
| add: "registered t \<Longrightarrow> registered (Task_addSignal dec path dt addr n dim t)"

inductive reachable :: "sys \<Rightarrow> bool" where
  start: "registered t \<Longrightarrow> signals t \<noteq> [] \<Longrightarrow> reachable (sys_start t)"
| step: "reachable s \<Longrightarrow> sys_step s s' \<Longrightarrow> reachable s'"

inductive_cases sys_stepE: "sys_step s s'"

definition list_ids_ok :: "u32 \<Rightarrow> u32 \<Rightarrow> sl_entry list \<Rightarrow> bool" where
  "list_ids_ok idn idr es \<longleftrightarrow> map sl_listId es = map (\<lambda>k. idr + of_nat (Suc k)) [0..<length es] \<and>
     idn = idr + of_nat (length es)"

definition sys_inv :: "sys \<Rightarrow> bool" where
  "sys_inv s \<longleftrightarrow>
     nrt_inv (nrt s) \<and> rt_inv (rt s) \<and> ring_inv (ring s) \<and> signals (rt s) = signals (nrt s) \<and>
     in_step (sl_ok (signals (nrt s))) (sl_apply (signals (nrt s))) (pending (ring s))
       (nrt_segs (nrt s)) (rt_segs (rt s)) \<and>
     list_ids_ok (signalListId (nrt s)) (signalListId (rt s)) (pending (ring s)) \<and>
     sl_listId (slots (ring s) ! ring_wp (ring s)) = signalListId (nrt s)"

interpretation slog: command_log ring_inv ring_full ring_put ring_head ring_advance
    "pending :: sl_entry ring \<Rightarrow> sl_entry list" "sl_ok sigs" "sl_apply sigs"
  for sigs
  by unfold_locales

lemma registered_facts:
  "registered t \<Longrightarrow> length (subs t) = length (signals t) \<and> signalTypeCount t = class_cap (signals t) \<and>
     (\<forall>j<length (signals t). sig_index (signals t ! j) = j \<and> sessions (subs t ! j) = {}) \<and> signalListId t = 0"
proof (induction rule: registered.induct)
  case new
  show ?case by (auto simp: Task_new_def class_cap_def)
next
  case (add t dec path dt addr n dim)
  then show ?case
    by (auto simp: Task_addSignal_def Let_def nth_append Signal_new_def less_Suc_eq fun_eq_iff)
qed

lemma empty_ring_inv: "0 < n \<Longrightarrow> ring_inv (empty_ring n) \<and> pending (empty_ring n) = []"
  by (simp add: empty_ring_def ring_inv_def pending_def ring_count_def)

lemma nrt_inv_start: "registered t \<Longrightarrow> nrt_inv (Task_nrt_init t) \<and> nrt_segs (Task_nrt_init t) = (\<lambda>_. [])"
  using registered_facts [of t]
  by (simp add: nrt_inv_def Task_nrt_init_def nrt_segs_def [abs_def] segs_ok_def)

lemma rt_inv_start:
  assumes "registered t"
  shows "rt_inv (Task_rt_init t)" and "rt_segs (Task_rt_init t) = (\<lambda>_. [])"
proof -
  show "rt_segs (Task_rt_init t) = (\<lambda>_. [])" by (simp add: Task_rt_init_def rt_segs_def [abs_def])
  then show "rt_inv (Task_rt_init t)"
    using registered_facts [OF assms] seg_base_bound [of _ "signals t" 1]
    by (fastforce simp: rt_inv_def Task_rt_init_def segs_ok_def)
qed

lemma sys_inv_start: "registered t \<Longrightarrow> signals t \<noteq> [] \<Longrightarrow> sys_inv (sys_start t)"
  using nrt_inv_start [of t] rt_inv_start [of t] empty_ring_inv [of "length (signals t)"] registered_facts [of t]
  by (simp add: sys_inv_def sys_start_def in_step_def list_ids_ok_def)
    (simp add: Task_nrt_init_def Task_rt_init_def empty_ring_def)

lemma sys_inv_sub:
  assumes inv: "sys_inv s" and i: "i < length (signals (nrt s))"
    and res: "Task_subscribe i st ins (nrt s) (ring s) = Some (b, t', r')"
  shows "sys_inv (s\<lparr>nrt := t', ring := r'\<rparr>)"
proof -
  from inv have E: "sub_effect (nrt s) (ring s) b t' r'"
    using subscribe_effect [OF _ i _ res] by (simp add: sys_inv_def)
  show ?thesis
  proof (cases b)
    case True
    with E inv show ?thesis by (simp add: sys_inv_def sub_effect_def)
  next
    case False
    with E obtain e where e: "pending r' = pending (ring s) @ [e]" "sl_ok (signals (nrt s)) e (nrt_segs (nrt s))"
      "nrt_segs t' = sl_apply (signals (nrt s)) e (nrt_segs (nrt s))" "sl_listId e = signalListId t'"
      "signalListId t' = signalListId (nrt s) + 1" "slots r' ! ring_wp r' = e" "signals t' = signals (nrt s)"
      by (auto simp: sub_effect_def)
    have "list_ids_ok (signalListId t') (signalListId (rt s)) (pending r')"
      using inv e by (simp add: sys_inv_def list_ids_ok_def add.assoc)
    with E inv e False show ?thesis by (simp add: sys_inv_def sub_effect_def in_step_def)
  qed
qed

lemma sys_inv_replay:
  assumes inv: "sys_inv s" and ne: "ring_rp (ring s) \<noteq> ring_wp (ring s)"
    and res: "Task_processSignalList (rt s) (ring s) = (t', r')"
  shows "sys_inv (s\<lparr>rt := t', ring := r'\<rparr>)"
proof -
  from inv have I: "rt_inv (rt s)" "ring_inv (ring s)" "signals (rt s) = signals (nrt s)"
    "in_step (sl_ok (signals (nrt s))) (sl_apply (signals (nrt s))) (pending (ring s))
       (nrt_segs (nrt s)) (rt_segs (rt s))"
    by (simp_all add: sys_inv_def)
  have pne: "pending (ring s) \<noteq> []" using ne I(2) by (simp add: ring_empty_iff)
  note split = pending_advance [OF I(2) pne]
  note step = slog.reader_step [OF I(2) pne I(4)]
  note P = process_effect [OF I(1) _ res, unfolded I(3), OF step(1)]
  have "list_ids_ok (signalListId (nrt s)) (signalListId t') (pending r')"
    using inv by (simp add: sys_inv_def list_ids_ok_def split P upt_conv_Cons map_Suc_upt [symmetric] o_def
        add.assoc del: upt_Suc)
  moreover have "slots r' ! ring_wp r' = slots (ring s) ! ring_wp (ring s)"
    by (simp add: P ring_advance_def)
  ultimately show ?thesis
    using inv step(2) P ring_advance_inv [OF I(2)] by (simp add: sys_inv_def)
qed

lemma reachable_inv: "reachable s \<Longrightarrow> sys_inv s"
proof (induction rule: reachable.induct)
  case (start t)
  then show ?case by (rule sys_inv_start)
next
  case (step s s')
  then show ?case by (auto elim!: sys_stepE intro: sys_inv_sub sys_inv_replay)
qed

section \<open>Walking the copy list\<close>

lemma cl_walk_prefix:
  assumes "n < length xs" and "ce_src (xs ! n) = 0" and "\<And>k. k < n \<Longrightarrow> ce_src (xs ! k) \<noteq> 0"
  shows "cl_walk xs = Some (take n xs)"
  using assms
proof (induction xs arbitrary: n)
  case (Cons e es)
  show ?case
  proof (cases n)
    case 0
    with Cons.prems show ?thesis by simp
  next
    case (Suc m)
    have "ce_src e \<noteq> 0" using Cons.prems(3) [of 0] Suc by simp
    moreover have "cl_walk es = Some (take m es)"
    proof (rule Cons.IH)
      show "m < length es" "ce_src (es ! m) = 0" using Cons.prems(1,2) Suc by simp_all
      show "ce_src (es ! k) \<noteq> 0" if "k < m" for k using Cons.prems(3) [of "Suc k"] Suc that by simp
    qed
    ultimately show ?thesis by (simp add: Suc)
  qed
qed simp

text \<open>
  With non-null signal addresses the loop over a segment visits exactly the signals of the
  transfer list, in its order, and stops inside the allocation.
\<close>

lemma cl_segment_rt:
  assumes inv: "rt_inv t" and w: "w < 4" and addr: "\<forall>s\<in>set (signals t). sig_addr s \<noteq> 0"
  shows "cl_segment t w =
    Some (map (\<lambda>j. \<lparr>ce_signal = j, ce_src = sig_addr (signals t ! j), ce_len = sig_memSize (signals t ! j)\<rparr>)
      (rt_segs t w))"
proof -
  note D = rt_invD [OF inv]
  let ?c = "signalTypeCount t w" and ?xs = "drop (copyBase t w) (copyList t)"
  have cap: "?c \<le> class_cap (signals t) w" by (rule D(3))
  have bnd: "copyBase t w + ?c < length (copyList t)" by (rule rt_cell_bound [OF inv w cap])
  have entry: "copyList t ! (copyBase t w + k) =
      (let j = rt_segs t w ! k in \<lparr>ce_signal = j, ce_src = sig_addr (signals t ! j), ce_len = sig_memSize (signals t ! j)\<rparr>)"
    if "k < ?c" for k
    using D(5,6) [OF w that] that bnd by (simp add: rt_segs_def nth_slice Let_def)
  have "rt_segs t w ! k < length (signals t)" if "k < ?c" for k
  proof -
    have "rt_segs t w ! k \<in> set (rt_segs t w)" using that by (simp add: rt_segs_length [OF inv])
    with D(4) show ?thesis unfolding segs_ok_def by blast
  qed
  then have "ce_src (?xs ! k) \<noteq> 0" if "k < ?c" for k
    using entry [OF that] that addr bnd by (simp add: Let_def)
  moreover have "ce_src (?xs ! ?c) = 0" using D(7) [OF w order.refl cap] bnd by simp
  ultimately have "cl_segment t w = Some (take ?c ?xs)"
    unfolding cl_segment_def using bnd by (intro cl_walk_prefix) auto
  also have "take ?c ?xs = map (\<lambda>j. \<lparr>ce_signal = j, ce_src = sig_addr (signals t ! j),
      ce_len = sig_memSize (signals t ! j)\<rparr>) (rt_segs t w)"
    using entry bnd by (intro nth_equalityI) (simp_all add: rt_segs_length [OF inv] Let_def)
  finally show ?thesis .
qed

section \<open>Properties\<close>

lemma sys_inv_caught_up:
  assumes "sys_inv s" and "ring_rp (ring s) = ring_wp (ring s)"
  shows "pending (ring s) = []" and "rt_segs (rt s) = nrt_segs (nrt s)"
    and "signalListId (rt s) = signalListId (nrt s)"
proof -
  show "pending (ring s) = []" using assms by (simp add: sys_inv_def ring_empty_iff)
  with assms(1) show "rt_segs (rt s) = nrt_segs (nrt s)" "signalListId (rt s) = signalListId (nrt s)"
    by (simp_all add: sys_inv_def in_step_def list_ids_ok_def)
qed

text \<open>
  Property C1 (rt_mirrors_nrt): in every reachable state in which the ring is empty the real-time
  process transfers, class by class and in the same order, exactly the signals of the
  non-real-time list, and both processes agree on the list id.
\<close>

theorem rt_mirrors_nrt:
  assumes "reachable s" and "ring_rp (ring s) = ring_wp (ring s)"
  shows "rt_segs (rt s) = nrt_segs (nrt s) \<and> signalListId (rt s) = signalListId (nrt s)"
  using sys_inv_caught_up(2,3) [OF reachable_inv [OF assms(1)] assms(2)] by blast

lemma drain_step:
  assumes "sys_inv (s\<lparr>rt := t, ring := r\<rparr>)" and "ring_rp r \<noteq> ring_wp r"
    and "Task_processSignalList t r = (t', r')"
  shows "sys_inv (s\<lparr>rt := t', ring := r'\<rparr>)" and "ring_count r' < ring_count r"
proof -
  show inv': "sys_inv (s\<lparr>rt := t', ring := r'\<rparr>)"
    using sys_inv_replay [OF assms(1)] assms(2,3) by simp
  have r: "ring_inv r" using assms(1) by (simp add: sys_inv_def)
  moreover have "r' = ring_advance r"
    using assms(3) by (auto simp: Task_processSignalList_def Let_def split: sl_action.splits)
  ultimately show "ring_count r' < ring_count r"
    using ring_advance_count [of r] assms(2) by (simp add: ring_empty_iff)
qed

lemma processSignalList_seqNo [simp]: "seqNo (fst (Task_processSignalList t r)) = seqNo t"
  by (simp add: Task_processSignalList_def Let_def split: sl_action.split)

lemma drain_result:
  assumes "sys_inv s"
  shows "\<exists>t' r'. Task_drain (rt s) (ring s) = Some (t', r') \<and> sys_inv (s\<lparr>rt := t', ring := r'\<rparr>) \<and>
     ring_rp r' = ring_wp r' \<and> seqNo t' = seqNo (rt s)"
proof -
  let ?P = "\<lambda>(t, r). sys_inv (s\<lparr>rt := t, ring := r\<rparr>) \<and> seqNo t = seqNo (rt s)"
  let ?b = "\<lambda>(t :: task, r :: sl_entry ring). ring_rp r \<noteq> ring_wp r"
  let ?c = "\<lambda>(t :: task, r). Task_processSignalList t r"
  have P0: "?P (rt s, ring s)" using assms by simp
  have step: "?P (?c x) \<and> ring_count (snd (?c x)) < ring_count (snd x)" if "?P x" "?b x" for x
    using drain_step [where s = s and t = "fst x" and r = "snd x", OF _ _ prod.collapse [symmetric]] that
    by (simp add: case_prod_beta)
  then obtain x where x: "while_option ?b ?c (rt s, ring s) = Some x"
    using measure_while_option_Some [of ?P ?b ?c "\<lambda>x. ring_count (snd x)"] P0 by blast
  moreover have "?P x" by (rule while_option_rule [where P = ?P, OF _ x P0]) (rule conjunct1 [OF step])
  moreover have "\<not> ?b x" using while_option_stop [OF x] by simp
  ultimately show ?thesis by (cases x) (simp add: Task_drain_def)
qed

text \<open>
  Property C2 (drain_catches_up): from every reachable state the loop of \<open>rt_update\<close> over the ring
  ends, and afterwards the real-time transfer list is the one of the non-real-time process.
\<close>

theorem drain_catches_up:
  assumes "reachable s"
  shows "\<exists>t' r'. Task_drain (rt s) (ring s) = Some (t', r') \<and> pending r' = [] \<and>
     rt_segs t' = nrt_segs (nrt s) \<and> signalListId t' = signalListId (nrt s)"
proof -
  from drain_result [OF reachable_inv [OF assms]] obtain t' r' where
    "Task_drain (rt s) (ring s) = Some (t', r')" "sys_inv (s\<lparr>rt := t', ring := r'\<rparr>)" "ring_rp r' = ring_wp r'"
    by blast
  with sys_inv_caught_up [of "s\<lparr>rt := t', ring := r'\<rparr>"] show ?thesis by simp
qed

text \<open>
  Property C3 (subscribed_iff_listed): in every reachable state a signal has subscribers exactly
  when it is on the non-real-time transfer list of its class, where it stands exactly once and at
  its recorded position.
\<close>

theorem subscribed_iff_listed:
  assumes "reachable s" and "i < length (signals (nrt s))" and "w = sig_class (signals (nrt s) ! i)"
  shows "(sessions (subs (nrt s) ! i) \<noteq> {}) = (i \<in> set (nrt_segs (nrt s) w)) \<and>
    distinct (nrt_segs (nrt s) w) \<and>
    (sessions (subs (nrt s) ! i) \<noteq> {} \<longrightarrow> nrt_segs (nrt s) w ! copyListPos (subs (nrt s) ! i) = i)"
proof -
  from reachable_inv [OF assms(1)] have "nrt_inv (nrt s)" by (simp add: sys_inv_def)
  note D = nrt_invD [OF this]
  have "distinct (nrt_segs (nrt s) w)" using D(5) by (simp only: segs_ok_def)
  with D(7,9) [OF assms(2)] show ?thesis unfolding assms(3) by blast
qed

lemma subscribe_in_bounds:
  assumes inv: "nrt_inv t" and i: "i < length (signals t)" and nf: "\<not> ring_full r"
  shows "Task_subscribe_checked i st ins t r = Task_subscribe i st ins t r"
proof -
  let ?w = "sig_class (signals t ! i)" and ?sb = "subs t ! i"
  note D = nrt_invD [OF inv]
  have li: "i < length (subs t)" using i D(1) by simp
  have cell: "signalCopyBase t ?w + k < length (signalCopyList t)" if "k < class_cap (signals t) ?w" for k
    by (rule nrt_segs_cell_bound [OF inv _ that]) simp
  consider (new) "ins" "sessions ?sb = {}" | (last) "\<not> ins" "sessions ?sb \<noteq> {}" "sessions ?sb - {st} = {}"
    | (same) "ins \<and> sessions ?sb \<noteq> {} \<or> \<not> ins \<and> (sessions ?sb = {} \<or> sessions ?sb - {st} \<noteq> {})" by blast
  then show ?thesis
  proof cases
    case new
    have "i \<notin> set (nrt_segs t ?w)" using D(7) [OF i] new by simp
    then have "signalTypeCount t ?w < class_cap (signals t) ?w"
      using segs_ok_insert_length [OF D(5) i refl] by (simp add: nrt_segs_length [OF inv])
    with new i li cell nf show ?thesis
      by (simp add: Task_subscribe_checked_def Task_subscribe_def checked_defs Let_def)
  next
    case last
    have lt: "copyListPos ?sb < signalTypeCount t ?w" by (rule D(8) [OF i last(2)])
    then obtain k where k: "signalTypeCount t ?w = Suc k" by (cases "signalTypeCount t ?w") auto
    let ?cs = "signalCopyList t ! (signalCopyBase t ?w + k)"
    have cap: "copyListPos ?sb < class_cap (signals t) ?w" "k < class_cap (signals t) ?w" using D(4) [of ?w] lt k by simp_all
    have "?cs \<in> set (nrt_segs t ?w)"
    proof -
      have "?cs = nrt_segs t ?w ! k"
        using cell [OF cap(2)] k by (simp add: nrt_segs_def nth_slice)
      moreover have "k < length (nrt_segs t ?w)" using k by (simp add: nrt_segs_length [OF inv])
      ultimately show ?thesis by simp
    qed
    then have cs: "?cs < length (signals t)" using D(5) by (simp add: segs_ok_def)
    with last i li cell cap k nf D(1,6) show ?thesis
      by (simp add: Task_subscribe_checked_def Task_subscribe_def checked_defs Let_def)
  next
    case same
    with i li nf show ?thesis
      by (auto simp: Task_subscribe_checked_def Task_subscribe_def checked_defs Let_def)
  qed
qed

lemma process_in_bounds:
  assumes inv: "rt_inv t" and ri: "ring_inv r" and ok: "sl_ok (signals t) (ring_head r) (rt_segs t)"
  shows "Task_processSignalList_checked t r = Some (Task_processSignalList t r)"
proof -
  let ?sp = "ring_head r"
  let ?sg = "signals t ! sl_signal ?sp"
  let ?w = "sig_class ?sg"
  note D = rt_invD [OF inv]
  have slot: "ring_next r (ring_rp r) < length (slots r)" using ri by (auto simp: ring_inv_def ring_next_def)
  have sg: "sl_signal ?sp < length (signals t)" using ok by (simp add: sl_ok_def)
  have cell: "copyBase t ?w + k < length (copyList t)" if "k < class_cap (signals t) ?w" for k
    by (rule rt_cell_bound [OF inv]) (use that in simp_all)
  note unf = Task_processSignalList_checked_def Task_processSignalList_def checked_defs ring_head_def [symmetric] Let_def
  show ?thesis
  proof (cases "sl_action ?sp")
    case Insert
    then have "sl_signal ?sp \<notin> set (rt_segs t ?w)" using ok by (simp add: sl_ok_def Let_def)
    then have "signalTypeCount t ?w < class_cap (signals t) ?w"
      using segs_ok_insert_length [OF D(4) sg refl] by (simp add: rt_segs_length [OF inv])
    with Insert slot sg cell show ?thesis by (simp add: unf)
  next
    case Remove
    then have p: "sl_position ?sp < length (rt_segs t ?w)" "rt_segs t ?w ! sl_position ?sp = sl_signal ?sp"
      using ok by (simp_all add: sl_ok_def Let_def)
    then have cnt: "sl_position ?sp < signalTypeCount t ?w" by (simp add: rt_segs_length [OF inv])
    then obtain k where k: "signalTypeCount t ?w = Suc k" by (cases "signalTypeCount t ?w") auto
    have cap: "sl_position ?sp < class_cap (signals t) ?w" "k < class_cap (signals t) ?w" using D(3) [of ?w] cnt k by simp_all
    have "sl_signal ?sp \<in> set (rt_segs t ?w)" using p nth_mem by metis
    then have "sig_memSize ?sg \<le> sum_list (map (\<lambda>j. sig_memSize (signals t ! j)) (rt_segs t ?w))"
      by (intro member_le_sum_list) auto
    also have "\<dots> \<le> signalMemSize t"
      unfolding D(8) by (rule member_le_sum) simp_all
    finally have mem: "sig_memSize ?sg \<le> signalMemSize t" .
    with Remove slot sg cell cap k show ?thesis by (simp add: unf)
  next
    case NoAction
    then show ?thesis using ok by (simp add: sl_ok_def Let_def)
  qed
qed

text \<open>
  Property C4 (transfer_arrays_in_bounds): in every reachable state every access of \<open>subscribe\<close>, inserting
  or removing, and of the replay of a pending command, to the copy lists, the signals, the positions and the ring lies inside the array and, in the copy lists,
  inside the segment of the class, and no counter falls below zero: the operations with all accesses checked never fail and do the same.
\<close>

theorem transfer_arrays_in_bounds:
  assumes "reachable s"
  shows "(i < length (signals (nrt s)) \<and> \<not> ring_full (ring s) \<longrightarrow>
      Task_subscribe_checked i st ins (nrt s) (ring s) = Task_subscribe i st ins (nrt s) (ring s) \<and>
      Task_subscribe i st ins (nrt s) (ring s) \<noteq> None) \<and>
    (pending (ring s) \<noteq> [] \<longrightarrow>
      Task_processSignalList_checked (rt s) (ring s) = Some (Task_processSignalList (rt s) (ring s)))"
proof -
  from reachable_inv [OF assms(1)] have inv: "sys_inv s" .
  then have N: "nrt_inv (nrt s)" and R: "rt_inv (rt s)" and sig: "signals (rt s) = signals (nrt s)"
    and ri: "ring_inv (ring s)"
    by (simp_all add: sys_inv_def)
  have "sl_ok (signals (rt s)) (ring_head (ring s)) (rt_segs (rt s))" if "pending (ring s) \<noteq> []"
    using inv unfolding sig by (intro slog.reader_step(1) [OF ri that, of _ "nrt_segs (nrt s)"]) (simp add: sys_inv_def)
  moreover have "Task_subscribe i st ins (nrt s) (ring s) \<noteq> None" if "\<not> ring_full (ring s)"
    using that by (auto simp: Task_subscribe_def Let_def)
  ultimately show ?thesis using subscribe_in_bounds [OF N] process_in_bounds [OF R ri] by blast
qed

text \<open>
  Property C5 (writer_unblocked_by_replay): a writer that finds the ring full is let in after a
  single replay step of the real-time task, and its call then completes.
\<close>

theorem writer_unblocked_by_replay:
  assumes "reachable s" and "ring_full (ring s)"
  shows "Task_subscribe i st ins (nrt s) (ring s) = None \<and>
    (\<exists>t' r'. Task_processSignalList (rt s) (ring s) = (t', r') \<and>
       (\<exists>res. Task_subscribe i st ins (nrt s) r' = Some res))"
proof -
  from reachable_inv [OF assms(1)] have ri: "ring_inv (ring s)" by (simp add: sys_inv_def)
  have "pending (ring s) \<noteq> []"
    using assms(2) ring_full_iff [OF ri] ri by (auto simp: pending_def ring_inv_def)
  then have "\<not> ring_full (ring_advance (ring s))" by (rule sring.advance_frees [OF ri])
  moreover have "snd (Task_processSignalList (rt s) (ring s)) = ring_advance (ring s)"
    by (simp add: Task_processSignalList_def Let_def)
  ultimately show ?thesis
    using assms(2) by (cases "Task_processSignalList (rt s) (ring s)") (auto simp: Task_subscribe_def Let_def)
qed

section \<open>A concrete system\<close>

text \<open>
  Two signals, a scalar double and a vector of three 16 bit values; session 7 subscribes to the
  vector, the real-time task replays the command. \<open>one_sys\<close> has one signal, so that its ring is
  full after one command.
\<close>

definition ex_task :: task where
  "ex_task = Task_addSignal 1 ''/b'' (PrimaryType C_uint16) 8192 3 None
     (Task_addSignal 1 ''/a'' (PrimaryType C_double) 4096 1 None Task_new)"

definition sub_sys :: "nat \<Rightarrow> nat \<Rightarrow> sys \<Rightarrow> sys" where
  "sub_sys i st s = (case Task_subscribe i st True (nrt s) (ring s) of
     None \<Rightarrow> s | Some (b, t, r) \<Rightarrow> s\<lparr>nrt := t, ring := r\<rparr>)"

definition replay_sys :: "sys \<Rightarrow> sys" where
  "replay_sys s = (case Task_processSignalList (rt s) (ring s) of (t, r) \<Rightarrow> s\<lparr>rt := t, ring := r\<rparr>)"

definition ex_sys1 :: sys where
  "ex_sys1 = sub_sys 1 7 (sys_start ex_task)"

definition ex_sys2 :: sys where
  "ex_sys2 = replay_sys ex_sys1"

definition one_sys :: sys where
  "one_sys = sub_sys 0 7 (sys_start (Task_addSignal 1 ''/a'' (PrimaryType C_double) 4096 1 None Task_new))"

lemma seg_base_numeral: "seg_base c e (numeral n) = seg_base c e (pred_numeral n) + c (pred_numeral n) + e"
  by (simp add: numeral_eq_Suc)

lemmas ex_eval = sys_start_def ex_task_def Task_addSignal_def Task_new_def Signal_new_def mk_dims_def
  sig_class_def dataTypeIndex_def TypeNum_align_def sig_memSize_def nelem_def Task_nrt_init_def
  Task_rt_init_def empty_ring_def seg_base_numeral ex_sys1_def ex_sys2_def one_sys_def sub_sys_def
  replay_sys_def ring_defs Task_subscribe_def Task_publish_def Task_processSignalList_def
  nrt_segs_def rt_segs_def slice_def replicate_numeral_unfold pending_def

lemma sub_sys_step:
  "i < length (signals (nrt s)) \<Longrightarrow> \<not> ring_full (ring s) \<Longrightarrow> sys_step s (sub_sys i st s)"
  by (cases "Task_subscribe i st True (nrt s) (ring s)")
    (auto simp: sub_sys_def intro: sys_step.sub, simp add: Task_subscribe_def Let_def split: if_splits)

lemma replay_sys_step: "ring_rp (ring s) \<noteq> ring_wp (ring s) \<Longrightarrow> sys_step s (replay_sys s)"
  by (cases "Task_processSignalList (rt s) (ring s)") (auto simp: replay_sys_def intro: sys_step.replay)

lemma ex_sys1_reachable: "reachable ex_sys1"
  unfolding ex_sys1_def
proof (rule reachable.step [OF reachable.start sub_sys_step])
  show "registered ex_task" unfolding ex_task_def by (intro registered.intros)
qed (simp_all add: ex_eval)

lemma ex_sys2_reachable: "reachable ex_sys2"
  unfolding ex_sys2_def by (rule reachable.step [OF ex_sys1_reachable replay_sys_step]) (simp add: ex_eval)

lemma one_sys_reachable: "reachable one_sys"
  unfolding one_sys_def
  by (rule reachable.step [OF reachable.start sub_sys_step])
    (intro registered.intros, simp_all add: ex_eval)

theorem rt_mirrors_nrt_witness:
  "rt_segs (rt ex_sys2) = nrt_segs (nrt ex_sys2) \<and> signalListId (rt ex_sys2) = 1 \<and> rt_segs (rt ex_sys2) 2 = [1]"
proof -
  have "ring_rp (ring ex_sys2) = ring_wp (ring ex_sys2)" by (simp add: ex_eval)
  from rt_mirrors_nrt [OF ex_sys2_reachable this] show ?thesis by (simp add: ex_eval)
qed

theorem drain_catches_up_witness:
  "pending (ring ex_sys1) \<noteq> [] \<and>
   (\<exists>t' r'. Task_drain (rt ex_sys1) (ring ex_sys1) = Some (t', r') \<and> rt_segs t' = nrt_segs (nrt ex_sys1))"
  using drain_catches_up [OF ex_sys1_reachable] by (auto simp: ex_eval)

theorem subscribed_iff_listed_witness:
  "sessions (subs (nrt ex_sys2) ! 1) = {7} \<and> 1 \<in> set (nrt_segs (nrt ex_sys2) 2)"
proof -
  have "sessions (subs (nrt ex_sys2) ! 1) = {7}" by (simp add: ex_eval)
  moreover have "sig_class (signals (nrt ex_sys2) ! 1) = 2" "1 < length (signals (nrt ex_sys2))"
    by (simp_all add: ex_eval)
  ultimately show ?thesis using subscribed_iff_listed [OF ex_sys2_reachable, of 1 2] by simp
qed

theorem transfer_arrays_in_bounds_witness:
  "pending (ring ex_sys1) \<noteq> [] \<and> \<not> ring_full (ring ex_sys2) \<and>
   Task_processSignalList_checked (rt ex_sys1) (ring ex_sys1) = Some (Task_processSignalList (rt ex_sys1) (ring ex_sys1)) \<and>
   (\<exists>t r. Task_subscribe_checked 1 7 False (nrt ex_sys2) (ring ex_sys2) = Some (False, t, r))"
proof -
  have "pending (ring ex_sys1) \<noteq> []" "\<not> ring_full (ring ex_sys2)" "1 < length (signals (nrt ex_sys2))"
    "sessions (subs (nrt ex_sys2) ! 1) = {7}" by (simp_all add: ex_eval)
  with transfer_arrays_in_bounds [OF ex_sys1_reachable] transfer_arrays_in_bounds [OF ex_sys2_reachable, of 1 7 False]
  show ?thesis by (auto simp: Task_subscribe_def Let_def)
qed

theorem writer_unblocked_by_replay_witness:
  "Task_subscribe 0 9 False (nrt one_sys) (ring one_sys) = None \<and>
   (\<exists>t' r'. Task_processSignalList (rt one_sys) (ring one_sys) = (t', r') \<and>
       (\<exists>res. Task_subscribe 0 9 False (nrt one_sys) r' = Some res))"
proof -
  have "ring_full (ring one_sys)" by (simp add: ex_eval)
  from writer_unblocked_by_replay [OF one_sys_reachable this] show ?thesis .
qed

end
