(* ===== verification/Pdo_Stream.thy ===== *)
theory Pdo_Stream
  imports Shm_Task
begin

text \<open>
  The second half of \<open>lib/Task.cpp\<close>: the process data objects (\<open>struct Pdo\<close> of
  \<open>lib/ShmemDataStructures.h\<close>) that the real-time task writes into its part of the shared
  memory, one after the other, and links into a list. The memory is a partial map from addresses to
  the Pdos that are intact: writing a Pdo destroys every Pdo whose bytes it overlaps. The layout is
  the one of LP64 platforms: the header takes 72 bytes, the structure 80.
\<close>

section \<open>Process data objects\<close>

record task_stats =
  exec_time :: u64
  cycle_time :: u64
  overrun :: u32

text \<open>
  The two kinds of a complete Pdo. A signal list carries the indices of the transferred signals
  (\<open>signalIdx\<close>); the members \<open>seqNo\<close>, \<open>time\<close> and \<open>taskStatistics\<close> are only
  written for data. The statistics hold the bit patterns of the floating point numbers.
\<close>

datatype pdo_body =
    SignalListPdo (pd_idx: "nat list")
  | DataPdo (pd_seqNo: u32) (pd_time: "int \<times> int") (pd_stats: task_stats) (pd_data: "u8 list")

record pdo =
  pd_listId :: u32
  pd_count :: nat
  pd_next :: nat
  pd_body :: pdo_body

type_synonym pmem = "nat \<rightharpoonup> pdo"

definition pdo_header :: nat where
  "pdo_header = 72"

definition sizeof_Pdo :: nat where
  "sizeof_Pdo = 80"

definition sizeof_size_t :: nat where
  "sizeof_size_t = 8"

fun body_bytes :: "pdo_body \<Rightarrow> nat" where
  "body_bytes (SignalListPdo idx) = sizeof_size_t * length idx"
| "body_bytes (DataPdo _ _ _ d) = length d"

definition pdo_end :: "nat \<Rightarrow> pdo \<Rightarrow> nat" where
  "pdo_end a p = a + pdo_header + body_bytes (pd_body p)"

text \<open>Bytes \<open>[a, e)\<close> are overwritten: the Pdos that overlap the range are gone.\<close>

definition clobber :: "nat \<Rightarrow> nat \<Rightarrow> pmem \<Rightarrow> pmem" where
  "clobber a e m = (\<lambda>b. case m b of None \<Rightarrow> None
     | Some p \<Rightarrow> if pdo_end b p \<le> a \<or> e \<le> b then Some p else None)"

definition pdo_put :: "nat \<Rightarrow> pdo \<Rightarrow> pmem \<Rightarrow> pmem" where
  "pdo_put a p m = (clobber a (pdo_end a p) m)(a \<mapsto> p)"

section \<open>The transmit side of a task\<close>

text \<open>
  \<open>nextTxPdo\<close> points to the \<open>next\<close> member of the Pdo written last, \<open>Some\<close> its address;
  before the first one it points to a spare word at the end of the region, \<open>None\<close>.
  \<open>tx_time\<close> is the address of the Pdo that holds the current time (0: none yet).
\<close>

record tx =
  taskStatistics :: task_stats
  txMemBegin :: nat
  txMemEnd :: nat
  txPdo :: nat
  nextTxPdo :: "nat option"
  tx_time :: nat

definition sizeof_SignalList :: nat where
  "sizeof_SignalList = 24"

text \<open>
  \<open>getShmemSpace(T)\<close>; the argument \<open>q\<close> is \<open>(size_t)(T / sampleTime + 0.5)\<close>, the number of
  task cycles in the buffer time.
\<close>

definition Task_getShmemSpace :: "nat \<Rightarrow> 'z task_scheme \<Rightarrow> nat" where
  "Task_getShmemSpace q t =
     (let n = length (signals t); minPdoCount = (if q < 10 then 10 else q) in
      ptr_size + ptr_size + 2 * n * sizeof_SignalList + (sizeof_Pdo + signalMemSize t) * minPdoCount)"

text \<open>\<open>prepare(shmem, shmem_end)\<close>: the ring first, then the Pdos.\<close>

definition Task_prepare :: "nat \<Rightarrow> nat \<Rightarrow> 'z task_scheme \<Rightarrow> sl_entry ring \<times> tx" where
  "Task_prepare shmem shmem_end t =
     (let n = length (signals t);
          signalListRp = ptr_align shmem;
          signalListWp = signalListRp + ptr_size;
          signalList = ptr_align (signalListWp + ptr_size);
          signalListEnd = signalList + 2 * n * sizeof_SignalList;
          begin = ptr_align signalListEnd
      in (empty_ring n,
          \<lparr>taskStatistics = \<lparr>exec_time = 0, cycle_time = 0, overrun = 0\<rparr>, txMemBegin = begin,
           txMemEnd = shmem_end, txPdo = begin, nextTxPdo = None, tx_time = 0\<rparr>))"

definition Task_updateStatistics :: "u64 \<Rightarrow> u64 \<Rightarrow> u32 \<Rightarrow> tx \<Rightarrow> tx" where
  "Task_updateStatistics e c ov x = x\<lparr>taskStatistics := \<lparr>exec_time = e, cycle_time = c, overrun = ov\<rparr>\<rparr>"

text \<open>The entries of the four segments of the copy list, in the order of the nested loops.\<close>

definition copy_entries :: "'z task_scheme \<Rightarrow> copy_entry list option" where
  "copy_entries t = map_option concat (those (map (cl_segment t) [0..<4]))"

text \<open>
  Linking the new Pdo at \<open>a\<close>: \<open>*nextTxPdo = txPdo\<close> and \<open>nextTxPdo = &txPdo->next\<close>. When
  the Pdo that holds the pointer has been overwritten the store hits foreign bytes.
\<close>

definition tx_link :: "nat \<Rightarrow> tx \<Rightarrow> pmem \<Rightarrow> pmem" where
  "tx_link a x m =
     (case nextTxPdo x of
        None \<Rightarrow> let s = ptr_align (txMemEnd x) - 2 * ptr_size in clobber s (s + ptr_size) m
      | Some b \<Rightarrow>
          (case m b of
             Some p \<Rightarrow> m(b \<mapsto> p\<lparr>pd_next := a\<rparr>)
           | None \<Rightarrow> clobber (b + pdo_header - ptr_size) (b + pdo_header) m))"

definition tx_publish :: "nat \<Rightarrow> pdo \<Rightarrow> tx \<Rightarrow> pmem \<Rightarrow> tx \<times> pmem" where
  "tx_publish a p x m =
     (x\<lparr>nextTxPdo := Some a, txPdo := ptr_align (pdo_end a p)\<rparr>, tx_link a x (pdo_put a p m))"

text \<open>Where the next Pdo goes: at the beginning of the region when \<open>k\<close> bytes do not fit any more.\<close>

definition tx_alloc :: "nat \<Rightarrow> tx \<Rightarrow> nat" where
  "tx_alloc k x = (if txPdo x + pdo_header + k \<ge> txMemEnd x then txMemBegin x else txPdo x)"

text \<open>\<open>calculateCopyList\<close>; \<open>None\<close>: a segment without end marker.\<close>

definition Task_calculateCopyList :: "'z task_scheme \<Rightarrow> tx \<Rightarrow> pmem \<Rightarrow> (tx \<times> pmem) option" where
  "Task_calculateCopyList t x m =
     (let n = sum_list (map (signalTypeCount t) [0..<4]);
          a = tx_alloc (sizeof_size_t * n) x
      in map_option (\<lambda>cls. tx_publish a
           \<lparr>pd_listId = signalListId t, pd_count = n, pd_next = 0,
            pd_body = SignalListPdo (map (\<lambda>e. sig_index (signals t ! ce_signal e)) cls)\<rparr> x m)
         (copy_entries t))"

text \<open>
  \<open>copyData(t)\<close>: \<open>src\<close> is the memory of the process, \<open>now\<close> the time stamp (a null
  pointer stores zeroes).
\<close>

definition Task_copyData ::
    "(nat \<Rightarrow> u8) \<Rightarrow> (int \<times> int) option \<Rightarrow> 'z task_scheme \<Rightarrow> tx \<Rightarrow> pmem \<Rightarrow> ('z task_scheme \<times> tx \<times> pmem) option" where
  "Task_copyData src now t x m =
     (let a = tx_alloc (signalMemSize t) x
      in map_option (\<lambda>cls.
           let d = concat (map (\<lambda>e. read_bytes src (ce_src e) (ce_len e)) cls)
           in (t\<lparr>seqNo := seqNo t + 1\<rparr>,
               tx_publish a
                 \<lparr>pd_listId = signalListId t, pd_count = length d, pd_next = 0,
                  pd_body = DataPdo (seqNo t) (case now of None \<Rightarrow> (0, 0) | Some tm \<Rightarrow> tm) (taskStatistics x) d\<rparr>
                 (x\<lparr>tx_time := a\<rparr>) m))
         (copy_entries t))"

definition Task_rt_update ::
    "(nat \<Rightarrow> u8) \<Rightarrow> (int \<times> int) option \<Rightarrow> 'z task_scheme \<Rightarrow> sl_entry ring \<Rightarrow> tx \<Rightarrow> pmem
      \<Rightarrow> ('z task_scheme \<times> sl_entry ring \<times> tx \<times> pmem) option" where
  "Task_rt_update src now t r x m =
     (if ring_rp r \<noteq> ring_wp r then
        (case Task_drain t r of
           None \<Rightarrow> None
         | Some (t1, r1) \<Rightarrow>
             (case Task_calculateCopyList t1 x m of
                None \<Rightarrow> None
              | Some (x1, m1) \<Rightarrow>
                  map_option (\<lambda>(t2, x2, m2). (t2, r1, x2, m2)) (Task_copyData src now t1 x1 m1)))
      else map_option (\<lambda>(t2, x2, m2). (t2, r, x2, m2)) (Task_copyData src now t x m))"

section \<open>Abstraction of the transfer list\<close>

definition rt_list :: "'z task_scheme \<Rightarrow> nat list" where
  "rt_list t = concat (map (rt_segs t) [0..<4])"

definition entry_of :: "'z task_scheme \<Rightarrow> nat \<Rightarrow> copy_entry" where
  "entry_of t j = \<lparr>ce_signal = j, ce_src = sig_addr (signals t ! j), ce_len = sig_memSize (signals t ! j)\<rparr>"

definition list_bytes :: "signal list \<Rightarrow> nat list \<Rightarrow> nat" where
  "list_bytes sigs js = sum_list (map (\<lambda>j. sig_memSize (sigs ! j)) js)"

definition gather :: "(nat \<Rightarrow> u8) \<Rightarrow> signal list \<Rightarrow> nat list \<Rightarrow> u8 list" where
  "gather src sigs js = concat (map (\<lambda>j. read_bytes src (sig_addr (sigs ! j)) (sig_memSize (sigs ! j))) js)"

definition addressed :: "'z task_scheme \<Rightarrow> bool" where
  "addressed t \<longleftrightarrow> (\<forall>s\<in>set (signals t). sig_addr s \<noteq> 0)"

lemma those_map_Some [simp]: "those (map (\<lambda>x. Some (f x)) xs) = Some (map f xs)"
  by (induction xs) simp_all

lemma copy_entries_rt:
  assumes "rt_inv t" and "addressed t"
  shows "copy_entries t = Some (map (entry_of t) (rt_list t))"
proof -
  have "map (cl_segment t) [0..<4] = map (\<lambda>w. Some (map (entry_of t) (rt_segs t w))) [0..<4]"
    using cl_segment_rt [OF assms(1)] assms(2)
    by (intro map_cong) (auto simp: addressed_def entry_of_def [abs_def])
  then have "those (map (cl_segment t) [0..<4]) = Some (map (\<lambda>w. map (entry_of t) (rt_segs t w)) [0..<4])"
    by (simp only: those_map_Some)
  then show ?thesis by (simp add: copy_entries_def rt_list_def map_concat o_def)
qed

lemma upt4: "[0..<4] = [0, 1, 2, 3 :: nat]" and lessThan4: "{..<4} = {0, 1, 2, 3 :: nat}"
  by (auto simp: upt_numeral_unfold)

lemma rt_list_set: "rt_inv t \<Longrightarrow> j \<in> set (rt_list t) \<Longrightarrow> j < length (signals t)"
  using rt_invD(4) [of t] by (auto simp: rt_list_def segs_ok_def)

lemma rt_list_length: "rt_inv t \<Longrightarrow> length (rt_list t) = sum_list (map (signalTypeCount t) [0..<4])"
  by (simp add: rt_list_def length_concat o_def rt_segs_length)

lemma rt_list_bytes: "rt_inv t \<Longrightarrow> list_bytes (signals t) (rt_list t) = signalMemSize t"
  by (simp add: rt_invD(8) list_bytes_def rt_list_def upt4 lessThan4)

lemma rt_list_distinct:
  assumes "rt_inv t"
  shows "distinct (rt_list t)"
proof -
  from rt_invD(4) [OF assms] have D: "distinct (rt_segs t w)"
      "\<And>j. j \<in> set (rt_segs t w) \<Longrightarrow> sig_class (signals t ! j) = w" for w
    by (auto simp: segs_ok_def)
  show ?thesis unfolding rt_list_def upt4 using D by (auto simp: disjoint_iff dest!: D(2))
qed

lemma read_bytes_length [simp]: "length (read_bytes src a n) = n"
  by (simp add: read_bytes_def)

lemma gather_length [simp]: "length (gather src sigs js) = list_bytes sigs js"
  by (simp add: gather_def list_bytes_def length_concat o_def)

section \<open>The list of Pdos\<close>

text \<open>
  Invariant of the transmit side. \<open>W\<close> bounds the payload of every Pdo; \<open>tx_room\<close> says that
  the region holds three Pdos of that size, which keeps the Pdo written last from being overwritten
  by the next one before it is linked.
\<close>

definition tx_room :: "nat \<Rightarrow> tx \<Rightarrow> bool" where
  "tx_room W x \<longleftrightarrow> 0 < txMemBegin x \<and> txMemBegin x + 3 * (pdo_header + W) + ptr_size \<le> txMemEnd x"

definition tx_inv :: "nat \<Rightarrow> tx \<Rightarrow> pmem \<Rightarrow> bool" where
  "tx_inv W x m \<longleftrightarrow>
     (\<forall>a p. m a = Some p \<longrightarrow> txMemBegin x \<le> a \<and> pdo_end a p < txMemEnd x \<and> body_bytes (pd_body p) \<le> W) \<and>
     (\<forall>a p. m a = Some p \<and> pd_next p = 0 \<longrightarrow> nextTxPdo x = Some a) \<and>
     (case nextTxPdo x of
        None \<Rightarrow> m = Map.empty \<and> txPdo x = txMemBegin x
      | Some b \<Rightarrow> (\<exists>p. m b = Some p \<and> pd_next p = 0 \<and> txPdo x = ptr_align (pdo_end b p)))"

lemma tx_inv_tail: "tx_inv W x m \<Longrightarrow> m a = Some p \<Longrightarrow> pd_next p = 0 \<Longrightarrow> nextTxPdo x = Some a"
  unfolding tx_inv_def by blast

lemma tx_inv_range:
  "tx_inv W x m \<Longrightarrow> m a = Some p \<Longrightarrow> txMemBegin x \<le> a \<and> pdo_end a p < txMemEnd x \<and> body_bytes (pd_body p) \<le> W"
  unfolding tx_inv_def by blast

text \<open>\<open>chain m a cs\<close>: from the Pdo at \<open>a\<close> the \<open>next\<close> pointers lead through the Pdos \<open>cs\<close>.\<close>

type_synonym link = "nat \<times> u32 \<times> pdo_body"

fun body_count :: "pdo_body \<Rightarrow> nat" where
  "body_count (SignalListPdo idx) = length idx"
| "body_count (DataPdo _ _ _ d) = length d"

definition holds :: "pmem \<Rightarrow> link \<Rightarrow> bool" where
  "holds m l = (case l of (b, i, bd) \<Rightarrow>
     (case m b of None \<Rightarrow> False
      | Some p \<Rightarrow> pd_listId p = i \<and> pd_body p = bd \<and> pd_count p = body_count bd))"

fun chain :: "pmem \<Rightarrow> nat \<Rightarrow> link list \<Rightarrow> bool" where
  "chain m a [] = (case m a of None \<Rightarrow> False | Some p \<Rightarrow> pd_next p = 0)"
| "chain m a (l # cs) = (fst l \<noteq> 0 \<and> (case m a of None \<Rightarrow> False | Some p \<Rightarrow> pd_next p = fst l) \<and>
     holds m l \<and> chain m (fst l) cs)"

text \<open>The bytes of a Pdo that a reader still needs are not touched by a new Pdo at \<open>[c, e)\<close>.\<close>

definition spares :: "pmem \<Rightarrow> nat \<Rightarrow> nat \<Rightarrow> nat \<Rightarrow> bool" where
  "spares m c e b = (case m b of None \<Rightarrow> False | Some p \<Rightarrow> pdo_end b p \<le> c \<or> e \<le> b)"

lemma clobber_spared: "spares m c e b \<Longrightarrow> clobber c e m b = m b"
  by (auto simp: spares_def clobber_def split: option.splits)

lemma clobber_SomeD: "clobber c e m b = Some p \<Longrightarrow> m b = Some p \<and> (pdo_end b p \<le> c \<or> e \<le> b)"
  by (auto simp: clobber_def split: option.splits if_splits)

lemma spares_neq: "spares m c (c + pdo_header + n) b \<Longrightarrow> b \<noteq> c"
  by (auto simp: spares_def pdo_end_def pdo_header_def split: option.splits)

lemma tx_alloc_bounds:
  assumes "tx_inv W x m" and "tx_room W x" and "k \<le> W"
  shows "txMemBegin x \<le> tx_alloc k x" and "tx_alloc k x + pdo_header + k < txMemEnd x"
    and "nextTxPdo x = Some b \<Longrightarrow> spares m (tx_alloc k x) (tx_alloc k x + pdo_header + k) b"
proof -
  from assms(1) have beg: "txMemBegin x \<le> txPdo x"
  proof (cases "nextTxPdo x")
    case (Some b)
    with assms(1) obtain p where "m b = Some p" "txPdo x = ptr_align (pdo_end b p)"
      by (auto simp: tx_inv_def)
    moreover have "txMemBegin x \<le> b" using assms(1) \<open>m b = Some p\<close> by (simp add: tx_inv_def)
    ultimately show ?thesis using ptr_align_ge [of "pdo_end b p"] by (simp add: pdo_end_def)
  qed (simp add: tx_inv_def)
  then show "txMemBegin x \<le> tx_alloc k x" by (simp add: tx_alloc_def)
  show "tx_alloc k x + pdo_header + k < txMemEnd x"
    using assms(2,3) by (auto simp: tx_alloc_def tx_room_def pdo_header_def)
  show "spares m (tx_alloc k x) (tx_alloc k x + pdo_header + k) b" if "nextTxPdo x = Some b"
  proof -
    from assms(1) that obtain p where p: "m b = Some p" "txPdo x = ptr_align (pdo_end b p)"
      by (auto simp: tx_inv_def)
    with assms(1) have W: "body_bytes (pd_body p) \<le> W" by (auto simp: tx_inv_def)
    show ?thesis
      using W p assms(2,3) ptr_align_ge [of "pdo_end b p"] ptr_align_less [of "pdo_end b p"]
      by (auto simp: spares_def tx_alloc_def tx_room_def pdo_end_def pdo_header_def ptr_size_def)
  qed
qed

text \<open>What \<open>tx_publish\<close> does to the memory when the Pdo is placed by \<open>tx_alloc\<close>.\<close>

lemma tx_publish_mem:
  assumes inv: "tx_inv W x m" and room: "tx_room W x" and k: "body_bytes (pd_body p) = k" "k \<le> W"
    and a: "a = tx_alloc k x" and pub: "tx_publish a p x m = (x', m')"
  shows "m' a = Some p"
    and "\<And>b. spares m a (pdo_end a p) b \<Longrightarrow>
       m' b = (if nextTxPdo x = Some b then map_option (pd_next_update (\<lambda>_. a)) (m b) else m b)"
    and "\<And>b q. m' b = Some q \<Longrightarrow> b = a \<and> q = p \<or> (\<exists>q'. m b = Some q' \<and> pd_body q = pd_body q' \<and>
       pd_next q = (if nextTxPdo x = Some b then a else pd_next q'))"
proof -
  have e: "pdo_end a p = a + pdo_header + k" by (simp add: pdo_end_def k)
  note B = tx_alloc_bounds [OF inv room k(2), folded a]
  have m': "m' = tx_link a x (pdo_put a p m)" using pub by (simp add: tx_publish_def)
  have put: "pdo_put a p m b = m b" if "spares m a (pdo_end a p) b" for b
    using clobber_spared [OF that] spares_neq [of m a k b] that by (simp add: pdo_put_def e)
  have "m' a = Some p \<and> (\<forall>b. spares m a (pdo_end a p) b \<longrightarrow>
      m' b = (if nextTxPdo x = Some b then map_option (pd_next_update (\<lambda>_. a)) (m b) else m b)) \<and>
      (\<forall>b q. m' b = Some q \<longrightarrow> b = a \<and> q = p \<or> (\<exists>q'. m b = Some q' \<and> pd_body q = pd_body q' \<and>
       pd_next q = (if nextTxPdo x = Some b then a else pd_next q')))"
  proof (cases "nextTxPdo x")
    case None
    with inv have m0: "m = Map.empty" "a = txMemBegin x" using a by (auto simp: tx_inv_def tx_alloc_def)
    let ?s = "ptr_align (txMemEnd x) - 2 * ptr_size"
    have "pdo_end a p \<le> ?s"
      using room k(2) ptr_align_ge [of "txMemEnd x"] m0(2)
      unfolding e by (auto simp: tx_room_def pdo_header_def ptr_size_def)
    then have "m' a = Some p" by (simp add: m' tx_link_def None Let_def clobber_def pdo_put_def)
    moreover have "b = a \<and> q = p" if "m' b = Some q" for b q
    proof -
      have "clobber ?s (?s + ptr_size) (pdo_put a p m) b = Some q"
        using that by (simp add: m' tx_link_def None Let_def)
      then have "pdo_put a p m b = Some q" by (blast dest: clobber_SomeD)
      then show ?thesis by (simp add: pdo_put_def m0(1) clobber_def split: if_splits)
    qed
    moreover have "\<not> spares m a (pdo_end a p) b" for b by (simp add: spares_def m0(1))
    ultimately show ?thesis by blast
  next
    case (Some b)
    from inv Some obtain pb where pb: "m b = Some pb" by (auto simp: tx_inv_def)
    have sp: "spares m a (pdo_end a p) b" using B(3) [OF Some] by (simp add: e)
    have neq: "b \<noteq> a" using spares_neq [of m a k b] sp by (simp add: e)
    have m'': "m' = (pdo_put a p m)(b \<mapsto> pb\<lparr>pd_next := a\<rparr>)"
      using put [OF sp] pb by (simp add: m' tx_link_def Some)
    have "m' c = (if nextTxPdo x = Some c then map_option (pd_next_update (\<lambda>_. a)) (m c) else m c)"
      if "spares m a (pdo_end a p) c" for c
      using put [OF that] pb by (auto simp: m'' Some)
    moreover have "c = a \<and> q = p \<or> (\<exists>q'. m c = Some q' \<and> pd_body q = pd_body q' \<and>
        pd_next q = (if nextTxPdo x = Some c then a else pd_next q'))" if "m' c = Some q" for c q
      using that pb by (auto simp: m'' pdo_put_def Some split: if_splits dest: clobber_SomeD)
    ultimately show ?thesis using neq by (auto simp: m'' pdo_put_def)
  qed
  then show "m' a = Some p"
    and "\<And>b. spares m a (pdo_end a p) b \<Longrightarrow>
       m' b = (if nextTxPdo x = Some b then map_option (pd_next_update (\<lambda>_. a)) (m b) else m b)"
    and "\<And>b q. m' b = Some q \<Longrightarrow> b = a \<and> q = p \<or> (\<exists>q'. m b = Some q' \<and> pd_body q = pd_body q' \<and>
       pd_next q = (if nextTxPdo x = Some b then a else pd_next q'))"
    by blast+
qed

lemma tx_publish_inv:
  assumes inv: "tx_inv W x m" and room: "tx_room W x" and k: "body_bytes (pd_body p) = k" "k \<le> W"
    and a: "a = tx_alloc k x" and pub: "tx_publish a p x m = (x', m')" and n: "pd_next p = 0"
  shows "tx_inv W x' m'" and "tx_room W x'" and "nextTxPdo x' = Some a" and "a \<noteq> 0"
    and "txMemBegin x' = txMemBegin x \<and> txMemEnd x' = txMemEnd x"
proof -
  note M = tx_publish_mem [OF inv room k a pub]
  note B = tx_alloc_bounds [OF inv room k(2), folded a]
  have x': "x' = x\<lparr>nextTxPdo := Some a, txPdo := ptr_align (pdo_end a p)\<rparr>" using pub by (simp add: tx_publish_def)
  show "tx_room W x'" using room by (simp add: x' tx_room_def)
  show "nextTxPdo x' = Some a" "txMemBegin x' = txMemBegin x \<and> txMemEnd x' = txMemEnd x" by (simp_all add: x')
  show a0: "a \<noteq> 0" using B(1) room by (simp add: tx_room_def)
  have "txMemBegin x \<le> b \<and> pdo_end b q < txMemEnd x \<and> body_bytes (pd_body q) \<le> W" if "m' b = Some q" for b q
    using M(3) [OF that] inv B(1,2) k unfolding tx_inv_def pdo_end_def by force
  moreover have "\<forall>b q. m' b = Some q \<and> pd_next q = 0 \<longrightarrow> Some a = Some b"
  proof (intro allI impI, elim conjE)
    fix b q
    assume that: "m' b = Some q" "pd_next q = 0"
    show "Some a = Some b"
    proof (rule ccontr)
      assume "Some a \<noteq> Some b"
      with M(3) [OF that(1)] that(2) a0 obtain q' where "m b = Some q'" "nextTxPdo x \<noteq> Some b" "pd_next q' = 0"
        by (auto split: if_splits)
      with tx_inv_tail [OF inv] show False by blast
    qed
  qed
  moreover have "nextTxPdo x' = Some a" "\<exists>p. m' a = Some p \<and> pd_next p = 0 \<and> txPdo x' = ptr_align (pdo_end a p)"
    "txMemBegin x' = txMemBegin x" "txMemEnd x' = txMemEnd x"
    using M(1) n by (simp_all add: x')
  ultimately show "tx_inv W x' m'" unfolding tx_inv_def by simp
qed

lemma chain_tail: "chain m a cs \<Longrightarrow> \<exists>p. m (last (a # map fst cs)) = Some p \<and> pd_next p = 0"
  by (induction cs arbitrary: a) (auto split: option.splits)

text \<open>A new Pdo extends every chain that ends in the Pdo written last and whose Pdos it spares.\<close>

lemma chain_append:
  assumes inv: "tx_inv W x m" and room: "tx_room W x" and k: "body_bytes (pd_body p) = k" "k \<le> W"
    and a: "a = tx_alloc k x" and pub: "tx_publish a p x m = (x', m')"
    and n: "pd_next p = 0" and cnt: "pd_count p = body_count (pd_body p)"
  shows "chain m b cs \<Longrightarrow> nextTxPdo x = Some (last (b # map fst cs)) \<Longrightarrow>
    (\<forall>c\<in>set (b # map fst cs). spares m a (pdo_end a p) c) \<Longrightarrow>
    chain m' b (cs @ [(a, pd_listId p, pd_body p)])"
proof (induction cs arbitrary: b)
  note M = tx_publish_mem [OF inv room k a pub]
  have a0: "a \<noteq> 0" by (rule tx_publish_inv(4) [OF inv room k a pub n])
  {
    case Nil
    then show ?case using M(1) M(2) [of b] a0 n cnt
      by (auto simp: holds_def split: option.splits)
  next
    case (Cons l cs)
    obtain c i bd where l: "l = (c, i, bd)" by (cases l)
    from Cons.prems(1) chain_tail [OF Cons.prems(1)] have "nextTxPdo x \<noteq> Some b"
      unfolding Cons.prems(2) by (auto split: option.splits)
    with M(2) [of b] Cons.prems(3) have "m' b = m b" by simp
    moreover have "holds m' l"
    proof -
      have "m' c = (if nextTxPdo x = Some c then map_option (pd_next_update (\<lambda>_. a)) (m c) else m c)"
        using M(2) [of c] Cons.prems(3) by (simp add: l)
      moreover have "holds m l" using Cons.prems(1) by simp
      ultimately show ?thesis by (auto simp: holds_def l split: option.splits if_splits)
    qed
    moreover have "chain m' c (cs @ [(a, pd_listId p, pd_body p)])"
      by (rule Cons.IH) (use Cons.prems in \<open>simp_all add: l\<close>)
    ultimately show ?case using Cons.prems(1) by (simp add: l)
  }
qed

section \<open>Effect of the real-time operations\<close>

text \<open>
  The body of a Pdo that the task writes: the indices of the transfer list, or the bytes of its
  signals one after the other.
\<close>

definition list_pdo :: "'z task_scheme \<Rightarrow> pdo" where
  "list_pdo t = \<lparr>pd_listId = signalListId t, pd_count = length (rt_list t), pd_next = 0,
     pd_body = SignalListPdo (map (\<lambda>j. sig_index (signals t ! j)) (rt_list t))\<rparr>"

definition data_pdo :: "(nat \<Rightarrow> u8) \<Rightarrow> (int \<times> int) option \<Rightarrow> tx \<Rightarrow> 'z task_scheme \<Rightarrow> pdo" where
  "data_pdo src now x t = \<lparr>pd_listId = signalListId t, pd_count = signalMemSize t, pd_next = 0,
     pd_body = DataPdo (seqNo t) (case now of None \<Rightarrow> (0, 0) | Some tm \<Rightarrow> tm) (taskStatistics x)
       (gather src (signals t) (rt_list t))\<rparr>"

lemma calculateCopyList_eq:
  assumes "rt_inv t" and "addressed t"
  shows "Task_calculateCopyList t x m =
    Some (tx_publish (tx_alloc (body_bytes (pd_body (list_pdo t))) x) (list_pdo t) x m)"
  by (simp add: Task_calculateCopyList_def copy_entries_rt [OF assms] list_pdo_def rt_list_length [OF assms(1)]
      Let_def entry_of_def o_def)

lemma copyData_eq:
  assumes "rt_inv t" and "addressed t"
  shows "Task_copyData src now t x m =
    (let p = data_pdo src now x t; a = tx_alloc (body_bytes (pd_body p)) x
     in Some (t\<lparr>seqNo := seqNo t + 1\<rparr>, tx_publish a p (x\<lparr>tx_time := a\<rparr>) m))"
proof -
  have "concat (map (\<lambda>e. read_bytes src (ce_src e) (ce_len e)) (map (entry_of t) (rt_list t)))
      = gather src (signals t) (rt_list t)"
    by (simp add: gather_def entry_of_def o_def)
  then show ?thesis
    by (simp add: Task_copyData_def copy_entries_rt [OF assms] data_pdo_def rt_list_bytes [OF assms(1)] Let_def)
qed

section \<open>Space\<close>

text \<open>\<open>task_width\<close>: no Pdo of the task has a larger payload.\<close>

definition total_bytes :: "'z task_scheme \<Rightarrow> nat" where
  "total_bytes t = list_bytes (signals t) [0..<length (signals t)]"

definition task_width :: "'z task_scheme \<Rightarrow> nat" where
  "task_width t = max (total_bytes t) (sizeof_size_t * length (signals t))"

lemma list_bytes_subset:
  assumes "distinct js" and "\<And>j. j \<in> set js \<Longrightarrow> j < n"
  shows "list_bytes sigs js \<le> list_bytes sigs [0..<n]" and "length js \<le> n"
proof -
  have "set js \<subseteq> {0..<n}" using assms(2) by auto
  then show "list_bytes sigs js \<le> list_bytes sigs [0..<n]"
    using assms(1) by (simp add: list_bytes_def sum_list_distinct_conv_sum_set sum_mono2)
  from \<open>set js \<subseteq> {0..<n}\<close> have "card (set js) \<le> n" using card_mono [of "{0..<n}" "set js"] by simp
  with assms(1) show "length js \<le> n" by (simp add: distinct_card)
qed

lemma rt_width:
  assumes "rt_inv t"
  shows "body_bytes (pd_body (list_pdo t)) \<le> task_width t"
    and "body_bytes (pd_body (data_pdo src now x t)) \<le> task_width t"
proof -
  note L = list_bytes_subset [OF rt_list_distinct [OF assms] rt_list_set [OF assms]]
  show "body_bytes (pd_body (list_pdo t)) \<le> task_width t"
    using L(2) by (simp add: list_pdo_def task_width_def sizeof_size_t_def)
  show "body_bytes (pd_body (data_pdo src now x t)) \<le> task_width t"
    using L(1) [of "signals t"] by (simp add: data_pdo_def task_width_def total_bytes_def)
qed

lemma registered_bytes: "registered t \<Longrightarrow> signalMemSize t = total_bytes t"
proof (induction rule: registered.induct)
  case new
  show ?case by (simp add: Task_new_def total_bytes_def list_bytes_def)
next
  case (add t dec path dt addr n dim)
  have "list_bytes (signals t @ [s]) [0..<length (signals t)] = list_bytes (signals t) [0..<length (signals t)]" for s
    unfolding list_bytes_def by (intro arg_cong [of _ _ sum_list] map_cong) (auto simp: nth_append)
  with add.IH show ?case
    by (simp add: Task_addSignal_def Let_def total_bytes_def) (simp add: list_bytes_def)
qed

lemma prepare_room:
  assumes "registered t" and "0 < shmem" and "ptr_size dvd shmem"
    and "sizeof_size_t * length (signals t) \<le> 3 * total_bytes t"
    and "x = snd (Task_prepare shmem (shmem + ptr_align (Task_getShmemSpace q t)) t)"
  shows "tx_room (task_width t) x \<and> tx_inv (task_width t) x Map.empty \<and>
    shmem + 2 * ptr_size + 2 * length (signals t) * sizeof_SignalList \<le> txMemBegin x"
proof -
  have beg: "txMemBegin x = shmem + 16 + 48 * length (signals t)"
    using assms(3) by (auto simp: assms(5) Task_prepare_def Let_def ptr_size_def sizeof_SignalList_def ptr_align_id)
  define P where "P = (if q < 10 then 10 else q)"
  have ge: "(80 + total_bytes t) * 10 \<le> (80 + total_bytes t) * P" by (rule mult_le_mono2) (simp add: P_def)
  have "txMemEnd x = shmem + ptr_align (Task_getShmemSpace q t)"
    by (simp add: assms(5) Task_prepare_def Let_def)
  moreover have "16 + 48 * length (signals t) + (80 + total_bytes t) * 10 \<le> Task_getShmemSpace q t"
    using ge unfolding Task_getShmemSpace_def Let_def P_def [symmetric] registered_bytes [OF assms(1)]
    by (simp add: ptr_size_def sizeof_SignalList_def sizeof_Pdo_def)
  ultimately have "txMemBegin x + (80 + total_bytes t) * 10 \<le> txMemEnd x"
    using ptr_align_ge [of "Task_getShmemSpace q t"] beg by simp
  then have "tx_room (task_width t) x"
    using assms(4) beg by (auto simp: tx_room_def task_width_def pdo_header_def ptr_size_def sizeof_size_t_def max_def)
  moreover have "tx_inv (task_width t) x Map.empty"
    by (simp add: tx_inv_def assms(5) Task_prepare_def Let_def)
  ultimately show ?thesis using beg by (simp add: ptr_size_def sizeof_SignalList_def)
qed

text \<open>
  Property C9 (prepare_gives_room): the memory that \<open>getShmemSpace\<close> asks for and \<open>prepare\<close> divides
  holds three Pdos of the largest size, provided the signals have three bytes on average or
  there are enough task cycles in the buffer time.
\<close>

theorem prepare_gives_room:
  assumes "registered t" and "0 < shmem" and "ptr_size dvd shmem"
    and "sizeof_size_t * length (signals t) \<le> 3 * total_bytes t"
    and "x = snd (Task_prepare shmem (shmem + ptr_align (Task_getShmemSpace q t)) t)"
  shows "tx_room (task_width t) x \<and> tx_inv (task_width t) x Map.empty \<and>
    shmem + 2 * ptr_size + 2 * length (signals t) * sizeof_SignalList \<le> txMemBegin x"
  using assms by (rule prepare_room)

theorem prepare_gives_room_witness:
  "tx_room (task_width ex_task) (snd (Task_prepare 4096 (4096 + ptr_align (Task_getShmemSpace 0 ex_task)) ex_task))"
proof -
  have "registered ex_task" unfolding ex_task_def by (intro registered.intros)
  moreover have "sizeof_size_t * length (signals ex_task) \<le> 3 * total_bytes ex_task"
    by (simp add: ex_eval total_bytes_def list_bytes_def sizeof_size_t_def upt_numeral_unfold)
  ultimately show ?thesis
    using prepare_gives_room [of ex_task 4096, OF _ _ _ _ refl] by (simp add: ptr_size_def)
qed

section \<open>One cycle of the real-time task\<close>

text \<open>The transfer list of the non-real-time process in the order of the classes.\<close>

definition nrt_list :: "'z task_scheme \<Rightarrow> nat list" where
  "nrt_list t = concat (map (nrt_segs t) [0..<4])"

text \<open>The two writers in terms of \<open>tx_publish\<close>, with their invariant.\<close>

lemma calculateCopyList_inv:
  assumes "rt_inv t" and "addressed t" and "tx_inv W x m" and "tx_room W x" and "task_width t \<le> W"
  obtains x' m' where "Task_calculateCopyList t x m = Some (x', m')" "tx_inv W x' m'" "tx_room W x'"
    "taskStatistics x' = taskStatistics x"
proof -
  let ?p = "list_pdo t"
  obtain x' m' where P: "tx_publish (tx_alloc (body_bytes (pd_body ?p)) x) ?p x m = (x', m')" by force
  have w: "body_bytes (pd_body ?p) \<le> W" using rt_width(1) [OF assms(1)] assms(5) by simp
  have n: "pd_next ?p = 0" by (simp add: list_pdo_def)
  from P have "taskStatistics x' = taskStatistics x" by (auto simp: tx_publish_def)
  with that calculateCopyList_eq [OF assms(1,2), of x m] P tx_publish_inv(1,2) [OF assms(3,4) refl w refl P n]
  show thesis by simp
qed

lemma copyData_inv:
  assumes "rt_inv t" and "addressed t" and "tx_inv W x m" and "tx_room W x" and "task_width t \<le> W"
  obtains x' m' a where "Task_copyData src now t x m = Some (t\<lparr>seqNo := seqNo t + 1\<rparr>, x', m')"
    "tx_inv W x' m'" "tx_room W x'" "nextTxPdo x' = Some a" "m' a = Some (data_pdo src now x t)"
    "txMemBegin x' = txMemBegin x" "txMemEnd x' = txMemEnd x"
proof -
  let ?p = "data_pdo src now x t"
  define a where "a = tx_alloc (body_bytes (pd_body ?p)) x"
  let ?x = "x\<lparr>tx_time := a\<rparr>"
  obtain x' m' where P: "tx_publish a ?p ?x m = (x', m')" by force
  have i: "tx_inv W ?x m" "tx_room W ?x" using assms(3,4) by (simp_all add: tx_inv_def tx_room_def cong: option.case_cong)
  have w: "body_bytes (pd_body ?p) \<le> W" using rt_width(2) [OF assms(1)] assms(5) le_trans by blast
  have n: "pd_next ?p = 0" by (simp add: data_pdo_def)
  have a: "a = tx_alloc (body_bytes (pd_body ?p)) ?x" by (simp add: a_def tx_alloc_def)
  note I = tx_publish_inv [OF i refl w a P n] and M = tx_publish_mem(1) [OF i refl w a P]
  show thesis
    using that [OF _ I(1,2,3) M] copyData_eq [OF assms(1,2), of src now x m] P I(5) by (simp add: a_def Let_def)
qed

text \<open>
  One call of \<open>rt_update\<close>: it returns, and the Pdo it leaves at the end of the list carries the next
  sequence number, the list id and the current bytes of exactly the subscribed signals.
\<close>

lemma rt_update_effect:
  assumes inv: "sys_inv s" and "addressed (nrt s)"
    and "W = task_width (nrt s)" and "tx_inv W x m" and "tx_room W x"
  shows "\<exists>t' r' x' m' a p. Task_rt_update src now (rt s) (ring s) x m = Some (t', r', x', m') \<and>
    ring_rp r' = ring_wp r' \<and> tx_inv W x' m' \<and> tx_room W x' \<and> nextTxPdo x' = Some a \<and> m' a = Some p \<and>
    txMemBegin x' \<le> a \<and> pdo_end a p < txMemEnd x' \<and> pd_listId p = signalListId (nrt s) \<and>
    pd_seqNo (pd_body p) = seqNo (rt s) \<and> seqNo t' = seqNo (rt s) + 1 \<and>
    pd_data (pd_body p) = gather src (signals (nrt s)) (nrt_list (nrt s))"
proof -
  have ad: "addressed t" "task_width t = W" if "signals t = signals (nrt s)" for t :: task
    using assms(2,3) that by (simp_all add: addressed_def task_width_def total_bytes_def)
  have E: "data_pdo src now x1 t = \<lparr>pd_listId = signalListId (nrt s), pd_count = signalMemSize t, pd_next = 0,
      pd_body = DataPdo (seqNo t) (case now of None \<Rightarrow> (0, 0) | Some tm \<Rightarrow> tm) (taskStatistics x1)
       (gather src (signals (nrt s)) (nrt_list (nrt s)))\<rparr> \<and> rt_inv t \<and> addressed t \<and> task_width t \<le> W"
    if I: "sys_inv (s\<lparr>rt := t, ring := r\<rparr>)" "ring_rp r = ring_wp r" for t r x1
  proof -
    have sg: "signals t = signals (nrt s)" using I(1) by (simp add: sys_inv_def)
    have "rt_list t = nrt_list (nrt s)"
      using sys_inv_caught_up(2) [OF I(1)] I(2) by (simp add: rt_list_def nrt_list_def)
    then show ?thesis
      using sys_inv_caught_up(3) [OF I(1)] I ad [OF sg] sg by (simp add: data_pdo_def sys_inv_def)
  qed
  show ?thesis
  proof (cases "ring_rp (ring s) = ring_wp (ring s)")
    case True
    have I: "sys_inv (s\<lparr>rt := rt s, ring := ring s\<rparr>)" using inv by simp
    note D = E [OF I True]
    obtain x' m' a where C: "Task_copyData src now (rt s) x m = Some ((rt s)\<lparr>seqNo := seqNo (rt s) + 1\<rparr>, x', m')"
      "tx_inv W x' m'" "tx_room W x'" "nextTxPdo x' = Some a" "m' a = Some (data_pdo src now x (rt s))"
      by (rule copyData_inv [OF _ _ assms(4,5), of "rt s" src now]) (use D [of x] in blast)+
    with True D [of x] tx_inv_range [OF C(2,5)] show ?thesis by (simp add: Task_rt_update_def)
  next
    case False
    obtain t1 r1 where T: "Task_drain (rt s) (ring s) = Some (t1, r1)" "sys_inv (s\<lparr>rt := t1, ring := r1\<rparr>)"
      "ring_rp r1 = ring_wp r1" "seqNo t1 = seqNo (rt s)"
      using drain_result [OF inv] by blast
    note D = E [OF T(2,3)]
    obtain x1 m1 where L: "Task_calculateCopyList t1 x m = Some (x1, m1)" "tx_inv W x1 m1" "tx_room W x1"
      by (rule calculateCopyList_inv [OF _ _ assms(4,5), of t1]) (use D [of x] in blast)+
    obtain x' m' a where C: "Task_copyData src now t1 x1 m1 = Some (t1\<lparr>seqNo := seqNo t1 + 1\<rparr>, x', m')"
      "tx_inv W x' m'" "tx_room W x'" "nextTxPdo x' = Some a" "m' a = Some (data_pdo src now x1 t1)"
      by (rule copyData_inv [OF _ _ L(2,3), of t1 src now]) (use D [of x1] in blast)+
    with False T L(1) D [of x1] tx_inv_range [OF C(2,5)] show ?thesis by (simp add: Task_rt_update_def)
  qed
qed

text \<open>
  The ratio asked for above is needed: with 200 signals of one byte and ten cycles the
  region has 2800 bytes. When one signal is transferred and then all of them, the new signal list
  of 1672 bytes overwrites the data Pdo written last, whose \<open>next\<close> member is then stored into the
  middle of the list.
\<close>

lemma small_region_corrupts_list:
  assumes "txMemBegin x = 1000" and "txMemEnd x = 1000 + (sizeof_Pdo + 200) * 10"
    and "nextTxPdo x = Some 2120" and "txPdo x = 2200"
    and "pd_body q = DataPdo sq tm st [d]" and "pd_body p = SignalListPdo idx" and "length idx = 200"
    and "a = tx_alloc (body_bytes (pd_body p)) x"
  shows "a = 1000 \<and> snd (tx_publish a p x [2120 \<mapsto> q]) = Map.empty"
proof -
  have "a = 1000" using assms by (simp add: tx_alloc_def pdo_header_def sizeof_Pdo_def sizeof_size_t_def)
  moreover have "clobber 2184 2192 (pdo_put 1000 p [2120 \<mapsto> q]) = Map.empty" "pdo_put 1000 p [2120 \<mapsto> q] 2120 = None"
    using assms by (auto simp: fun_eq_iff clobber_def pdo_put_def pdo_end_def pdo_header_def sizeof_size_t_def)
  ultimately show ?thesis using assms(3) by (simp add: tx_publish_def tx_link_def pdo_header_def ptr_size_def)
qed

definition ex_tx :: tx where
  "ex_tx = snd (Task_prepare 4096 (4096 + ptr_align (Task_getShmemSpace 0 ex_task)) ex_task)"

lemma ex_tx_room: "tx_room (task_width ex_task) ex_tx \<and> tx_inv (task_width ex_task) ex_tx Map.empty"
proof -
  have "registered ex_task" unfolding ex_task_def by (intro registered.intros)
  moreover have "sizeof_size_t * length (signals ex_task) \<le> 3 * total_bytes ex_task"
    by (simp add: ex_eval total_bytes_def list_bytes_def sizeof_size_t_def upt_numeral_unfold)
  ultimately show ?thesis
    using prepare_room [of ex_task 4096 ex_tx 0] by (simp add: ex_tx_def ptr_size_def)
qed

end
