(* ===== verification/Session_Data.thy ===== *)
theory Session_Data
  imports Pdo_Stream
begin

text \<open>
  \<open>lib/SessionTaskData.cpp\<close>: the reader of the Pdo list in the non-real-time process, one per
  session and task. It follows the \<open>next\<close> pointers, keeps the position of every transferred signal
  in the data and reports signals that become available. The second half of the theory
  runs the real-time task, the subscribers and a reader against each other.
\<close>

section \<open>The reader\<close>

text \<open>
  Signals are indices; \<open>newSignals\<close> is the sequence of \<open>newSignal\<close> calls on the session;
  \<open>signalBuffer\<close> is the address of the data.
\<close>

record sess =
  activeSet :: "nat set"
  transferredSet :: "nat set"
  subscribedSet :: "nat set"
  signalPosition :: "nat list"
  s_seqNo :: u32
  s_listId :: u32
  pdoSize :: nat
  signalBuffer :: nat
  s_pdo :: nat
  s_memBegin :: nat
  s_memEnd :: nat
  newSignals :: "nat list"

text \<open>One iteration of the loop of \<open>loadSignalList\<close>; \<open>subId\<close> are the subscription ids of the signals.\<close>

definition load_one :: "(nat \<Rightarrow> u32) \<Rightarrow> signal list \<Rightarrow> nat \<Rightarrow> sess \<Rightarrow> sess" where
  "load_one subId sigs j st =
     (let st1 = st\<lparr>signalPosition := (signalPosition st)[sig_index (sigs ! j) := pdoSize st],
                  pdoSize := pdoSize st + sig_memSize (sigs ! j),
                  transferredSet := insert j (transferredSet st)\<rparr> in
      if j \<in> subscribedSet st \<and> 0 \<le> sint (s_listId st - subId j) \<and> j \<notin> activeSet st
      then st1\<lparr>activeSet := insert j (activeSet st), newSignals := newSignals st @ [j]\<rparr>
      else st1)"

definition loadSignalList :: "(nat \<Rightarrow> u32) \<Rightarrow> signal list \<Rightarrow> nat list \<Rightarrow> u32 \<Rightarrow> sess \<Rightarrow> sess" where
  "loadSignalList subId sigs sp lid st =
     fold (load_one subId sigs) sp
       (st\<lparr>signalPosition := replicate (length (signalPosition st)) (2 ^ 32 - 1),
           transferredSet := {}, s_listId := lid, pdoSize := 0\<rparr>)"

text \<open>
  The outcome of the loop of \<open>rxPdo\<close>: a data Pdo (result true), the end of the list (result
  false), the jump to \<open>out\<close>, or a read of memory that holds no complete Pdo any more.
\<close>

datatype rx = RxData | RxNone | RxOut | RxUndef

partial_function (option) rx_loop ::
    "(nat \<Rightarrow> u32) \<Rightarrow> signal list \<Rightarrow> pmem \<Rightarrow> sess \<Rightarrow> (rx \<times> sess) option" where
  "rx_loop subId sigs m st =
     (case m (s_pdo st) of
        None \<Rightarrow> Some (RxUndef, st)
      | Some p \<Rightarrow>
          if pd_next p = 0 then Some (RxNone, st)
          else let a = pd_next p; st1 = st\<lparr>s_pdo := a\<rparr> in
            if a < s_memBegin st \<or> s_memEnd st < a + pdo_header then Some (RxOut, st1)
            else (case m a of
                None \<Rightarrow> Some (RxUndef, st1)
              | Some q \<Rightarrow>
                  (case pd_body q of
                     SignalListPdo idx \<Rightarrow>
                       let n = pd_count q in
                       if s_memEnd st < a + pdo_header + sizeof_size_t * n then Some (RxOut, st1)
                       else if length idx < n \<or> length sigs < n then Some (RxUndef, st1)
                       else if \<not> list_all (\<lambda>i. i < length sigs) (take n idx) then Some (RxOut, st1)
                       else rx_loop subId sigs m (loadSignalList subId sigs (take n idx) (pd_listId q) st1)
                   | DataPdo sq tm ts d \<Rightarrow>
                       if s_memEnd st \<le> a + pdo_header + pdoSize st \<or> pd_listId q \<noteq> s_listId st \<or> sq - s_seqNo st \<noteq> 1
                       then Some (RxOut, st1)
                       else Some (RxData, st1\<lparr>s_seqNo := sq, signalBuffer := a + pdo_header\<rparr>))))"

declare rx_loop.simps [code]

text \<open>
  \<open>init\<close>: the first loop walks to the end of the list, the second one waits for a data Pdo with
  the list id of the task. \<open>None\<close>: the call does not return as long as memory and subscriptions
  stay as they are.
\<close>

partial_function (option) catch_up :: "pmem \<Rightarrow> nat \<Rightarrow> nat \<Rightarrow> nat \<Rightarrow> nat option" where
  "catch_up m b e a =
     (case m a of
        None \<Rightarrow> None
      | Some p \<Rightarrow> if pd_next p = 0 then Some a
                  else catch_up m b e (if a < b \<or> e \<le> a then b else pd_next p))"

partial_function (option) await_data :: "pmem \<Rightarrow> nat \<Rightarrow> nat option" where
  "await_data m a =
     (case m a of
        None \<Rightarrow> None
      | Some p \<Rightarrow>
          (case pd_body p of
             DataPdo sq tm ts d \<Rightarrow> Some a
           | SignalListPdo idx \<Rightarrow> if pd_next p = 0 then None else await_data m (pd_next p)))"

declare catch_up.simps [code] await_data.simps [code]

text \<open>One round of the second loop: the Pdo reached and whether its list id is the current one.\<close>

definition init_round :: "'z task_scheme \<Rightarrow> sl_entry ring \<Rightarrow> pmem \<Rightarrow> nat \<Rightarrow> (nat \<times> bool) option" where
  "init_round t r m a =
     (let (sp, n, lid) = Task_getSignalList t r in
      case await_data m a of
        None \<Rightarrow> None
      | Some c \<Rightarrow> (case m c of None \<Rightarrow> None | Some p \<Rightarrow> Some (c, pd_listId p = lid)))"

definition SessionTaskData_init :: "'z task_scheme \<Rightarrow> sl_entry ring \<Rightarrow> pmem \<Rightarrow> sess \<Rightarrow> sess option" where
  "SessionTaskData_init t r m st =
     (case catch_up m (s_memBegin st) (s_memEnd st) (s_memBegin st) of
        None \<Rightarrow> None
      | Some a \<Rightarrow>
          (case init_round t r m a of
             None \<Rightarrow> None
           | Some (c, ok) \<Rightarrow>
               if \<not> ok then None
               else let (sp, n, lid) = Task_getSignalList t r in
                 (case m c of
                    None \<Rightarrow> None
                  | Some p \<Rightarrow> Some (loadSignalList (\<lambda>j. subscriptionId (subs t ! j)) (signals t) sp lid
                       (st\<lparr>s_pdo := c, s_seqNo := pd_seqNo (pd_body p)\<rparr>)))))"

definition SessionTaskData_new :: "'z task_scheme \<Rightarrow> nat \<Rightarrow> nat \<Rightarrow> sess" where
  "SessionTaskData_new t b e =
     \<lparr>activeSet = {}, transferredSet = {}, subscribedSet = {}, signalPosition = replicate (length (signals t)) 0,
      s_seqNo = 0, s_listId = 0, pdoSize = 0, signalBuffer = 0, s_pdo = 0, s_memBegin = b, s_memEnd = e,
      newSignals = []\<rparr>"

definition SessionTaskData_ctor :: "'z task_scheme \<Rightarrow> sl_entry ring \<Rightarrow> tx \<Rightarrow> pmem \<Rightarrow> sess option" where
  "SessionTaskData_ctor t r x m = SessionTaskData_init t r m (SessionTaskData_new t (txMemBegin x) (txMemEnd x))"

text \<open>\<open>rxPdo\<close>: out of sync the reader starts again and reports true.\<close>

definition SessionTaskData_rxPdo ::
    "'z task_scheme \<Rightarrow> sl_entry ring \<Rightarrow> pmem \<Rightarrow> sess \<Rightarrow> (bool \<times> sess) option" where
  "SessionTaskData_rxPdo t r m st =
     (case rx_loop (\<lambda>j. subscriptionId (subs t ! j)) (signals t) m st of
        Some (RxData, st') \<Rightarrow> Some (True, st')
      | Some (RxNone, st') \<Rightarrow> Some (False, st')
      | Some (RxOut, st') \<Rightarrow> map_option (Pair True) (SessionTaskData_init t r m st')
      | _ \<Rightarrow> None)"

definition SessionTaskData_subscribe ::
    "nat \<Rightarrow> nat \<Rightarrow> sess \<Rightarrow> 'z task_scheme \<Rightarrow> sl_entry ring \<Rightarrow> (sess \<times> 'z task_scheme \<times> sl_entry ring) option" where
  "SessionTaskData_subscribe j sid st t r =
     (let report = (\<lambda>st. st\<lparr>activeSet := insert j (activeSet st), newSignals := newSignals st @ [j]\<rparr>) in
      if j \<in> activeSet st then Some (report st, t, r)
      else if j \<in> subscribedSet st then Some (st, t, r)
      else let st1 = st\<lparr>subscribedSet := insert j (subscribedSet st)\<rparr> in
        (case Task_subscribe j sid True t r of
           None \<Rightarrow> None
         | Some (b, t', r') \<Rightarrow> Some (if b \<and> j \<in> transferredSet st then report st1 else st1, t', r')))"

definition SessionTaskData_unsubscribe ::
    "nat \<Rightarrow> nat \<Rightarrow> sess \<Rightarrow> 'z task_scheme \<Rightarrow> sl_entry ring \<Rightarrow> (sess \<times> 'z task_scheme \<times> sl_entry ring) option" where
  "SessionTaskData_unsubscribe j sid st t r =
     (if j \<in> subscribedSet st then
        let st1 = st\<lparr>subscribedSet := subscribedSet st - {j}, activeSet := activeSet st - {j}\<rparr> in
        map_option (\<lambda>(b, t', r'). (st1, t', r')) (Task_subscribe j sid False t r)
      else Some (st, t, r))"

text \<open>
  \<open>getValue\<close> returns a pointer; \<open>session_bytes\<close> are the \<open>memSize\<close> bytes found there,
  \<open>getTaskTime\<close> the time of the current Pdo.
\<close>

definition SessionTaskData_getValue :: "sess \<Rightarrow> nat \<Rightarrow> nat" where
  "SessionTaskData_getValue st j = signalBuffer st + signalPosition st ! j"

definition pdo_bytes :: "pmem \<Rightarrow> nat \<Rightarrow> nat \<Rightarrow> nat \<Rightarrow> u8 list" where
  "pdo_bytes m a p n =
     (case m a of Some q \<Rightarrow> (case pd_body q of DataPdo _ _ _ d \<Rightarrow> slice (p - (a + pdo_header)) n d | _ \<Rightarrow> []) | None \<Rightarrow> [])"

definition session_bytes :: "pmem \<Rightarrow> signal list \<Rightarrow> sess \<Rightarrow> nat \<Rightarrow> u8 list" where
  "session_bytes m sigs st j =
     pdo_bytes m (signalBuffer st - pdo_header) (SessionTaskData_getValue st j) (sig_memSize (sigs ! j))"

definition SessionTaskData_getTaskTime :: "pmem \<Rightarrow> sess \<Rightarrow> int \<times> int" where
  "SessionTaskData_getTaskTime m st = (case m (s_pdo st) of Some q \<Rightarrow> pd_time (pd_body q) | None \<Rightarrow> (0, 0))"

section \<open>Positions of the signals in the data\<close>

text \<open>\<open>offset_in sigs js j\<close>: the bytes of the signals before \<open>j\<close> in \<open>js\<close>.\<close>

definition offset_in :: "signal list \<Rightarrow> nat list \<Rightarrow> nat \<Rightarrow> nat" where
  "offset_in sigs js j = list_bytes sigs (takeWhile (\<lambda>i. i \<noteq> j) js)"

definition positions_ok :: "signal list \<Rightarrow> nat list \<Rightarrow> sess \<Rightarrow> bool" where
  "positions_ok sigs js st \<longleftrightarrow>
     pdoSize st = list_bytes sigs js \<and> transferredSet st = set js \<and>
     length (signalPosition st) = length sigs \<and>
     (\<forall>j\<in>set js. signalPosition st ! j = offset_in sigs js j)"

lemma list_bytes_append [simp]: "list_bytes sigs (xs @ ys) = list_bytes sigs xs + list_bytes sigs ys"
  and list_bytes_Nil [simp]: "list_bytes sigs [] = 0"
  and list_bytes_Cons [simp]: "list_bytes sigs (j # js) = sig_memSize (sigs ! j) + list_bytes sigs js"
  by (simp_all add: list_bytes_def)

lemma takeWhile_neq_append: "j \<in> set xs \<Longrightarrow> takeWhile (\<lambda>i. i \<noteq> j) (xs @ ys) = takeWhile (\<lambda>i. i \<noteq> j) xs"
  by (induction xs) auto

lemma offset_in_snoc: "j \<in> set xs \<Longrightarrow> offset_in sigs (xs @ [i]) j = offset_in sigs xs j"
  "j \<notin> set xs \<Longrightarrow> offset_in sigs (xs @ [j]) j = list_bytes sigs xs"
proof -
  show "j \<in> set xs \<Longrightarrow> offset_in sigs (xs @ [i]) j = offset_in sigs xs j"
    by (simp add: offset_in_def takeWhile_neq_append)
  assume "j \<notin> set xs"
  then have "takeWhile (\<lambda>i. i \<noteq> j) xs = xs" by (auto simp: takeWhile_eq_all_conv)
  then show "offset_in sigs (xs @ [j]) j = list_bytes sigs xs"
    by (simp add: offset_in_def takeWhile_tail takeWhile_append)
qed

definition indexed :: "signal list \<Rightarrow> bool" where
  "indexed sigs \<longleftrightarrow> (\<forall>j<length sigs. sig_index (sigs ! j) = j)"

lemma load_one_positions:
  assumes "positions_ok sigs js st" and "j \<notin> set js" and "j < length sigs" and "indexed sigs"
  shows "positions_ok sigs (js @ [j]) (load_one subId sigs j st)"
proof -
  have ix: "sig_index (sigs ! j) = j" using assms(3,4) by (simp add: indexed_def)
  have "signalPosition (load_one subId sigs j st) = (signalPosition st)[j := pdoSize st]"
    "pdoSize (load_one subId sigs j st) = pdoSize st + sig_memSize (sigs ! j)"
    "transferredSet (load_one subId sigs j st) = insert j (transferredSet st)"
    by (simp_all add: load_one_def Let_def ix)
  moreover have "(signalPosition st)[j := pdoSize st] ! i = offset_in sigs (js @ [j]) i" if "i \<in> set (js @ [j])" for i
    using that assms(1-3) offset_in_snoc [of i js] by (cases "i = j") (auto simp: positions_ok_def)
  ultimately show ?thesis using assms(1) by (simp add: positions_ok_def)
qed

lemma load_one_keeps [simp]:
  "s_pdo (load_one subId sigs j st) = s_pdo st" "s_seqNo (load_one subId sigs j st) = s_seqNo st"
  "s_listId (load_one subId sigs j st) = s_listId st" "s_memBegin (load_one subId sigs j st) = s_memBegin st"
  "s_memEnd (load_one subId sigs j st) = s_memEnd st" "subscribedSet (load_one subId sigs j st) = subscribedSet st"
  "signalBuffer (load_one subId sigs j st) = signalBuffer st"
  by (simp_all add: load_one_def Let_def)

lemma load_fold_keeps [simp]:
  "s_pdo (fold (load_one subId sigs) js st) = s_pdo st" "s_seqNo (fold (load_one subId sigs) js st) = s_seqNo st"
  "s_listId (fold (load_one subId sigs) js st) = s_listId st"
  "s_memBegin (fold (load_one subId sigs) js st) = s_memBegin st"
  "s_memEnd (fold (load_one subId sigs) js st) = s_memEnd st"
  "subscribedSet (fold (load_one subId sigs) js st) = subscribedSet st"
  "signalBuffer (fold (load_one subId sigs) js st) = signalBuffer st"
  by (induction js arbitrary: st) simp_all

lemma loadSignalList_keeps [simp]:
  "s_pdo (loadSignalList subId sigs sp lid st) = s_pdo st"
  "s_seqNo (loadSignalList subId sigs sp lid st) = s_seqNo st"
  "s_listId (loadSignalList subId sigs sp lid st) = lid"
  "s_memBegin (loadSignalList subId sigs sp lid st) = s_memBegin st"
  "s_memEnd (loadSignalList subId sigs sp lid st) = s_memEnd st"
  "subscribedSet (loadSignalList subId sigs sp lid st) = subscribedSet st"
  by (simp_all add: loadSignalList_def)

lemma load_fold_positions:
  assumes "indexed sigs"
  shows "positions_ok sigs js st \<Longrightarrow> distinct (js @ sp) \<Longrightarrow> \<forall>j\<in>set sp. j < length sigs \<Longrightarrow>
    positions_ok sigs (js @ sp) (fold (load_one subId sigs) sp st)"
proof (induction sp arbitrary: js st)
  case (Cons j sp)
  have "positions_ok sigs (js @ [j]) (load_one subId sigs j st)"
    using Cons.prems assms by (intro load_one_positions) auto
  from Cons.IH [OF this] Cons.prems show ?case by simp
qed simp

lemma loadSignalList_positions:
  assumes "indexed sigs" and "distinct sp" and "\<forall>j\<in>set sp. j < length sigs"
    and "length (signalPosition st) = length sigs"
  shows "positions_ok sigs sp (loadSignalList subId sigs sp lid st)"
  using load_fold_positions [OF assms(1), of "[]" _ sp] assms(2-4)
  by (simp add: loadSignalList_def positions_ok_def)

text \<open>Offsets select from the gathered data the bytes of the signal.\<close>

definition scatter :: "signal list \<Rightarrow> nat list \<Rightarrow> u8 list \<Rightarrow> nat \<rightharpoonup> u8 list" where
  "scatter sigs js d j =
     (if j \<in> set js then Some (slice (offset_in sigs js j) (sig_memSize (sigs ! j)) d) else None)"

definition sampled :: "(nat \<Rightarrow> u8) \<Rightarrow> signal list \<Rightarrow> nat list \<Rightarrow> nat \<rightharpoonup> u8 list" where
  "sampled src sigs js j =
     (if j \<in> set js then Some (read_bytes src (sig_addr (sigs ! j)) (sig_memSize (sigs ! j))) else None)"

lemma scatter_gather: "scatter sigs js (gather src sigs js) = sampled src sigs js"
proof
  fix j
  show "scatter sigs js (gather src sigs js) j = sampled src sigs js j"
  proof (cases "j \<in> set js")
    case True
    then obtain xs ys where js: "js = xs @ j # ys" "j \<notin> set xs" by (blast dest: split_list_first)
    then have "takeWhile (\<lambda>i. i \<noteq> j) js = xs" by (auto simp: takeWhile_tail)
    then have "offset_in sigs js j = length (gather src sigs xs)" by (simp add: offset_in_def)
    moreover have "gather src sigs js = gather src sigs xs @
        read_bytes src (sig_addr (sigs ! j)) (sig_memSize (sigs ! j)) @ gather src sigs ys"
      by (simp add: js gather_def)
    ultimately show ?thesis using True by (simp add: scatter_def sampled_def slice_def)
  qed (simp add: scatter_def sampled_def)
qed

section \<open>Reading a chain\<close>

text \<open>
  \<open>stream_ok\<close>: a sequence of Pdos that a reader with list \<open>js\<close>, list id \<open>lid\<close> and sequence
  number \<open>seq\<close> accepts; \<open>stream_end\<close> is its state afterwards and \<open>samples\<close> what it
  receives.
\<close>

fun stream_ok :: "signal list \<Rightarrow> nat \<Rightarrow> nat \<Rightarrow> u32 \<Rightarrow> u32 \<Rightarrow> nat list \<Rightarrow> link list \<Rightarrow> bool" where
  "stream_ok sigs b e lid seq js [] = True"
| "stream_ok sigs b e lid seq js ((a, i, SignalListPdo idx) # cs) =
     (b \<le> a \<and> a + pdo_header + sizeof_size_t * length idx \<le> e \<and> distinct idx \<and>
      (\<forall>j\<in>set idx. j < length sigs) \<and> stream_ok sigs b e i seq idx cs)"
| "stream_ok sigs b e lid seq js ((a, i, DataPdo sq tm ts d) # cs) =
     (b \<le> a \<and> a + pdo_header + length d < e \<and> i = lid \<and> sq = seq + 1 \<and> length d = list_bytes sigs js \<and>
      stream_ok sigs b e lid sq js cs)"

fun stream_end :: "u32 \<Rightarrow> u32 \<Rightarrow> nat list \<Rightarrow> link list \<Rightarrow> u32 \<times> u32 \<times> nat list" where
  "stream_end lid seq js [] = (lid, seq, js)"
| "stream_end lid seq js ((a, i, SignalListPdo idx) # cs) = stream_end i seq idx cs"
| "stream_end lid seq js ((a, i, DataPdo sq tm ts d) # cs) = stream_end lid sq js cs"

type_synonym sample = "(int \<times> int) \<times> (nat \<rightharpoonup> u8 list)"

fun samples :: "signal list \<Rightarrow> nat list \<Rightarrow> link list \<Rightarrow> sample list" where
  "samples sigs js [] = []"
| "samples sigs js ((a, i, SignalListPdo idx) # cs) = samples sigs idx cs"
| "samples sigs js ((a, i, DataPdo sq tm ts d) # cs) = (tm, scatter sigs js d) # samples sigs js cs"

definition synced :: "signal list \<Rightarrow> pmem \<Rightarrow> sess \<Rightarrow> nat list \<Rightarrow> link list \<Rightarrow> bool" where
  "synced sigs m st js cs \<longleftrightarrow>
     positions_ok sigs js st \<and> chain m (s_pdo st) cs \<and>
     stream_ok sigs (s_memBegin st) (s_memEnd st) (s_listId st) (s_seqNo st) js cs"

lemma rx_loop_end:
  assumes "synced sigs m st js []"
  shows "rx_loop subId sigs m st = Some (RxNone, st)"
  using assms by (subst rx_loop.simps) (auto simp: synced_def split: option.splits)

lemma rx_loop_list:
  assumes "synced sigs m st js ((a, i, SignalListPdo idx) # cs)" and "indexed sigs"
    and st1_def: "st1 = loadSignalList subId sigs idx i (st\<lparr>s_pdo := a\<rparr>)"
  shows "rx_loop subId sigs m st = rx_loop subId sigs m st1" and "synced sigs m st1 idx cs"
proof -
  from assms(1) obtain p q where pq: "m (s_pdo st) = Some p" "pd_next p = a" "a \<noteq> 0" "m a = Some q"
    "pd_body q = SignalListPdo idx" "pd_listId q = i" "pd_count q = length idx" "chain m a cs"
    by (auto simp: synced_def holds_def split: option.splits)
  from assms(1) have ok: "s_memBegin st \<le> a" "a + pdo_header + sizeof_size_t * length idx \<le> s_memEnd st"
    "distinct idx" "\<forall>j\<in>set idx. j < length sigs" "length (signalPosition st) = length sigs"
    "stream_ok sigs (s_memBegin st) (s_memEnd st) i (s_seqNo st) idx cs"
    by (auto simp: synced_def positions_ok_def)
  have "length idx \<le> length sigs" using list_bytes_subset(2) [OF ok(3)] ok(4) by blast
  with pq ok show "rx_loop subId sigs m st = rx_loop subId sigs m st1"
    by (subst rx_loop.simps) (auto simp: Let_def st1_def list_all_iff)
  have "positions_ok sigs idx st1" unfolding st1_def
    using ok by (intro loadSignalList_positions [OF assms(2)]) auto
  then show "synced sigs m st1 idx cs" using pq(8) ok by (simp add: synced_def st1_def)
qed

lemma rx_loop_data:
  assumes "synced sigs m st js ((a, i, DataPdo sq tm ts d) # cs)"
    and st1_def: "st1 = st\<lparr>s_pdo := a, s_seqNo := sq, signalBuffer := a + pdo_header\<rparr>"
  shows "rx_loop subId sigs m st = Some (RxData, st1)" and "synced sigs m st1 js cs"
    and "SessionTaskData_getTaskTime m st1 = tm"
    and "(\<lambda>j. if j \<in> transferredSet st1 then Some (session_bytes m sigs st1 j) else None) = scatter sigs js d"
proof -
  from assms(1) obtain p q where pq: "m (s_pdo st) = Some p" "pd_next p = a" "a \<noteq> 0" "m a = Some q"
    "pd_body q = DataPdo sq tm ts d" "pd_listId q = i" "chain m a cs"
    by (auto simp: synced_def holds_def split: option.splits)
  from assms(1) have ok: "s_memBegin st \<le> a" "a + pdo_header + pdoSize st < s_memEnd st" "i = s_listId st"
    "sq = s_seqNo st + 1" "stream_ok sigs (s_memBegin st) (s_memEnd st) (s_listId st) sq js cs" "positions_ok sigs js st"
    by (auto simp: synced_def positions_ok_def)
  with pq show "rx_loop subId sigs m st = Some (RxData, st1)"
    by (subst rx_loop.simps) (auto simp: Let_def st1_def)
  show "synced sigs m st1 js cs" using ok pq(7) by (simp add: synced_def st1_def positions_ok_def)
  show "SessionTaskData_getTaskTime m st1 = tm" by (simp add: SessionTaskData_getTaskTime_def st1_def pq)
  show "(\<lambda>j. if j \<in> transferredSet st1 then Some (session_bytes m sigs st1 j) else None) = scatter sigs js d"
    using ok(6) by (auto simp: fun_eq_iff scatter_def positions_ok_def st1_def session_bytes_def pdo_bytes_def pq
        SessionTaskData_getValue_def)
qed

text \<open>What the session sees after \<open>rxPdo\<close>: the time of the Pdo and the value of every transferred signal.\<close>

definition session_sample :: "pmem \<Rightarrow> signal list \<Rightarrow> sess \<Rightarrow> sample" where
  "session_sample m sigs st =
     (SessionTaskData_getTaskTime m st,
      \<lambda>j. if j \<in> transferredSet st then Some (session_bytes m sigs st j) else None)"

text \<open>A reader in step with the chain gets the first sample, or finds that there is none.\<close>

definition rx_effect :: "signal list \<Rightarrow> pmem \<Rightarrow> sess \<Rightarrow> nat list \<Rightarrow> link list \<Rightarrow> rx \<Rightarrow> sess \<Rightarrow> nat list \<Rightarrow> link list \<Rightarrow> bool" where
  "rx_effect sigs m st js cs res st' js' cs' \<longleftrightarrow>
     synced sigs m st' js' cs' \<and> s_memBegin st' = s_memBegin st \<and> s_memEnd st' = s_memEnd st \<and>
     stream_end (s_listId st) (s_seqNo st) js cs = stream_end (s_listId st') (s_seqNo st') js' cs' \<and>
     last (s_pdo st # map fst cs) = last (s_pdo st' # map fst cs') \<and>
     (res = RxData \<and> samples sigs js cs = session_sample m sigs st' # samples sigs js' cs' \<or>
      res = RxNone \<and> cs' = [] \<and> samples sigs js cs = [])"

lemma rx_loop_synced:
  assumes "indexed sigs"
  shows "synced sigs m st js cs \<Longrightarrow>
    \<exists>res st' js' cs'. rx_loop subId sigs m st = Some (res, st') \<and> rx_effect sigs m st js cs res st' js' cs'"
proof (induction cs arbitrary: st js)
  case Nil
  from rx_loop_end [OF Nil] Nil show ?case by (auto simp: rx_effect_def)
next
  case (Cons l cs)
  obtain a i bd where l: "l = (a, i, bd)" by (cases l)
  show ?case
  proof (cases bd)
    case (SignalListPdo idx)
    define st1 where "st1 = loadSignalList subId sigs idx i (st\<lparr>s_pdo := a\<rparr>)"
    note S = rx_loop_list [OF Cons.prems [unfolded l SignalListPdo] assms st1_def]
    have E: "rx_effect sigs m st1 idx cs res st' js' cs' \<Longrightarrow> rx_effect sigs m st js (l # cs) res st' js' cs'"
      for res st' js' cs'
      unfolding rx_effect_def by (simp add: l SignalListPdo st1_def)
    from Cons.IH [OF S(2)] E show ?thesis unfolding S(1) by blast
  next
    case (DataPdo sq tm ts d)
    note S = rx_loop_data [OF Cons.prems [unfolded l DataPdo] refl]
    let ?st = "st\<lparr>s_pdo := a, s_seqNo := sq, signalBuffer := a + pdo_header\<rparr>"
    have "session_sample m sigs ?st = (tm, scatter sigs js d)"
      using S(3,4) by (simp add: session_sample_def)
    with S(1,2) have "rx_effect sigs m st js (l # cs) RxData ?st js cs" by (simp add: rx_effect_def l DataPdo)
    with S(1) show ?thesis by blast
  qed
qed

section \<open>Properties\<close>

lemma offset_in_bound:
  assumes "j \<in> set js"
  shows "offset_in sigs js j + sig_memSize (sigs ! j) \<le> list_bytes sigs js"
proof -
  from assms obtain xs ys where js: "js = xs @ j # ys" "j \<notin> set xs" by (blast dest: split_list_first)
  then have "takeWhile (\<lambda>i. i \<noteq> j) js = xs" by (auto simp: takeWhile_tail)
  then show ?thesis by (simp add: offset_in_def js)
qed

lemma offset_in_disjoint:
  assumes "i \<in> set js" and "j \<in> set js" and "i \<noteq> j"
  shows "offset_in sigs js i + sig_memSize (sigs ! i) \<le> offset_in sigs js j \<or>
    offset_in sigs js j + sig_memSize (sigs ! j) \<le> offset_in sigs js i"
proof -
  have first: "offset_in sigs js i + sig_memSize (sigs ! i) \<le> offset_in sigs js j"
    if "js = xs @ i # ys" "i \<notin> set xs" "j \<notin> set xs" "i \<noteq> j" for xs ys i j
  proof -
    have "takeWhile (\<lambda>k. k \<noteq> j) js = xs @ i # takeWhile (\<lambda>k. k \<noteq> j) ys" using that
      by (auto simp: takeWhile_append)
    moreover have "takeWhile (\<lambda>k. k \<noteq> i) js = xs" using that by (auto simp: takeWhile_tail)
    ultimately show ?thesis by (simp add: offset_in_def)
  qed
  from assms(1) obtain xs ys where i: "js = xs @ i # ys" "i \<notin> set xs" by (blast dest: split_list_first)
  from assms(2) obtain us vs where j: "js = us @ j # vs" "j \<notin> set us" by (blast dest: split_list_first)
  show ?thesis
  proof (cases "j \<in> set xs")
    case False
    with first [OF i _ assms(3)] show ?thesis by blast
  next
    case True
    then obtain zs ws where "xs = zs @ j # ws" "j \<notin> set zs" by (blast dest: split_list_first)
    with i first [of zs j "ws @ i # ys" i] assms(3) show ?thesis by auto
  qed
qed

text \<open>
  Property C10 (loaded_positions): after \<open>loadSignalList\<close> with a list of distinct signals the ranges
  of the listed signals in the data are disjoint, lie inside \<open>pdoSize\<close> bytes, and exactly the
  listed signals count as transferred.
\<close>

theorem loaded_positions:
  assumes "indexed sigs" and "distinct sp" and "\<forall>j\<in>set sp. j < length sigs"
    and "length (signalPosition st) = length sigs" and "st' = loadSignalList subId sigs sp lid st"
  shows "transferredSet st' = set sp \<and>
    (\<forall>i\<in>set sp. signalPosition st' ! i + sig_memSize (sigs ! i) \<le> pdoSize st' \<and>
      (\<forall>j\<in>set sp. i \<noteq> j \<longrightarrow> signalPosition st' ! i + sig_memSize (sigs ! i) \<le> signalPosition st' ! j \<or>
        signalPosition st' ! j + sig_memSize (sigs ! j) \<le> signalPosition st' ! i))"
proof -
  have "positions_ok sigs sp st'" unfolding assms(5) by (rule loadSignalList_positions [OF assms(1-4)])
  then show ?thesis using offset_in_bound offset_in_disjoint by (simp add: positions_ok_def)
qed

theorem loaded_positions_witness:
  "let st' = loadSignalList (\<lambda>_. 0) (signals ex_task) [1, 0] 1 (SessionTaskData_new ex_task 0 0)
   in transferredSet st' = {0, 1} \<and> signalPosition st' ! 0 = 6 \<and> signalPosition st' ! 0 + 8 \<le> pdoSize st'"
proof -
  let ?st = "loadSignalList (\<lambda>_. 0) (signals ex_task) [1, 0] 1 (SessionTaskData_new ex_task 0 0)"
  have len: "length (signals ex_task) = 2" by (simp add: ex_eval)
  have "indexed (signals ex_task)" by (simp add: indexed_def less_2_cases_iff len) (simp add: ex_eval)
  from loaded_positions [OF this, of "[1, 0]" "SessionTaskData_new ex_task 0 0" ?st]
  have "transferredSet ?st = {1, 0}" "signalPosition ?st ! 0 + sig_memSize (signals ex_task ! 0) \<le> pdoSize ?st"
    by (simp_all add: len SessionTaskData_new_def)
  moreover have "signalPosition ?st ! 0 = 6" "sig_memSize (signals ex_task ! 0) = 8"
    by (simp_all add: loadSignalList_def load_one_def Let_def SessionTaskData_new_def ex_eval)
  ultimately show ?thesis by auto
qed

text \<open>
  Bookkeeping of the subscriptions of a session: only subscribed signals are active, and every
  operation keeps that.
\<close>

definition sess_ok :: "sess \<Rightarrow> bool" where
  "sess_ok st \<longleftrightarrow> activeSet st \<subseteq> subscribedSet st \<and> set (newSignals st) \<supseteq> activeSet st"

lemma load_one_sess_ok: "sess_ok st \<Longrightarrow> sess_ok (load_one subId sigs j st)"
  by (auto simp: sess_ok_def load_one_def Let_def)

lemma load_fold_sess_ok: "sess_ok st \<Longrightarrow> sess_ok (fold (load_one subId sigs) js st)"
  by (induction js arbitrary: st) (simp_all add: load_one_sess_ok)

text \<open>
  Invariants of the sets of a reader: \<open>subscribe\<close>, \<open>unsubscribe\<close> and the reception of a new list keep the
  active signals inside the subscribed ones, and every active signal has been reported to the
  session; \<open>subscribe\<close> leaves the signal subscribed and \<open>unsubscribe\<close> removes it.
\<close>

theorem session_sets:
  assumes "sess_ok st"
  shows "(\<forall>st' t' r'. SessionTaskData_subscribe j sid st t r = Some (st', t', r') \<longrightarrow> sess_ok st' \<and> j \<in> subscribedSet st') \<and>
    (\<forall>st' t' r'. SessionTaskData_unsubscribe j sid st t r = Some (st', t', r') \<longrightarrow>
       sess_ok st' \<and> j \<notin> subscribedSet st' \<and> j \<notin> activeSet st') \<and>
    sess_ok (loadSignalList subId sigs sp lid st)"
proof (intro conjI allI impI)
  show "sess_ok (loadSignalList subId sigs sp lid st)"
    unfolding loadSignalList_def by (rule load_fold_sess_ok) (use assms in \<open>simp add: sess_ok_def\<close>)
qed (use assms in \<open>auto simp: sess_ok_def SessionTaskData_subscribe_def SessionTaskData_unsubscribe_def Let_def
    split: if_splits option.splits\<close>)

theorem session_sets_witness:
  "sess_ok (SessionTaskData_new ex_task 0 0) \<and>
   sess_ok (loadSignalList (\<lambda>_. 0) (signals ex_task) [1] 1 (SessionTaskData_new ex_task 0 0))"
proof -
  have ok: "sess_ok (SessionTaskData_new ex_task 0 0)" by (simp add: sess_ok_def SessionTaskData_new_def)
  from session_sets [OF ok] have "sess_ok (loadSignalList (\<lambda>_. 0) (signals ex_task) [1] 1 (SessionTaskData_new ex_task 0 0))"
    by blast
  with ok show ?thesis by blast
qed

end
