(* ===== verification/Stream_System.thy ===== *)
theory Stream_System
  imports Session_Data
begin

text \<open>
  The writer of \<open>Pdo_Stream\<close> and a reader of \<open>Session_Data\<close> together with arbitrary
  subscribers. The real-time task runs through the phases of \<open>rt_update\<close>, and every
  action of the other threads may fall between two of them. A step that overwrites a Pdo the reader still needs is
  only possible after the reader was given up (\<open>detach\<close>), so that the writer itself is not restricted. \<open>sent\<close> and
  \<open>rcvd\<close> record what the task sampled and what the session obtained since it was attached.
\<close>

datatype phase = Idle | Draining | Listing | Copying

record shm =
  shm_sys :: sys
  phase :: phase
  shm_tx :: tx
  shm_mem :: pmem
  reader :: "sess option"
  sent :: "sample list"
  rcvd :: "sample list"

abbreviation shm_signals :: "shm \<Rightarrow> signal list" where
  "shm_signals S \<equiv> signals (nrt (shm_sys S))"

text \<open>The Pdos that the reader has not passed yet are not overwritten by bytes \<open>[a, e)\<close>.\<close>

definition reader_spared :: "shm \<Rightarrow> nat \<Rightarrow> nat \<Rightarrow> bool" where
  "reader_spared S a e = (case reader S of None \<Rightarrow> True | Some st \<Rightarrow>
     \<forall>cs. chain (shm_mem S) (s_pdo st) cs \<longrightarrow> (\<forall>c\<in>set (s_pdo st # map fst cs). spares (shm_mem S) a e c))"

inductive shm_step :: "shm \<Rightarrow> shm \<Rightarrow> bool" where
  other_sub: "i < length (shm_signals S) \<Longrightarrow>
     Task_subscribe i sid ins (nrt (shm_sys S)) (ring (shm_sys S)) = Some (b, t', r') \<Longrightarrow>
     shm_step S (S\<lparr>shm_sys := (shm_sys S)\<lparr>nrt := t', ring := r'\<rparr>\<rparr>)"
| session_sub: "reader S = Some st \<Longrightarrow> j < length (shm_signals S) \<Longrightarrow>
     SessionTaskData_subscribe j sid st (nrt (shm_sys S)) (ring (shm_sys S)) = Some (st', t', r') \<Longrightarrow>
     shm_step S (S\<lparr>shm_sys := (shm_sys S)\<lparr>nrt := t', ring := r'\<rparr>, reader := Some st'\<rparr>)"
| session_unsub: "reader S = Some st \<Longrightarrow> j < length (shm_signals S) \<Longrightarrow>
     SessionTaskData_unsubscribe j sid st (nrt (shm_sys S)) (ring (shm_sys S)) = Some (st', t', r') \<Longrightarrow>
     shm_step S (S\<lparr>shm_sys := (shm_sys S)\<lparr>nrt := t', ring := r'\<rparr>, reader := Some st'\<rparr>)"
| rt_changes: "phase S = Idle \<Longrightarrow> ring_rp (ring (shm_sys S)) \<noteq> ring_wp (ring (shm_sys S)) \<Longrightarrow>
     shm_step S (S\<lparr>phase := Draining\<rparr>)"
| rt_unchanged: "phase S = Idle \<Longrightarrow> ring_rp (ring (shm_sys S)) = ring_wp (ring (shm_sys S)) \<Longrightarrow>
     shm_step S (S\<lparr>phase := Copying\<rparr>)"
| rt_replay: "phase S = Draining \<Longrightarrow> ring_rp (ring (shm_sys S)) \<noteq> ring_wp (ring (shm_sys S)) \<Longrightarrow>
     Task_processSignalList (rt (shm_sys S)) (ring (shm_sys S)) = (t', r') \<Longrightarrow>
     shm_step S (S\<lparr>shm_sys := (shm_sys S)\<lparr>rt := t', ring := r'\<rparr>\<rparr>)"
| rt_drained: "phase S = Draining \<Longrightarrow> ring_rp (ring (shm_sys S)) = ring_wp (ring (shm_sys S)) \<Longrightarrow>
     shm_step S (S\<lparr>phase := Listing\<rparr>)"
| rt_list: "phase S = Listing \<Longrightarrow>
     Task_calculateCopyList (rt (shm_sys S)) (shm_tx S) (shm_mem S) = Some (x', m') \<Longrightarrow>
     a = tx_alloc (body_bytes (pd_body (list_pdo (rt (shm_sys S))))) (shm_tx S) \<Longrightarrow>
     reader_spared S a (pdo_end a (list_pdo (rt (shm_sys S)))) \<Longrightarrow>
     shm_step S (S\<lparr>phase := Copying, shm_tx := x', shm_mem := m'\<rparr>)"
| rt_data: "phase S = Copying \<Longrightarrow>
     Task_copyData src now (rt (shm_sys S)) (shm_tx S) (shm_mem S) = Some (t', x', m') \<Longrightarrow>
     a = tx_alloc (body_bytes (pd_body (data_pdo src now (shm_tx S) (rt (shm_sys S))))) (shm_tx S) \<Longrightarrow>
     reader_spared S a (pdo_end a (data_pdo src now (shm_tx S) (rt (shm_sys S)))) \<Longrightarrow>
     shm_step S (S\<lparr>phase := Idle, shm_sys := (shm_sys S)\<lparr>rt := t'\<rparr>, shm_tx := x', shm_mem := m',
       sent := sent S @ [(case now of None \<Rightarrow> (0, 0) | Some tm \<Rightarrow> tm,
                          sampled src (shm_signals S) (rt_list (rt (shm_sys S))))]\<rparr>)"
| attach: "phase S = Idle \<Longrightarrow>
     SessionTaskData_ctor (nrt (shm_sys S)) (ring (shm_sys S)) (shm_tx S) (shm_mem S) = Some st \<Longrightarrow>
     shm_step S (S\<lparr>reader := Some st, sent := [], rcvd := []\<rparr>)"
| detach: "reader S = Some st \<Longrightarrow> shm_step S (S\<lparr>reader := None\<rparr>)"
| receive: "reader S = Some st \<Longrightarrow>
     SessionTaskData_rxPdo (nrt (shm_sys S)) (ring (shm_sys S)) (shm_mem S) st = Some (res, st') \<Longrightarrow>
     shm_step S (S\<lparr>reader := Some st',
       rcvd := rcvd S @ (if res then [session_sample (shm_mem S) (shm_signals S) st'] else [])\<rparr>)"

definition shm_start :: "task \<Rightarrow> tx \<Rightarrow> shm" where
  "shm_start t x = \<lparr>shm_sys = sys_start t, phase = Idle, shm_tx = x, shm_mem = Map.empty, reader = None,
     sent = [], rcvd = []\<rparr>"

text \<open>The runs of a task \<open>t\<close> with the memory \<open>x\<close>; \<open>shm_reachable\<close> are those with room for three Pdos.\<close>

inductive shm_run :: "task \<Rightarrow> tx \<Rightarrow> shm \<Rightarrow> bool" for t x where
  start: "shm_run t x (shm_start t x)"
| step: "shm_run t x S \<Longrightarrow> shm_step S S' \<Longrightarrow> shm_run t x S'"

inductive shm_reachable :: "shm \<Rightarrow> bool" where
  start: "registered t \<Longrightarrow> signals t \<noteq> [] \<Longrightarrow> addressed t \<Longrightarrow> length (signals t) < 2 ^ 31 \<Longrightarrow>
     tx_room (task_width t) x \<Longrightarrow> tx_inv (task_width t) x Map.empty \<Longrightarrow> shm_reachable (shm_start t x)"
| step: "shm_reachable S \<Longrightarrow> shm_step S S' \<Longrightarrow> shm_reachable S'"

section \<open>Invariant\<close>

definition reader_inv :: "shm \<Rightarrow> sess \<Rightarrow> bool" where
  "reader_inv S st \<longleftrightarrow>
     s_memBegin st = txMemBegin (shm_tx S) \<and> s_memEnd st = txMemEnd (shm_tx S) \<and>
     (\<exists>js cs lid js2. synced (shm_signals S) (shm_mem S) st js cs \<and>
       nextTxPdo (shm_tx S) = Some (last (s_pdo st # map fst cs)) \<and>
       sent S = rcvd S @ samples (shm_signals S) js cs \<and>
       stream_end (s_listId st) (s_seqNo st) js cs = (lid, seqNo (rt (shm_sys S)) - 1, js2) \<and>
       (phase S \<in> {Idle, Copying} \<longrightarrow> lid = signalListId (rt (shm_sys S)) \<and> js2 = rt_list (rt (shm_sys S))))"

definition tail_inv :: "shm \<Rightarrow> bool" where
  "tail_inv S \<longleftrightarrow> (\<forall>a. phase S = Idle \<and> nextTxPdo (shm_tx S) = Some a \<longrightarrow>
     (\<exists>p sq tm ts d. shm_mem S a = Some p \<and> pd_body p = DataPdo sq tm ts d \<and>
        pd_listId p = signalListId (rt (shm_sys S)) \<and> sq = seqNo (rt (shm_sys S)) - 1))"

definition shm_inv :: "shm \<Rightarrow> bool" where
  "shm_inv S \<longleftrightarrow>
     sys_inv (shm_sys S) \<and> addressed (nrt (shm_sys S)) \<and> length (slots (ring (shm_sys S))) < 2 ^ 32 \<and>
     tx_inv (task_width (nrt (shm_sys S))) (shm_tx S) (shm_mem S) \<and>
     tx_room (task_width (nrt (shm_sys S))) (shm_tx S) \<and> tail_inv S \<and>
     (\<forall>st. reader S = Some st \<longrightarrow> reader_inv S st)"

lemma stream_end_append:
  "stream_end lid seq js (cs @ cs') = (case stream_end lid seq js cs of (l, s, j) \<Rightarrow> stream_end l s j cs')"
  by (induction lid seq js cs rule: stream_end.induct) auto

lemma stream_ok_append:
  "stream_ok sigs b e lid seq js (cs @ cs') \<longleftrightarrow> stream_ok sigs b e lid seq js cs \<and>
     (case stream_end lid seq js cs of (l, s, j) \<Rightarrow> stream_ok sigs b e l s j cs')"
  by (induction sigs b e lid seq js cs rule: stream_ok.induct) auto

lemma samples_append:
  "samples sigs js (cs @ cs') =
     samples sigs js cs @ samples sigs (snd (snd (stream_end lid seq js cs))) cs'"
  by (induction lid seq js cs rule: stream_end.induct) auto

lemma indexed_nrt: "sys_inv s \<Longrightarrow> indexed (signals (nrt s))"
  by (auto simp: sys_inv_def indexed_def nrt_invD(6))

lemma reader_inv_cong:
  assumes "reader_inv S st" and "shm_signals S' = shm_signals S" and "shm_mem S' = shm_mem S"
    and "shm_tx S' = shm_tx S" and "sent S' = sent S" and "rcvd S' = rcvd S"
    and "seqNo (rt (shm_sys S')) = seqNo (rt (shm_sys S))"
    and "phase S' \<in> {Idle, Copying} \<Longrightarrow> phase S \<in> {Idle, Copying} \<and>
       signalListId (rt (shm_sys S')) = signalListId (rt (shm_sys S)) \<and>
       rt_list (rt (shm_sys S')) = rt_list (rt (shm_sys S))"
  shows "reader_inv S' st"
  using assms unfolding reader_inv_def by metis

lemma reader_inv_view:
  assumes "reader_inv S st" and "s_pdo st' = s_pdo st" and "s_listId st' = s_listId st" and "s_seqNo st' = s_seqNo st"
    and "pdoSize st' = pdoSize st" and "transferredSet st' = transferredSet st"
    and "signalPosition st' = signalPosition st" and "s_memBegin st' = s_memBegin st" and "s_memEnd st' = s_memEnd st"
  shows "reader_inv S st'"
  using assms(1) unfolding reader_inv_def synced_def positions_ok_def assms(2-) .

lemma rt_views_seqNo [simp]:
  "rt_segs (t\<lparr>seqNo := n\<rparr>) = rt_segs t" "rt_list (t\<lparr>seqNo := n\<rparr>) = rt_list t"
  "rt_inv (t\<lparr>seqNo := n\<rparr>) = rt_inv t"
proof -
  show s: "rt_segs (t\<lparr>seqNo := n\<rparr>) = rt_segs t" by (simp add: rt_segs_def [abs_def])
  show "rt_list (t\<lparr>seqNo := n\<rparr>) = rt_list t" by (simp add: rt_list_def s)
  show "rt_inv (t\<lparr>seqNo := n\<rparr>) = rt_inv t" by (simp add: rt_inv_def s)
qed

lemma sys_inv_seqNo: "sys_inv s \<Longrightarrow> sys_inv (s\<lparr>rt := (rt s)\<lparr>seqNo := n\<rparr>\<rparr>)"
  by (simp add: sys_inv_def)

lemma shm_invD:
  assumes "shm_inv S"
  shows "sys_inv (shm_sys S)" "rt_inv (rt (shm_sys S))" "addressed (rt (shm_sys S))"
    "signals (rt (shm_sys S)) = shm_signals S"
    "tx_inv (task_width (nrt (shm_sys S))) (shm_tx S) (shm_mem S)"
    "tx_room (task_width (nrt (shm_sys S))) (shm_tx S)"
    "task_width (rt (shm_sys S)) = task_width (nrt (shm_sys S))"
    "reader S = Some st \<Longrightarrow> reader_inv S st"
  using assms by (simp_all add: shm_inv_def sys_inv_def addressed_def task_width_def total_bytes_def)

text \<open>Extending the chain of a reader by one published Pdo.\<close>

lemma synced_publish:
  assumes inv: "tx_inv W x m" and room: "tx_room W x" and w: "body_bytes (pd_body p) \<le> W"
    and a: "a = tx_alloc (body_bytes (pd_body p)) x" and pub: "tx_publish a p x m = (x', m')"
    and n: "pd_next p = 0" and cnt: "pd_count p = body_count (pd_body p)"
    and sy: "synced sigs m st js cs" and tail: "nextTxPdo x = Some (last (s_pdo st # map fst cs))"
    and spared: "\<forall>c\<in>set (s_pdo st # map fst cs). spares m a (pdo_end a p) c"
    and en: "stream_end (s_listId st) (s_seqNo st) js cs = (l, sq, j)"
    and ok: "stream_ok sigs (s_memBegin st) (s_memEnd st) l sq j [(a, pd_listId p, pd_body p)]"
  shows "synced sigs m' st js (cs @ [(a, pd_listId p, pd_body p)])"
    and "nextTxPdo x' = Some (last (s_pdo st # map fst (cs @ [(a, pd_listId p, pd_body p)])))"
  using chain_append [OF inv room refl w a pub n cnt _ tail spared] sy en ok tx_publish_inv(3) [OF inv room refl w a pub n]
  by (simp_all add: synced_def stream_ok_append)

lemma shm_inv_list:
  assumes inv: "shm_inv S" and ph: "phase S = Listing"
    and calc: "Task_calculateCopyList (rt (shm_sys S)) (shm_tx S) (shm_mem S) = Some (x', m')"
    and a: "a = tx_alloc (body_bytes (pd_body (list_pdo (rt (shm_sys S))))) (shm_tx S)"
    and sp: "reader_spared S a (pdo_end a (list_pdo (rt (shm_sys S))))"
  shows "shm_inv (S\<lparr>phase := Copying, shm_tx := x', shm_mem := m'\<rparr>)"
proof -
  note D = shm_invD [OF inv]
  let ?t = "rt (shm_sys S)" and ?W = "task_width (nrt (shm_sys S))"
  let ?p = "list_pdo ?t"
  have pub: "tx_publish a ?p (shm_tx S) (shm_mem S) = (x', m')"
    using calc calculateCopyList_eq [OF D(2,3), of "shm_tx S" "shm_mem S"] a by simp
  have w: "body_bytes (pd_body ?p) \<le> ?W" using rt_width(1) [OF D(2)] D(7) by simp
  have n: "pd_next ?p = 0" "pd_count ?p = body_count (pd_body ?p)" by (simp_all add: list_pdo_def)
  note I = tx_publish_inv [OF D(5,6) refl w a pub n(1)]
  note B = tx_alloc_bounds [OF D(5,6) w, folded a]
  have idx: "map (\<lambda>j. sig_index (shm_signals S ! j)) (rt_list ?t) = rt_list ?t"
    using rt_list_set [OF D(2)] indexed_nrt [OF D(1)] D(4) by (intro map_idI) (simp add: indexed_def)
  have "reader_inv (S\<lparr>phase := Copying, shm_tx := x', shm_mem := m'\<rparr>) st" if st: "reader S = Some st" for st
  proof -
    from D(8) [OF st] obtain js cs l js2 where R: "s_memBegin st = txMemBegin (shm_tx S)" "s_memEnd st = txMemEnd (shm_tx S)"
      "synced (shm_signals S) (shm_mem S) st js cs" "nextTxPdo (shm_tx S) = Some (last (s_pdo st # map fst cs))"
      "sent S = rcvd S @ samples (shm_signals S) js cs"
      "stream_end (s_listId st) (s_seqNo st) js cs = (l, seqNo ?t - 1, js2)"
      unfolding reader_inv_def by blast
    have spared: "\<forall>c\<in>set (s_pdo st # map fst cs). spares (shm_mem S) a (pdo_end a ?p) c"
      using sp R(3) unfolding reader_spared_def st by (auto simp: synced_def)
    have ok: "stream_ok (shm_signals S) (s_memBegin st) (s_memEnd st) l (seqNo ?t - 1) js2 [(a, pd_listId ?p, pd_body ?p)]"
      using B(1,2) R(1,2) rt_list_distinct [OF D(2)] rt_list_set [OF D(2)] by (simp add: list_pdo_def D(4) idx)
    note Y = synced_publish [OF D(5,6) w a pub n R(3,4) spared R(6) ok]
    show ?thesis
      unfolding reader_inv_def using R(1,2,5,6) I(5) Y
      by (intro conjI exI [of _ js] exI [of _ "cs @ [(a, pd_listId ?p, pd_body ?p)]"] exI [of _ "signalListId ?t"]
          exI [of _ "rt_list ?t"])
        (simp_all add: samples_append [of _ _ _ _ "s_listId st" "s_seqNo st"] stream_end_append list_pdo_def D(4) idx)
  qed
  then show ?thesis using inv I(1,2) by (simp add: shm_inv_def tail_inv_def)
qed

lemma shm_inv_data:
  assumes inv: "shm_inv S" and ph: "phase S = Copying"
    and copy: "Task_copyData src now (rt (shm_sys S)) (shm_tx S) (shm_mem S) = Some (t', x', m')"
    and a: "a = tx_alloc (body_bytes (pd_body (data_pdo src now (shm_tx S) (rt (shm_sys S))))) (shm_tx S)"
    and sp: "reader_spared S a (pdo_end a (data_pdo src now (shm_tx S) (rt (shm_sys S))))"
  shows "shm_inv (S\<lparr>phase := Idle, shm_sys := (shm_sys S)\<lparr>rt := t'\<rparr>, shm_tx := x', shm_mem := m',
       sent := sent S @ [(case now of None \<Rightarrow> (0, 0) | Some tm \<Rightarrow> tm,
                          sampled src (shm_signals S) (rt_list (rt (shm_sys S))))]\<rparr>)" (is "shm_inv ?S")
proof -
  note D = shm_invD [OF inv]
  let ?t = "rt (shm_sys S)" and ?W = "task_width (nrt (shm_sys S))" and ?x = "(shm_tx S)\<lparr>tx_time := a\<rparr>"
  let ?p = "data_pdo src now (shm_tx S) ?t"
  have pub: "tx_publish a ?p ?x (shm_mem S) = (x', m')" and t': "t' = ?t\<lparr>seqNo := seqNo ?t + 1\<rparr>"
    using copy copyData_eq [OF D(2,3), of src now "shm_tx S" "shm_mem S"] a by (auto simp: Let_def)
  have w: "body_bytes (pd_body ?p) \<le> ?W" using rt_width(2) [OF D(2)] D(7) by simp
  have n: "pd_next ?p = 0" "pd_count ?p = body_count (pd_body ?p)"
    by (simp_all add: data_pdo_def rt_list_bytes [OF D(2)])
  have i: "tx_inv ?W ?x (shm_mem S)" "tx_room ?W ?x" "a = tx_alloc (body_bytes (pd_body ?p)) ?x"
    using D(5,6) a by (simp_all add: tx_inv_def tx_room_def tx_alloc_def cong: option.case_cong)
  note I = tx_publish_inv [OF i(1,2) refl w i(3) pub n(1)] and M = tx_publish_mem(1) [OF i(1,2) refl w i(3) pub]
  note B = tx_alloc_bounds [OF D(5,6) w, folded a]
  have "reader_inv ?S st" if st: "reader S = Some st" for st
  proof -
    from D(8) [OF st] ph obtain js cs where R: "s_memBegin st = txMemBegin (shm_tx S)" "s_memEnd st = txMemEnd (shm_tx S)"
      "synced (shm_signals S) (shm_mem S) st js cs" "nextTxPdo ?x = Some (last (s_pdo st # map fst cs))"
      "sent S = rcvd S @ samples (shm_signals S) js cs"
      "stream_end (s_listId st) (s_seqNo st) js cs = (signalListId ?t, seqNo ?t - 1, rt_list ?t)"
      unfolding reader_inv_def by auto
    have spared: "\<forall>c\<in>set (s_pdo st # map fst cs). spares (shm_mem S) a (pdo_end a ?p) c"
      using sp R(3) unfolding reader_spared_def st by (auto simp: synced_def)
    have ok: "stream_ok (shm_signals S) (s_memBegin st) (s_memEnd st) (signalListId ?t) (seqNo ?t - 1) (rt_list ?t)
        [(a, pd_listId ?p, pd_body ?p)]"
      using B(1,2) R(1,2) D(4) by (simp add: data_pdo_def)
    note Y = synced_publish [OF i(1,2) w i(3) pub n R(3,4) spared R(6) ok]
    show ?thesis
      unfolding reader_inv_def using R(1,2,5,6) I(5) Y D(4)
      by (intro conjI exI [of _ js] exI [of _ "cs @ [(a, pd_listId ?p, pd_body ?p)]"] exI [of _ "signalListId ?t"]
          exI [of _ "rt_list ?t"])
        (simp_all add: samples_append [of _ _ _ _ "s_listId st" "s_seqNo st"] stream_end_append data_pdo_def t'
          scatter_gather)
  qed
  moreover have "tail_inv ?S" using I(3) M by (simp add: tail_inv_def data_pdo_def t')
  ultimately show ?thesis
    using inv I(1,2) sys_inv_seqNo [OF D(1)] by (simp add: shm_inv_def t')
qed

section \<open>Subscribers and replay\<close>

lemma subscribe_frame:
  assumes "Task_subscribe i sid ins t r = Some (b, t', r')"
  shows "signals t' = signals t" and "length (slots r') = length (slots r)"
  using assms
  by (auto simp: Task_subscribe_def Task_publish_def Let_def ring_scratch_def ring_publish_def split: if_splits)

lemma process_frame:
  assumes "Task_processSignalList t r = (t', r')"
  shows "signals t' = signals t" and "slots r' = slots r" and "seqNo t' = seqNo t"
  using assms
  by (auto simp: Task_processSignalList_def Let_def ring_advance_def split: sl_action.splits)

lemma shm_inv_sub:
  assumes inv: "shm_inv S" and i: "i < length (shm_signals S)"
    and sub: "Task_subscribe i sid ins (nrt (shm_sys S)) (ring (shm_sys S)) = Some (b, t', r')"
  shows "shm_inv (S\<lparr>shm_sys := (shm_sys S)\<lparr>nrt := t', ring := r'\<rparr>\<rparr>)" (is "shm_inv ?S")
proof -
  note D = shm_invD [OF inv] and F = subscribe_frame [OF sub]
  have "reader_inv ?S st" if "reader S = Some st" for st
    by (rule reader_inv_cong [OF D(8) [OF that]]) (simp_all add: F(1))
  then show ?thesis
    using inv sys_inv_sub [OF D(1) i sub] F
    by (simp add: shm_inv_def tail_inv_def addressed_def task_width_def total_bytes_def)
qed

lemma shm_inv_replay:
  assumes inv: "shm_inv S" and ph: "phase S = Draining"
    and ne: "ring_rp (ring (shm_sys S)) \<noteq> ring_wp (ring (shm_sys S))"
    and pr: "Task_processSignalList (rt (shm_sys S)) (ring (shm_sys S)) = (t', r')"
  shows "shm_inv (S\<lparr>shm_sys := (shm_sys S)\<lparr>rt := t', ring := r'\<rparr>\<rparr>)" (is "shm_inv ?S")
proof -
  note D = shm_invD [OF inv] and F = process_frame [OF pr]
  have "reader_inv ?S st" if "reader S = Some st" for st
    by (rule reader_inv_cong [OF D(8) [OF that]]) (simp_all add: F(3) ph)
  then show ?thesis
    using inv sys_inv_replay [OF D(1) ne] pr F(2) by (simp add: shm_inv_def tail_inv_def ph)
qed

lemma shm_inv_phase:
  assumes "shm_inv S" and "ph \<noteq> Idle" and "ph = Copying \<Longrightarrow> phase S = Idle"
  shows "shm_inv (S\<lparr>phase := ph\<rparr>)"
proof -
  have "reader_inv (S\<lparr>phase := ph\<rparr>) st" if "reader S = Some st" for st
    by (rule reader_inv_cong [OF shm_invD(8) [OF assms(1) that]]) (use assms(2,3) in auto)
  with assms(1,2) show ?thesis by (simp add: shm_inv_def tail_inv_def)
qed

lemma shm_inv_reader_view:
  assumes "shm_inv S" and "reader_inv S st"
  shows "shm_inv (S\<lparr>reader := Some st\<rparr>)"
  using assms by (auto simp: shm_inv_def tail_inv_def intro: reader_inv_cong)

lemma shm_inv_session_sub:
  assumes inv: "shm_inv S" and st: "reader S = Some st" and j: "j < length (shm_signals S)"
    and sub: "SessionTaskData_subscribe j sid st (nrt (shm_sys S)) (ring (shm_sys S)) = Some (st', t', r')"
  shows "shm_inv (S\<lparr>shm_sys := (shm_sys S)\<lparr>nrt := t', ring := r'\<rparr>, reader := Some st'\<rparr>)"
proof -
  have sess: "reader_inv S st'" if "reader_inv S st" for S
    by (rule reader_inv_view [OF that])
      (use sub in \<open>auto simp: SessionTaskData_subscribe_def Let_def split: if_splits option.splits\<close>)
  have "shm_inv (S\<lparr>shm_sys := (shm_sys S)\<lparr>nrt := t', ring := r'\<rparr>\<rparr>)" (is "shm_inv ?S")
  proof (cases "j \<in> activeSet st \<or> j \<in> subscribedSet st")
    case True
    with sub have "t' = nrt (shm_sys S)" "r' = ring (shm_sys S)"
      by (auto simp: SessionTaskData_subscribe_def Let_def split: if_splits)
    with inv show ?thesis by simp
  next
    case False
    with sub obtain b where "Task_subscribe j sid True (nrt (shm_sys S)) (ring (shm_sys S)) = Some (b, t', r')"
      by (auto simp: SessionTaskData_subscribe_def Let_def split: option.splits)
    with shm_inv_sub [OF inv j] show ?thesis by blast
  qed
  moreover from this have "reader_inv ?S st'" using sess shm_invD(8) st by simp
  ultimately show ?thesis using shm_inv_reader_view by fastforce
qed

lemma shm_inv_session_unsub:
  assumes inv: "shm_inv S" and st: "reader S = Some st" and j: "j < length (shm_signals S)"
    and sub: "SessionTaskData_unsubscribe j sid st (nrt (shm_sys S)) (ring (shm_sys S)) = Some (st', t', r')"
  shows "shm_inv (S\<lparr>shm_sys := (shm_sys S)\<lparr>nrt := t', ring := r'\<rparr>, reader := Some st'\<rparr>)"
proof -
  have sess: "reader_inv S st'" if "reader_inv S st" for S
    by (rule reader_inv_view [OF that])
      (use sub in \<open>auto simp: SessionTaskData_unsubscribe_def Let_def split: if_splits option.splits\<close>)
  have "shm_inv (S\<lparr>shm_sys := (shm_sys S)\<lparr>nrt := t', ring := r'\<rparr>\<rparr>)" (is "shm_inv ?S")
  proof (cases "j \<in> subscribedSet st")
    case False
    with sub have "t' = nrt (shm_sys S)" "r' = ring (shm_sys S)" by (simp_all add: SessionTaskData_unsubscribe_def)
    with inv show ?thesis by simp
  next
    case True
    with sub obtain b where "Task_subscribe j sid False (nrt (shm_sys S)) (ring (shm_sys S)) = Some (b, t', r')"
      by (auto simp: SessionTaskData_unsubscribe_def Let_def)
    with shm_inv_sub [OF inv j] show ?thesis by blast
  qed
  moreover from this have "reader_inv ?S st'" using sess shm_invD(8) st by simp
  ultimately show ?thesis using shm_inv_reader_view by fastforce
qed

section \<open>Attaching and receiving\<close>

lemma catch_up_tail: "catch_up m b e a = Some c \<Longrightarrow> \<exists>p. m c = Some p \<and> pd_next p = 0"
  by (rule catch_up.raw_induct [where P = "\<lambda>m b e a c. \<exists>p. m c = Some p \<and> pd_next p = 0"])
    (auto split: option.splits if_splits)

lemma getSignalList_nrt:
  assumes "sys_inv s"
  shows "fst (Task_getSignalList (nrt s) (ring s)) = nrt_list (nrt s)"
    and "snd (snd (Task_getSignalList (nrt s) (ring s))) = signalListId (nrt s)"
proof -
  from assms have N: "nrt_inv (nrt s)" by (simp add: sys_inv_def)
  have "map (\<lambda>j. signalCopyList (nrt s) ! (signalCopyBase (nrt s) i + j)) [0..<signalTypeCount (nrt s) i] = nrt_segs (nrt s) i"
    for i
    using nrt_segs_length [OF N, of i] by (intro nth_equalityI) (auto simp: nrt_segs_def nth_slice)
  then show "fst (Task_getSignalList (nrt s) (ring s)) = nrt_list (nrt s)"
    by (simp add: Task_getSignalList_def nrt_list_def)
  show "snd (snd (Task_getSignalList (nrt s) (ring s))) = signalListId (nrt s)"
    using assms by (simp add: Task_getSignalList_def sys_inv_def)
qed

lemma ids_equal_caught_up:
  assumes "sys_inv s" and "length (slots (ring s)) < 2 ^ 32" and "signalListId (rt s) = signalListId (nrt s)"
  shows "ring_rp (ring s) = ring_wp (ring s)"
proof -
  from assms(1) have r: "ring_inv (ring s)" by (simp add: sys_inv_def)
  have "(of_nat (ring_count (ring s)) :: u32) = 0"
    using assms(1,3) by (simp add: sys_inv_def list_ids_ok_def pending_def)
  then have "2 ^ 32 dvd ring_count (ring s)" by (simp add: word_of_nat_eq_0_iff)
  moreover have "ring_count (ring s) < 2 ^ 32" using ring_count_less [OF r] assms(2) by simp
  ultimately have "ring_count (ring s) = 0" using dvd_imp_le by fastforce
  then show ?thesis using ring_empty_iff [OF r] by (simp add: pending_def)
qed

lemma shm_inv_attach:
  assumes inv: "shm_inv S" and ph: "phase S = Idle"
    and ctor: "SessionTaskData_ctor (nrt (shm_sys S)) (ring (shm_sys S)) (shm_tx S) (shm_mem S) = Some st"
  shows "shm_inv (S\<lparr>reader := Some st, sent := [], rcvd := []\<rparr>)" (is "shm_inv ?S")
proof -
  note D = shm_invD [OF inv] and G = getSignalList_nrt [OF shm_invD(1) [OF inv]]
  let ?t = "nrt (shm_sys S)" and ?r = "ring (shm_sys S)" and ?m = "shm_mem S"
  let ?st0 = "SessionTaskData_new ?t (txMemBegin (shm_tx S)) (txMemEnd (shm_tx S))"
  let ?sub = "\<lambda>j. subscriptionId (subs ?t ! j)"
  from ctor obtain a where a: "catch_up ?m (txMemBegin (shm_tx S)) (txMemEnd (shm_tx S)) (txMemBegin (shm_tx S)) = Some a"
    by (auto simp: SessionTaskData_ctor_def SessionTaskData_init_def SessionTaskData_new_def split: option.splits)
  then obtain p where p: "?m a = Some p" "pd_next p = 0" by (blast dest: catch_up_tail)
  from tx_inv_tail [OF D(5) p] have tail: "nextTxPdo (shm_tx S) = Some a" .
  with inv ph p(1) obtain tm ts d where body: "pd_body p = DataPdo (seqNo (rt (shm_sys S)) - 1) tm ts d"
    and id: "pd_listId p = signalListId (rt (shm_sys S))"
    by (auto simp: shm_inv_def tail_inv_def)
  have wait: "await_data ?m a = Some a" by (subst await_data.simps) (simp add: p(1) body)
  let ?st1 = "?st0\<lparr>s_pdo := a, s_seqNo := seqNo (rt (shm_sys S)) - 1\<rparr>"
  have st: "signalListId (rt (shm_sys S)) = signalListId ?t \<and>
      st = loadSignalList ?sub (shm_signals S) (nrt_list ?t) (signalListId ?t) ?st1"
    using ctor a wait p body id G
    by (auto simp: SessionTaskData_ctor_def SessionTaskData_init_def init_round_def SessionTaskData_new_def Let_def
        case_prod_beta split: if_splits)
  with ids_equal_caught_up [OF D(1)] inv have "ring_rp ?r = ring_wp ?r" by (simp add: shm_inv_def)
  from sys_inv_caught_up(2) [OF D(1) this] have same: "rt_list (rt (shm_sys S)) = nrt_list ?t"
    by (simp add: rt_list_def nrt_list_def)
  have "positions_ok (shm_signals S) (nrt_list ?t) st"
    using st rt_list_distinct [OF D(2)] rt_list_set [OF D(2)] same D(4) indexed_nrt [OF D(1)]
    by (simp, intro loadSignalList_positions) (auto simp: SessionTaskData_new_def)
  then have "synced (shm_signals S) ?m st (nrt_list ?t) []"
    using st p by (simp add: synced_def)
  then have "reader_inv ?S st"
    unfolding reader_inv_def using st tail same
    by (intro conjI exI [of _ "nrt_list ?t"] exI [of _ "[]"] exI [of _ "signalListId ?t"])
      (simp_all add: SessionTaskData_new_def)
  then show ?thesis using inv by (simp add: shm_inv_def tail_inv_def)
qed

text \<open>A reader in the invariant never gets out of step: \<open>rxPdo\<close> returns the first sample on its way.\<close>

lemma rxPdo_in_step:
  assumes inv: "shm_inv S" and st: "reader S = Some st"
  shows "\<exists>res st'. SessionTaskData_rxPdo (nrt (shm_sys S)) (ring (shm_sys S)) (shm_mem S) st = Some (res, st') \<and>
    reader_inv (S\<lparr>reader := Some st',
      rcvd := rcvd S @ (if res then [session_sample (shm_mem S) (shm_signals S) st'] else [])\<rparr>) st' \<and>
    (\<not> res \<longrightarrow> sent S = rcvd S)"
proof -
  note D = shm_invD [OF inv]
  let ?sub = "\<lambda>j. subscriptionId (subs (nrt (shm_sys S)) ! j)"
  from D(8) [OF st] obtain js cs l js2 where R: "s_memBegin st = txMemBegin (shm_tx S)" "s_memEnd st = txMemEnd (shm_tx S)"
      "synced (shm_signals S) (shm_mem S) st js cs" "nextTxPdo (shm_tx S) = Some (last (s_pdo st # map fst cs))"
      "sent S = rcvd S @ samples (shm_signals S) js cs"
      "stream_end (s_listId st) (s_seqNo st) js cs = (l, seqNo (rt (shm_sys S)) - 1, js2)"
      "phase S \<in> {Idle, Copying} \<longrightarrow> l = signalListId (rt (shm_sys S)) \<and> js2 = rt_list (rt (shm_sys S))"
    unfolding reader_inv_def by blast
  from rx_loop_synced [OF indexed_nrt [OF D(1)] R(3), of ?sub] obtain res st' js' cs' where
    X: "rx_loop ?sub (shm_signals S) (shm_mem S) st = Some (res, st')"
      "rx_effect (shm_signals S) (shm_mem S) st js cs res st' js' cs'" by blast
  have mem: "s_memBegin st' = s_memBegin st" "s_memEnd st' = s_memEnd st"
    using X(2) by (simp_all add: rx_effect_def)
  from X(2) have res: "res = RxData \<or> res = RxNone" by (auto simp: rx_effect_def)
  have rx: "SessionTaskData_rxPdo (nrt (shm_sys S)) (ring (shm_sys S)) (shm_mem S) st = Some (res = RxData, st')"
    using X(1) res by (auto simp: SessionTaskData_rxPdo_def)
  have "reader_inv (S\<lparr>reader := Some st',
      rcvd := rcvd S @ (if res = RxData then [session_sample (shm_mem S) (shm_signals S) st'] else [])\<rparr>) st'"
    unfolding reader_inv_def using R X(2) mem
    by (intro conjI exI [of _ js'] exI [of _ cs'] exI [of _ l] exI [of _ js2]) (auto simp: rx_effect_def)
  moreover have "res \<noteq> RxData \<longrightarrow> sent S = rcvd S" using R(5) X(2) by (auto simp: rx_effect_def)
  ultimately show ?thesis using rx by blast
qed

lemma shm_inv_receive:
  assumes "shm_inv S" and "reader S = Some st"
    and "SessionTaskData_rxPdo (nrt (shm_sys S)) (ring (shm_sys S)) (shm_mem S) st = Some (res, st')"
  shows "shm_inv (S\<lparr>reader := Some st',
       rcvd := rcvd S @ (if res then [session_sample (shm_mem S) (shm_signals S) st'] else [])\<rparr>)"
  using rxPdo_in_step [OF assms(1,2)] assms(1,3) by (auto simp: shm_inv_def tail_inv_def)

lemma shm_inv_start:
  assumes "registered t" and "signals t \<noteq> []" and "addressed t" and "length (signals t) < 2 ^ 31"
    and "tx_room (task_width t) x" and "tx_inv (task_width t) x Map.empty"
  shows "shm_inv (shm_start t x)"
proof -
  have "signals (nrt (sys_start t)) = signals t" by (simp add: sys_start_def Task_nrt_init_def)
  moreover have "length (slots (ring (sys_start t))) < 2 ^ 32"
    using assms(4) by (simp add: sys_start_def empty_ring_def)
  moreover have "tail_inv (shm_start t x)"
    using assms(6) by (cases "nextTxPdo x") (auto simp: tail_inv_def shm_start_def tx_inv_def)
  ultimately show ?thesis
    using assms sys_inv_start [OF assms(1,2)]
    by (simp add: shm_inv_def addressed_def task_width_def total_bytes_def) (simp add: shm_start_def)
qed

lemma shm_reachable_inv: "shm_reachable S \<Longrightarrow> shm_inv S"
proof (induction rule: shm_reachable.induct)
  case (start t x)
  then show ?case by (rule shm_inv_start)
next
  case (step S S')
  from step.hyps(2) step.IH show ?case
  proof cases
    case (other_sub i sid ins b t' r')
    with step.IH show ?thesis by (simp add: shm_inv_sub)
  next
    case (session_sub st j sid st' t' r')
    with step.IH shm_inv_session_sub show ?thesis by blast
  next
    case (session_unsub st j sid st' t' r')
    with step.IH shm_inv_session_unsub show ?thesis by blast
  next
    case (rt_list x' m' a)
    with step.IH shm_inv_list show ?thesis by blast
  next
    case (rt_data src now t' x' m' a)
    with step.IH shm_inv_data show ?thesis by blast
  next
    case (attach st)
    with step.IH shm_inv_attach show ?thesis by blast
  next
    case (detach st)
    with step.IH show ?thesis by (simp add: shm_inv_def tail_inv_def)
  next
    case (receive st res st')
    with step.IH shm_inv_receive show ?thesis by blast
  qed (auto intro!: shm_inv_phase shm_inv_replay)
qed

section \<open>Properties\<close>

text \<open>
  Property C6 (stream_delivery): in a region with room for three of the largest Pdos (\<open>tx_room\<close>, which \<open>getShmemSpace\<close> and
  \<open>prepare\<close> give: \<open>prepare_gives_room\<close>), whatever the interleaving of the real-time task, the subscribers and
  the session, as long as no Pdo is overwritten that the session has still to read, the session
  receives exactly the samples the task took since the session was attached, in order, without loss
  or repetition, each with its time and the bytes of every transferred signal; \<open>rxPdo\<close> always
  returns, with the next sample if there is one and false otherwise.
\<close>

theorem stream_delivery:
  assumes "shm_reachable S" and "reader S = Some st"
  shows "\<exists>rest. sent S = rcvd S @ rest \<and>
    (\<exists>res st'. SessionTaskData_rxPdo (nrt (shm_sys S)) (ring (shm_sys S)) (shm_mem S) st = Some (res, st') \<and>
       (case rest of [] \<Rightarrow> \<not> res | x # _ \<Rightarrow> res \<and> session_sample (shm_mem S) (shm_signals S) st' = x))"
proof -
  note inv = shm_reachable_inv [OF assms(1)]
  obtain rest where rest: "sent S = rcvd S @ rest"
    using shm_invD(8) [OF inv assms(2)] by (auto simp: reader_inv_def)
  from rxPdo_in_step [OF inv assms(2)] obtain res st' where
    X: "SessionTaskData_rxPdo (nrt (shm_sys S)) (ring (shm_sys S)) (shm_mem S) st = Some (res, st')"
      "reader_inv (S\<lparr>reader := Some st',
        rcvd := rcvd S @ (if res then [session_sample (shm_mem S) (shm_signals S) st'] else [])\<rparr>) st'"
      "\<not> res \<longrightarrow> sent S = rcvd S"
    by blast
  from X(2) obtain rest' where "sent S = (rcvd S @ (if res then [session_sample (shm_mem S) (shm_signals S) st'] else [])) @ rest'"
    by (auto simp: reader_inv_def)
  with rest X(3) have "case rest of [] \<Rightarrow> \<not> res | x # _ \<Rightarrow> res \<and> session_sample (shm_mem S) (shm_signals S) st' = x"
    by (cases rest) (auto split: if_splits)
  with rest X(1) show ?thesis by blast
qed

text \<open>
  A writer of a Pdo has done its work without destroying the list: the new Pdo lies inside the region and ends the
  list, and the Pdo written before is still there, unchanged but for its \<open>next\<close> pointer, which leads to the new one.
\<close>

definition appended :: "tx \<Rightarrow> pmem \<Rightarrow> tx \<Rightarrow> pmem \<Rightarrow> bool" where
  "appended x m x' m' \<longleftrightarrow>
     (\<exists>a p. nextTxPdo x' = Some a \<and> m' a = Some p \<and> pd_next p = 0 \<and> txMemBegin x \<le> a \<and> pdo_end a p < txMemEnd x \<and>
        (\<forall>b. nextTxPdo x = Some b \<longrightarrow> (\<exists>q. m b = Some q \<and> m' b = Some (q\<lparr>pd_next := a\<rparr>))))"

lemma tx_publish_appended:
  assumes inv: "tx_inv W x m" and room: "tx_room W x" and w: "body_bytes (pd_body p) \<le> W"
    and a: "a = tx_alloc (body_bytes (pd_body p)) x" and pub: "tx_publish a p x m = (x', m')" and n: "pd_next p = 0"
  shows "appended x m x' m'"
proof -
  note M = tx_publish_mem [OF inv room refl w a pub] and B = tx_alloc_bounds [OF inv room w, folded a]
  have "\<exists>q. m b = Some q \<and> m' b = Some (q\<lparr>pd_next := a\<rparr>)" if b: "nextTxPdo x = Some b" for b
  proof -
    from inv b obtain q where q: "m b = Some q" by (auto simp: tx_inv_def)
    have "spares m a (pdo_end a p) b" using B(3) [OF b] by (simp add: pdo_end_def)
    from M(2) [OF this] b q show ?thesis by simp
  qed
  moreover have "pdo_end a p < txMemEnd x" using B(2) by (simp add: pdo_end_def)
  ultimately show ?thesis
    using M(1) B(1) n tx_publish_inv(3) [OF inv room refl w a pub n] unfolding appended_def by blast
qed

lemma shm_writers_append:
  assumes "shm_inv S"
  shows "\<exists>x' m'. Task_calculateCopyList (rt (shm_sys S)) (shm_tx S) (shm_mem S) = Some (x', m') \<and>
      appended (shm_tx S) (shm_mem S) x' m'"
    and "\<exists>t' x' m'. Task_copyData src now (rt (shm_sys S)) (shm_tx S) (shm_mem S) = Some (t', x', m') \<and>
      appended (shm_tx S) (shm_mem S) x' m'"
proof -
  note D = shm_invD [OF assms]
  let ?t = "rt (shm_sys S)" and ?W = "task_width (nrt (shm_sys S))" and ?x = "shm_tx S" and ?m = "shm_mem S"
  obtain x1 m1 where P: "tx_publish (tx_alloc (body_bytes (pd_body (list_pdo ?t))) ?x) (list_pdo ?t) ?x ?m = (x1, m1)"
    by force
  have w: "body_bytes (pd_body (list_pdo ?t)) \<le> ?W" using rt_width(1) [OF D(2)] D(7) by simp
  from tx_publish_appended [OF D(5,6) w refl P]
  show "\<exists>x' m'. Task_calculateCopyList ?t ?x ?m = Some (x', m') \<and> appended ?x ?m x' m'"
    using calculateCopyList_eq [OF D(2,3), of ?x ?m] P by (simp add: list_pdo_def)
  define a where "a = tx_alloc (body_bytes (pd_body (data_pdo src now ?x ?t))) ?x"
  let ?y = "?x\<lparr>tx_time := a\<rparr>"
  obtain x2 m2 where Q: "tx_publish a (data_pdo src now ?x ?t) ?y ?m = (x2, m2)" by force
  have w: "body_bytes (pd_body (data_pdo src now ?x ?t)) \<le> ?W" using rt_width(2) [OF D(2)] D(7) by simp
  have i: "tx_inv ?W ?y ?m" "tx_room ?W ?y" "a = tx_alloc (body_bytes (pd_body (data_pdo src now ?x ?t))) ?y"
    using D(5,6) by (simp_all add: tx_inv_def tx_room_def tx_alloc_def a_def cong: option.case_cong)
  have "appended ?y ?m x2 m2" by (rule tx_publish_appended [OF i(1,2) w i(3) Q]) (simp add: data_pdo_def)
  then have "appended ?x ?m x2 m2" by (simp add: appended_def)
  then show "\<exists>t' x' m'. Task_copyData src now ?t ?x ?m = Some (t', x', m') \<and> appended ?x ?m x' m'"
    using copyData_eq [OF D(2,3), of src now ?x ?m] Q by (simp add: a_def Let_def)
qed

lemma step_region:
  "shm_step S S' \<Longrightarrow> txMemBegin (shm_tx S') = txMemBegin (shm_tx S) \<and> txMemEnd (shm_tx S') = txMemEnd (shm_tx S)"
  by (erule shm_step.cases)
    (auto simp: Task_calculateCopyList_def Task_copyData_def tx_publish_def Let_def)

lemma shm_run_region:
  "shm_run t x S \<Longrightarrow> txMemBegin (shm_tx S) = txMemBegin x \<and> txMemEnd (shm_tx S) = txMemEnd x"
  by (induction rule: shm_run.induct) (auto simp: shm_start_def dest: step_region)

text \<open>
  With the memory that \<open>getShmemSpace\<close> computes and \<open>prepare\<close> divides, a run is one of those above, provided that the
  signals have at least 8/3 bytes on average.
\<close>

lemma shm_run_reachable:
  assumes "registered t" and "signals t \<noteq> []" and "addressed t" and "length (signals t) < 2 ^ 31"
    and "0 < shmem" and "ptr_size dvd shmem" and "sizeof_size_t * length (signals t) \<le> 3 * total_bytes t"
    and "x = snd (Task_prepare shmem (shmem + ptr_align (Task_getShmemSpace q t)) t)"
    and "shm_run t x S"
  shows "shm_reachable S"
  using assms(9)
proof (induction rule: shm_run.induct)
  case start
  from prepare_room [OF assms(1,5,6,7,8)] assms(1-4) show ?case by (intro shm_reachable.start) blast+
next
  case (step S S')
  then show ?case by (blast intro: shm_reachable.step)
qed

text \<open>
  Property C7 (rt_update_publishes): in the memory that \<open>getShmemSpace\<close> and \<open>prepare\<close> provide, for a task whose signals have
  addresses and at least 8/3 bytes on average (without that the list can be destroyed, see
  \<open>small_region_corrupts_list\<close>), in every state that the real-time task, subscribers and sessions reach
  one call of \<open>rt_update\<close> returns; the Pdo it leaves at the end of the list lies inside the region of the task,
  carries the next sequence number, the list id and the current bytes of exactly the subscribed signals.
\<close>

theorem rt_update_publishes:
  assumes "registered t" and "signals t \<noteq> []" and "addressed t" and "length (signals t) < 2 ^ 31"
    and "0 < shmem" and "ptr_size dvd shmem" and "sizeof_size_t * length (signals t) \<le> 3 * total_bytes t"
    and "x = snd (Task_prepare shmem (shmem + ptr_align (Task_getShmemSpace q t)) t)"
    and "shm_run t x S" and "s = shm_sys S"
  shows "\<exists>t' r' x' m' a p. Task_rt_update src now (rt s) (ring s) (shm_tx S) (shm_mem S) = Some (t', r', x', m') \<and>
    ring_rp r' = ring_wp r' \<and> nextTxPdo x' = Some a \<and> m' a = Some p \<and> pd_next p = 0 \<and>
    txMemBegin x \<le> a \<and> pdo_end a p < txMemEnd x \<and> pd_listId p = signalListId (nrt s) \<and>
    pd_seqNo (pd_body p) = seqNo (rt s) \<and> seqNo t' = seqNo (rt s) + 1 \<and>
    pd_data (pd_body p) = gather src (signals (nrt s)) (nrt_list (nrt s))"
proof -
  note D = shm_invD [OF shm_reachable_inv [OF shm_run_reachable [OF assms(1-9)]]]
  have ad: "addressed (nrt (shm_sys S))" using D(3,4) by (simp add: addressed_def)
  from rt_update_effect [OF D(1) ad refl D(5,6), of src now] obtain t' r' x' m' a p where
    U: "Task_rt_update src now (rt s) (ring s) (shm_tx S) (shm_mem S) = Some (t', r', x', m')"
      "ring_rp r' = ring_wp r'" "tx_inv (task_width (nrt s)) x' m'" "nextTxPdo x' = Some a" "m' a = Some p"
      "txMemBegin x' \<le> a" "pdo_end a p < txMemEnd x'" "pd_listId p = signalListId (nrt s)"
      "pd_seqNo (pd_body p) = seqNo (rt s)" "seqNo t' = seqNo (rt s) + 1"
      "pd_data (pd_body p) = gather src (signals (nrt s)) (nrt_list (nrt s))"
    unfolding assms(10) by blast
  have "txMemBegin x' = txMemBegin x" "txMemEnd x' = txMemEnd x"
    using U(1) shm_run_region [OF assms(9)]
    by (auto simp: Task_rt_update_def Task_calculateCopyList_def Task_copyData_def tx_publish_def Let_def
        split: if_splits option.splits)
  moreover have "pd_next p = 0" using U(3-5) by (auto simp: tx_inv_def)
  ultimately show ?thesis
    using U by (intro exI [of _ t'] exI [of _ r'] exI [of _ x'] exI [of _ m'] exI [of _ a] exI [of _ p]) simp
qed

text \<open>
  Property C8 (stream_memory_safe): in the memory that \<open>getShmemSpace\<close> and \<open>prepare\<close> provide, for a task whose signals have addresses and at
  least 8/3 bytes on average, and whatever the subscribers and sessions do or miss: all Pdos lie inside the region of the
  task, and both functions that write Pdos, the one for signal lists and the one for data, return, place
  their Pdo inside the region and never overwrite the one written before, whose \<open>next\<close> pointer they set.
\<close>

theorem stream_memory_safe:
  assumes "registered t" and "signals t \<noteq> []" and "addressed t" and "length (signals t) < 2 ^ 31"
    and "0 < shmem" and "ptr_size dvd shmem" and "sizeof_size_t * length (signals t) \<le> 3 * total_bytes t"
    and "x = snd (Task_prepare shmem (shmem + ptr_align (Task_getShmemSpace q t)) t)"
    and "shm_run t x S"
  shows "(\<forall>a p. shm_mem S a = Some p \<longrightarrow> txMemBegin x \<le> a \<and> pdo_end a p < txMemEnd x) \<and>
    (\<exists>x' m'. Task_calculateCopyList (rt (shm_sys S)) (shm_tx S) (shm_mem S) = Some (x', m') \<and>
       appended (shm_tx S) (shm_mem S) x' m') \<and>
    (\<exists>t' x' m'. Task_copyData src now (rt (shm_sys S)) (shm_tx S) (shm_mem S) = Some (t', x', m') \<and>
       appended (shm_tx S) (shm_mem S) x' m')"
proof -
  note inv = shm_reachable_inv [OF shm_run_reachable [OF assms]]
  have "\<forall>a p. shm_mem S a = Some p \<longrightarrow> txMemBegin x \<le> a \<and> pdo_end a p < txMemEnd x"
    using tx_inv_range [OF shm_invD(5) [OF inv]] shm_run_region [OF assms(9)] by auto
  then show ?thesis using shm_writers_append [OF inv] by blast
qed

text \<open>
  A reader that looks for its starting point while a change of the list is on its way finds a data
  Pdo with an older list id and stays there: the second loop of \<open>init\<close> does not advance from a
  data Pdo, whatever is linked behind it.
\<close>

lemma init_stays_on_data:
  assumes "m a = Some p" and "pd_body p = DataPdo sq tm ts d"
    and "pd_listId p \<noteq> snd (snd (Task_getSignalList t r))"
  shows "init_round t r m a = Some (a, False)"
  using assms by (simp add: init_round_def case_prod_beta await_data.simps [of m a])

section \<open>A concrete run\<close>

text \<open>
  The two signals of \<open>ex_task\<close> in a region of 944 bytes: session 7 subscribes to the second one, the
  task replays the command and writes a signal list and a data Pdo, a session attaches, and the task
  writes another data Pdo.
\<close>


definition ex_src :: "nat \<Rightarrow> u8" where
  "ex_src a = of_nat a"

definition ex_x :: "nat \<Rightarrow> nat option \<Rightarrow> nat \<Rightarrow> tx" where
  "ex_x p n tm = \<lparr>taskStatistics = \<lparr>exec_time = 0, cycle_time = 0, overrun = 0\<rparr>, txMemBegin = 4208, txMemEnd = 5152,
    txPdo = p, nextTxPdo = n, tx_time = tm\<rparr>"

lemma ex_tx_eq: "ex_tx = ex_x 4208 None 0"
  by (simp add: ex_tx_def Task_prepare_def Task_getShmemSpace_def ex_x_def ex_eval Let_def ptr_align_def ptr_size_def
    sizeof_SignalList_def sizeof_Pdo_def)

definition ex_p1 :: "nat \<Rightarrow> pdo" where
  "ex_p1 n = \<lparr>pd_listId = 1, pd_count = 1, pd_next = n, pd_body = SignalListPdo [1]\<rparr>"

definition ex_p2 :: "u32 \<Rightarrow> nat \<Rightarrow> pdo" where
  "ex_p2 q n = \<lparr>pd_listId = 1, pd_count = 6, pd_next = n, pd_body = DataPdo q (0,0)
    \<lparr>exec_time = 0, cycle_time = 0, overrun = 0\<rparr> [0,1,2,3,4,5]\<rparr>"

lemmas ex_pdo = ex_p1_def ex_p2_def ex_x_def ex_src_def tx_publish_def tx_link_def pdo_put_def clobber_def pdo_end_def
  pdo_header_def sizeof_size_t_def tx_alloc_def ptr_align_def ptr_size_def

lemma ex_seg: "rt_segs (rt ex_sys2) = (\<lambda>w. if w = 2 then [1] else [])"
  by (rule ext) (simp add: ex_eval)

lemma ex_list: "list_pdo (rt ex_sys2) = ex_p1 0"
  unfolding list_pdo_def rt_list_def ex_seg upt4 by (simp add: ex_p1_def) (simp add: ex_eval)

lemma ex_data: "data_pdo ex_src None (ex_x p n tm) ((rt ex_sys2)\<lparr>seqNo := q\<rparr>) = ex_p2 q 0"
  unfolding data_pdo_def rt_list_def rt_views_seqNo(1) ex_seg upt4
  by (simp add: ex_p2_def) (simp add: ex_eval ex_x_def gather_def read_bytes_def ex_src_def upt_numeral_unfold)

lemma ex_rt: "rt_inv (rt ex_sys2)" "addressed (rt ex_sys2)"
  using reachable_inv [OF ex_sys2_reachable] by (simp_all add: sys_inv_def addressed_def ex_eval)

lemma ex_calc: "Task_calculateCopyList (rt ex_sys2) ex_tx Map.empty = Some (ex_x 4288 (Some 4208) 0, [4208 \<mapsto> ex_p1 0])"
  unfolding calculateCopyList_eq [OF ex_rt] ex_list ex_tx_eq
  by (simp add: ex_pdo fun_eq_iff)

lemma ex_rt_seq: "rt_inv ((rt ex_sys2)\<lparr>seqNo := q\<rparr>)" "addressed ((rt ex_sys2)\<lparr>seqNo := q\<rparr>)"
  using ex_rt by (simp_all add: addressed_def)

definition ex_m2 :: pmem where
  "ex_m2 = [4208 \<mapsto> ex_p1 4288, 4288 \<mapsto> ex_p2 0 0]"

definition ex_m3 :: pmem where
  "ex_m3 = [4208 \<mapsto> ex_p1 4288, 4288 \<mapsto> ex_p2 0 4368, 4368 \<mapsto> ex_p2 1 0]"

lemma ex_copy1: "Task_copyData ex_src None (rt ex_sys2) (ex_x 4288 (Some 4208) 0) [4208 \<mapsto> ex_p1 0]
   = Some ((rt ex_sys2)\<lparr>seqNo := 1\<rparr>, ex_x 4368 (Some 4288) 4288, ex_m2)"
proof -
  have "seqNo (rt ex_sys2) = 0" by (simp add: ex_eval)
  then have t: "rt ex_sys2 = (rt ex_sys2)\<lparr>seqNo := 0\<rparr>" by simp
  show ?thesis
    by (subst t, subst copyData_eq [OF ex_rt_seq], simp only: ex_data Let_def, simp add: ex_pdo ex_m2_def)
      (auto simp: fun_eq_iff ex_pdo)
qed

lemma ex_copy2: "Task_copyData ex_src None ((rt ex_sys2)\<lparr>seqNo := 1\<rparr>) (ex_x 4368 (Some 4288) 4288) ex_m2
   = Some ((rt ex_sys2)\<lparr>seqNo := 2\<rparr>, ex_x 4448 (Some 4368) 4368, ex_m3)"
  by (subst copyData_eq [OF ex_rt_seq], simp only: ex_data Let_def, simp add: ex_pdo ex_m2_def ex_m3_def)
    (auto simp: fun_eq_iff ex_pdo)


definition ex_shm :: "sys \<Rightarrow> phase \<Rightarrow> tx \<Rightarrow> pmem \<Rightarrow> sess option \<Rightarrow> sample list \<Rightarrow> shm" where
  "ex_shm s ph x m st out = \<lparr>shm_sys = s, phase = ph, shm_tx = x, shm_mem = m, reader = st, sent = out, rcvd = []\<rparr>"

definition ex_sys3 :: "u32 \<Rightarrow> sys" where
  "ex_sys3 q = ex_sys2\<lparr>rt := (rt ex_sys2)\<lparr>seqNo := q\<rparr>\<rparr>"

definition ex_sample :: sample where
  "ex_sample = ((0, 0), sampled ex_src (signals ex_task) [1])"

lemma ex_rt_list: "rt_list ((rt ex_sys2)\<lparr>seqNo := q\<rparr>) = [1]" "rt_list (rt ex_sys2) = [1]"
  by (simp_all add: rt_list_def ex_seg upt4)

lemma ex_sys_sig: "signals (nrt ex_sys2) = signals ex_task"
  by (simp add: ex_eval)

lemma ex_attach:
  "\<exists>st. SessionTaskData_ctor (nrt ex_sys2) (ring ex_sys2) (ex_x 4368 (Some 4288) 4288) ex_m2 = Some st \<and> s_pdo st = 4288"
proof -
  have "catch_up ex_m2 4208 5152 4288 = Some 4288"
    by (subst catch_up.simps) (simp add: ex_m2_def ex_p2_def)
  then have c: "catch_up ex_m2 4208 5152 4208 = Some 4288"
    by (subst catch_up.simps) (simp add: ex_m2_def ex_p1_def)
  have w: "await_data ex_m2 4288 = Some 4288"
    by (subst await_data.simps) (simp add: ex_m2_def ex_p2_def)
  have g: "snd (snd (Task_getSignalList (nrt ex_sys2) (ring ex_sys2))) = 1"
    using getSignalList_nrt(2) [OF reachable_inv [OF ex_sys2_reachable]] by (simp add: ex_eval)
  have m: "ex_m2 4288 = Some (ex_p2 0 0)" by (simp add: ex_m2_def)
  show ?thesis
    unfolding SessionTaskData_ctor_def SessionTaskData_init_def
    by (simp add: SessionTaskData_new_def ex_x_def c init_round_def w m g case_prod_beta ex_p2_def)
qed

lemma ex_facts:
  "registered ex_task" "signals ex_task \<noteq> []" "addressed ex_task" "length (signals ex_task) < 2 ^ 31"
  "0 < (4096 :: nat)" "ptr_size dvd 4096" "sizeof_size_t * length (signals ex_task) \<le> 3 * total_bytes ex_task"
  "ex_tx = snd (Task_prepare 4096 (4096 + ptr_align (Task_getShmemSpace 0 ex_task)) ex_task)"
proof -
  show "registered ex_task" unfolding ex_task_def by (intro registered.intros)
qed (simp_all add: ex_eval addressed_def total_bytes_def list_bytes_def sizeof_size_t_def upt_numeral_unfold ptr_size_def ex_tx_def)

text \<open>The state after the first subscription, with the ring still full of the command.\<close>

lemma ex_run_subscribed: "shm_run ex_task ex_tx (ex_shm ex_sys1 Idle ex_tx Map.empty None [])"
proof -
  have "shm_run ex_task ex_tx (shm_start ex_task ex_tx)" by (rule shm_run.start)
  moreover obtain b t r where "Task_subscribe 1 7 True (nrt (sys_start ex_task)) (ring (sys_start ex_task)) = Some (b, t, r)"
    and "ex_sys1 = (sys_start ex_task)\<lparr>nrt := t, ring := r\<rparr>"
  proof (cases "Task_subscribe 1 7 True (nrt (sys_start ex_task)) (ring (sys_start ex_task))")
    case None
    then show thesis by (simp add: ex_eval)
  next
    case (Some x)
    with that show thesis by (cases x) (auto simp: ex_sys1_def sub_sys_def)
  qed
  moreover have "1 < length (signals (nrt (sys_start ex_task)))" by (simp add: ex_eval)
  ultimately show ?thesis
    using shm_run.step [OF _ shm_step.other_sub [of 1 "shm_start ex_task ex_tx" 7 True]]
    by (simp add: shm_start_def ex_shm_def)
qed

lemma ex_run_replayed: "shm_run ex_task ex_tx (ex_shm ex_sys2 Draining ex_tx Map.empty None [])"
proof -
  obtain t r where pr: "Task_processSignalList (rt ex_sys1) (ring ex_sys1) = (t, r)" by force
  then have s2: "ex_sys2 = ex_sys1\<lparr>rt := t, ring := r\<rparr>" by (simp add: ex_sys2_def replay_sys_def)
  have ne: "ring_rp (ring ex_sys1) \<noteq> ring_wp (ring ex_sys1)" by (simp add: ex_eval)
  then have "shm_run ex_task ex_tx (ex_shm ex_sys1 Draining ex_tx Map.empty None [])"
    using shm_run.step [OF ex_run_subscribed shm_step.rt_changes] by (simp add: ex_shm_def)
  from shm_run.step [OF this shm_step.rt_replay [of _ t r]] ne pr s2 show ?thesis by (simp add: ex_shm_def)
qed

lemma ex_run_listed:
  "shm_run ex_task ex_tx (ex_shm ex_sys2 Copying (ex_x 4288 (Some 4208) 0) [4208 \<mapsto> ex_p1 0] None [])"
proof -
  have "ring_rp (ring ex_sys2) = ring_wp (ring ex_sys2)" by (simp add: ex_eval)
  then have "shm_run ex_task ex_tx (ex_shm ex_sys2 Listing ex_tx Map.empty None [])"
    using shm_run.step [OF ex_run_replayed shm_step.rt_drained] by (simp add: ex_shm_def)
  from shm_run.step [OF this shm_step.rt_list [OF _ _ refl]] ex_calc show ?thesis
    by (simp add: ex_shm_def reader_spared_def)
qed

lemma ex_run_first: "shm_run ex_task ex_tx (ex_shm (ex_sys3 1) Idle (ex_x 4368 (Some 4288) 4288) ex_m2 None [ex_sample])"
proof -
  let ?S = "ex_shm ex_sys2 Copying (ex_x 4288 (Some 4208) 0) [4208 \<mapsto> ex_p1 0] None []"
  from shm_run.step [OF ex_run_listed shm_step.rt_data [of ?S ex_src None, OF _ _ refl]] ex_copy1
  show ?thesis
    by (simp add: ex_shm_def reader_spared_def ex_sys3_def ex_sample_def ex_rt_list ex_sys_sig)
qed

lemma ex_run_second: "\<exists>st. shm_run ex_task ex_tx (ex_shm (ex_sys3 2) Idle (ex_x 4448 (Some 4368) 4368) ex_m3 (Some st) [ex_sample])"
proof -
  from ex_attach obtain st where
    st: "SessionTaskData_ctor (nrt ex_sys2) (ring ex_sys2) (ex_x 4368 (Some 4288) 4288) ex_m2 = Some st" "s_pdo st = 4288"
    by blast
  let ?S = "\<lambda>ph. ex_shm (ex_sys3 1) ph (ex_x 4368 (Some 4288) 4288) ex_m2 (Some st) []"
  from shm_run.step [OF ex_run_first shm_step.attach [of _ st]] st(1) have "shm_run ex_task ex_tx (?S Idle)"
    by (simp add: ex_shm_def ex_sys3_def)
  moreover have "ring_rp (ring ex_sys2) = ring_wp (ring ex_sys2)" by (simp add: ex_eval)
  ultimately have R: "shm_run ex_task ex_tx (?S Copying)"
    using shm_run.step [OF _ shm_step.rt_unchanged [of "?S Idle"]] by (simp add: ex_shm_def ex_sys3_def)
  have "cs = []" if "chain ex_m2 4288 cs" for cs
    using that by (cases cs) (auto simp: ex_m2_def ex_p2_def)
  moreover have "spares ex_m2 4368 e 4288" for e
    by (simp add: spares_def ex_m2_def ex_p2_def pdo_end_def pdo_header_def)
  ultimately have sp: "reader_spared (?S Copying) 4368 e" for e
    by (force simp: reader_spared_def ex_shm_def st)
  have "tx_alloc (body_bytes (pd_body (ex_p2 1 0))) (ex_x 4368 (Some 4288) 4288) = 4368"
    by (simp add: tx_alloc_def ex_x_def ex_p2_def pdo_header_def)
  with shm_run.step [OF R shm_step.rt_data [of "?S Copying" ex_src None, OF _ _ refl]] ex_copy2 sp show ?thesis
    by (intro exI [of _ st]) (simp add: ex_shm_def ex_data ex_sys3_def ex_rt_list ex_sys_sig ex_sample_def)
qed

theorem stream_delivery_witness:
  "\<exists>S st st'. reader S = Some st \<and> rcvd S = [] \<and>
     SessionTaskData_rxPdo (nrt (shm_sys S)) (ring (shm_sys S)) (shm_mem S) st = Some (True, st') \<and>
     session_sample (shm_mem S) (shm_signals S) st' = ((0, 0), [1 \<mapsto> [0, 1, 2, 3, 4, 5]])"
proof -
  from ex_run_second obtain st where
    R: "shm_run ex_task ex_tx (ex_shm (ex_sys3 2) Idle (ex_x 4448 (Some 4368) 4368) ex_m3 (Some st) [ex_sample])" (is "shm_run _ _ ?S")
    by blast
  have "ex_sample = ((0, 0), [1 \<mapsto> [0, 1, 2, 3, 4, 5]])"
    by (auto simp: ex_sample_def sampled_def fun_eq_iff ex_src_def read_bytes_def ex_eval upt_numeral_unfold)
  with stream_delivery [OF shm_run_reachable [OF ex_facts R], of st] obtain st' where
    "SessionTaskData_rxPdo (nrt (shm_sys ?S)) (ring (shm_sys ?S)) (shm_mem ?S) st = Some (True, st')"
    "session_sample (shm_mem ?S) (shm_signals ?S) st' = ((0, 0), [1 \<mapsto> [0, 1, 2, 3, 4, 5]])"
    by (auto simp: ex_shm_def)
  then show ?thesis
    by (intro exI [of _ ?S] exI [of _ st] exI [of _ st'] conjI) (simp_all add: ex_shm_def)
qed

theorem stream_memory_safe_witness:
  "pdo_end 4208 (ex_p1 0) < 5152 \<and>
   (\<exists>t' x' m'. Task_copyData ex_src None (rt ex_sys2) (ex_x 4288 (Some 4208) 0) [4208 \<mapsto> ex_p1 0] = Some (t', x', m') \<and>
      appended (ex_x 4288 (Some 4208) 0) [4208 \<mapsto> ex_p1 0] x' m')"
  using stream_memory_safe [OF ex_facts ex_run_listed, of ex_src None] by (auto simp: ex_shm_def ex_x_def ex_tx_eq)

theorem rt_update_publishes_witness:
  "\<exists>t' r' x' m' a p. Task_rt_update (\<lambda>a. of_nat a) None (rt ex_sys1) (ring ex_sys1) ex_tx Map.empty = Some (t', r', x', m') \<and>
    m' a = Some p \<and> pd_seqNo (pd_body p) = 0 \<and> pd_data (pd_body p) = [0, 1, 2, 3, 4, 5]"
proof -
  have "seqNo (rt ex_sys1) = 0" by (simp add: ex_eval)
  moreover have "gather (\<lambda>a. of_nat a) (signals (nrt ex_sys1)) (nrt_list (nrt ex_sys1)) = [0, 1, 2, 3, 4, 5]"
    by (simp add: ex_eval nrt_list_def gather_def read_bytes_def upt_numeral_unfold)
  ultimately show ?thesis
    using rt_update_publishes [OF ex_facts ex_run_subscribed refl, of "\<lambda>a. of_nat a" None]
    unfolding ex_shm_def by simp blast
qed

end
