(* ===== verification/Xml_Out.thy ===== *)
theory Xml_Out
  imports DataType
begin

text \<open>
  \<open>msrproto/XmlElement.cpp\<close>: the writer of the XML dialect of the MSR protocol. Each operation is
  the text it appends to the stream.
\<close>

section \<open>Escaping\<close>

definition amp :: char where
  "amp = CHR ''&''"

definition quot :: char where
  "quot = CHR 0x22"

definition apos :: char where
  "apos = CHR 0x27"

definition escape_chars :: "char list" where
  "escape_chars = [CHR ''<'', CHR ''>'', amp, quot, apos]"

definition entity :: "char \<Rightarrow> string" where
  "entity c =
     (if c = CHR ''<'' then ''&lt;''
      else if c = CHR ''>'' then ''&gt;''
      else if c = amp then ''&amp;''
      else if c = quot then ''&quot;''
      else if c = apos then ''&apos;''
      else [])"

text \<open>\<open>setEscaped\<close>: chunks up to the next special character, then its entity.\<close>

function setEscaped :: "string \<Rightarrow> string" where
  "setEscaped s =
     (case dropWhile (\<lambda>c. c \<notin> set escape_chars) s of
        [] \<Rightarrow> s
      | c # rest \<Rightarrow> takeWhile (\<lambda>c. c \<notin> set escape_chars) s @ entity c @ setEscaped rest)"
  by pat_completeness auto
termination
proof (relation "measure length")
  fix s :: string and c rest
  assume "dropWhile (\<lambda>c. c \<notin> set escape_chars) s = c # rest"
  then have "length (c # rest) \<le> length s" by (metis length_dropWhile_le)
  then show "(rest, s) \<in> measure length" by simp
qed simp

declare setEscaped.simps [simp del]

definition esc_char :: "char \<Rightarrow> string" where
  "esc_char c = (if c \<in> set escape_chars then entity c else [c])"

lemma setEscaped_concat: "setEscaped s = concat (map esc_char s)"
proof (induction s rule: setEscaped.induct)
  case (1 s)
  have plain: "concat (map esc_char xs) = xs" if "\<forall>c\<in>set xs. c \<notin> set escape_chars" for xs
    using that by (induction xs) (auto simp: esc_char_def)
  show ?case
  proof (cases "dropWhile (\<lambda>c. c \<notin> set escape_chars) s")
    case Nil
    then have "\<forall>c\<in>set s. c \<notin> set escape_chars" by (simp add: dropWhile_eq_Nil_conv)
    then have "concat (map esc_char s) = s" by (rule plain)
    moreover have "setEscaped s = s" by (subst setEscaped.simps) (simp only: Nil list.case)
    ultimately show ?thesis by simp
  next
    case (Cons c rest)
    let ?t = "takeWhile (\<lambda>c. c \<notin> set escape_chars) s"
    have s: "s = ?t @ c # rest" using Cons takeWhile_dropWhile_id [of _ s] by metis
    have c: "c \<in> set escape_chars" using Cons by (metis (no_types, lifting) dropWhile_eq_Cons_conv)
    have "setEscaped s = ?t @ entity c @ setEscaped rest" by (simp add: setEscaped.simps [of s] Cons)
    also have "\<dots> = concat (map esc_char ?t) @ esc_char c @ concat (map esc_char rest)"
    proof -
      have "concat (map esc_char ?t) = ?t" by (rule plain) (auto dest: set_takeWhileD)
      moreover have "esc_char c = entity c" using c by (simp add: esc_char_def)
      ultimately show ?thesis by (simp add: 1 [OF Cons])
    qed
    also have "\<dots> = concat (map esc_char (?t @ c # rest))" by simp
    finally show ?thesis using s by simp
  qed
qed

text \<open>The text of a quoted value: none of the characters that end it or start a tag.\<close>

lemma setEscaped_chars: "c \<in> set (setEscaped s) \<Longrightarrow> c \<notin> {CHR ''<'', CHR ''>'', quot, apos}"
  by (auto simp: setEscaped_concat esc_char_def escape_chars_def entity_def amp_def quot_def apos_def split: if_splits)

section \<open>Elements\<close>

definition crlf :: string where
  "crlf = [CHR 0x0D, CHR 0x0A]"

definition spaces :: "nat \<Rightarrow> string" where
  "spaces n = replicate n (CHR '' '')"

definition Attribute :: "string \<Rightarrow> string \<Rightarrow> string" where
  "Attribute name val = '' '' @ name @ ''='' @ [quot] @ val @ [quot]"

definition Attribute_escaped :: "string \<Rightarrow> string \<Rightarrow> string" where
  "Attribute_escaped name val = Attribute name (setEscaped val)"

text \<open>
  An open element: its nesting level, the \<open>id\<close> it echoes (empty: none) and whether a child has
  been created.
\<close>

record xml_element =
  xe_level :: nat
  xe_id :: string
  xe_name :: string
  xe_printed :: bool

definition XmlElement_new :: "string \<Rightarrow> nat \<Rightarrow> string \<Rightarrow> xml_element \<times> string" where
  "XmlElement_new name level ident =
     (\<lparr>xe_level = level, xe_id = ident, xe_name = name, xe_printed = False\<rparr>, spaces level @ ''<'' @ name)"

definition id_attribute :: "xml_element \<Rightarrow> string" where
  "id_attribute e = (if xe_id e \<noteq> [] then Attribute_escaped ''id'' (xe_id e) else [])"

definition XmlElement_delete :: "xml_element \<Rightarrow> string" where
  "XmlElement_delete e =
     (if xe_printed e then spaces (xe_level e) @ ''</'' @ xe_name e
      else id_attribute e @ ''/'') @ ''>'' @ crlf"

definition createChild :: "string \<Rightarrow> xml_element \<Rightarrow> xml_element \<times> xml_element \<times> string" where
  "createChild name e =
     (let pre = (if xe_printed e then [] else id_attribute e @ ''>'' @ crlf);
          (c, txt) = XmlElement_new name (xe_level e + 1) []
      in (c, e\<lparr>xe_printed := True\<rparr>, pre @ txt))"

text \<open>A complete element without children, and one with children that have none.\<close>

type_synonym attrs = "(string \<times> string) list"

definition attr_text :: "attrs \<Rightarrow> string" where
  "attr_text as = concat (map (\<lambda>(n, v). Attribute n v) as)"

definition leaf_text :: "string \<Rightarrow> nat \<Rightarrow> string \<Rightarrow> attrs \<Rightarrow> string" where
  "leaf_text name level ident as =
     (let (e, t) = XmlElement_new name level ident in t @ attr_text as @ XmlElement_delete e)"

fun child_texts :: "xml_element \<Rightarrow> (string \<times> attrs) list \<Rightarrow> string \<times> xml_element" where
  "child_texts e [] = ([], e)"
| "child_texts e ((n, as) # cs) =
     (let (c, e', t) = createChild n e; (ts, e'') = child_texts e' cs
      in (t @ attr_text as @ XmlElement_delete c @ ts, e''))"

definition node_text :: "string \<Rightarrow> string \<Rightarrow> attrs \<Rightarrow> (string \<times> attrs) list \<Rightarrow> string" where
  "node_text name ident as cs =
     (let (e, t) = XmlElement_new name 0 ident; (ts, e') = child_texts e cs
      in t @ attr_text as @ ts @ XmlElement_delete e')"

section \<open>Values\<close>

text \<open>\<open>operator<<(timespec)\<close>: seconds, a point and six digits of microseconds.\<close>

definition pad0 :: "nat \<Rightarrow> string \<Rightarrow> string" where
  "pad0 n s = replicate (n - length s) (CHR ''0'') @ s"

definition time_text :: "int \<times> int \<Rightarrow> string" where
  "time_text ts = show_int (fst ts) @ ''.'' @
     (let us = show_int (if snd ts < 0 then - (- snd ts div 1000) else snd ts div 1000) in pad0 6 us)"

text \<open>
  \<open>csv\<close>: \<open>nblocks\<close> values of \<open>memSize\<close> bytes each, printed one after the other.
  \<open>None\<close>: the printer of the type does not return.
\<close>

fun csv :: "(ctype \<Rightarrow> u8 list \<Rightarrow> string) \<Rightarrow> (nat \<Rightarrow> u8) \<Rightarrow> dtype \<Rightarrow> nat \<Rightarrow> nat \<Rightarrow> nat \<Rightarrow> bool \<Rightarrow> string option" where
  "csv ff mem ty memSize buf 0 delim = Some []"
| "csv ff mem ty memSize buf (Suc n) delim =
     (case dt_print ff mem ty buf buf (buf + memSize) of
        None \<Rightarrow> None
      | Some s \<Rightarrow> map_option (\<lambda>r. (if delim then '','' else []) @ s @ r)
                    (csv ff mem ty memSize (buf + memSize) n True))"

definition base64Chr :: string where
  "base64Chr = ''ABCDEFGHIJKLMNOPQRSTUVWXYZabcdefghijklmnopqrstuvwxyz0123456789+/''"

definition b64 :: "nat \<Rightarrow> char" where
  "b64 n = base64Chr ! n"

fun base64 :: "u8 list \<Rightarrow> string" where
  "base64 (a # b # c # rest) =
     [b64 (unat (drop_bit 2 a)),
      b64 (push_bit 4 (unat (a AND 0x03)) + unat (drop_bit 4 b)),
      b64 (push_bit 2 (unat (b AND 0x0f)) + unat (drop_bit 6 c)),
      b64 (unat (c AND 0x3f))] @ base64 rest"
| "base64 [a, b] =
     [b64 (unat (drop_bit 2 a)),
      b64 (push_bit 4 (unat (a AND 0x03)) + unat (drop_bit 4 b)),
      b64 (push_bit 2 (unat (b AND 0x0f))), CHR ''='']"
| "base64 [a] = [b64 (unat (drop_bit 2 a)), b64 (push_bit 4 (unat (a AND 0x03))), CHR ''='', CHR ''='']"
| "base64 [] = []"

definition hex_digit :: "nat \<Rightarrow> char" where
  "hex_digit d = ''0123456789ABCDEF'' ! d"

definition hexValue :: "nat \<Rightarrow> string" where
  "hexValue b = [hex_digit (b div 16), hex_digit (b mod 16)]"

definition hexDec :: "u8 list \<Rightarrow> string" where
  "hexDec bs = concat (map (\<lambda>b. hexValue (unat b)) bs)"

section \<open>Decoding base64\<close>

text \<open>The usual decoder: groups of four characters, the last one padded.\<close>

definition b64_val :: "char \<Rightarrow> nat" where
  "b64_val c = length (takeWhile (\<lambda>d. d \<noteq> c) base64Chr)"

fun unbase64 :: "string \<Rightarrow> u8 list" where
  "unbase64 (p # q # r # s # rest) =
     (let b1 = of_nat (b64_val p * 4 + b64_val q div 16);
          b2 = of_nat (b64_val q mod 16 * 16 + b64_val r div 4);
          b3 = of_nat (b64_val r mod 4 * 64 + b64_val s)
      in if r = CHR ''='' then [b1] else if s = CHR ''='' then [b1, b2] else b1 # b2 # b3 # unbase64 rest)"
| "unbase64 _ = []"

lemma b64_ok:
  assumes "n < 64"
  shows "b64_val (b64 n) = n" and "b64 n \<noteq> CHR ''=''"
proof -
  have "list_all (\<lambda>n. b64_val (b64 n) = n \<and> b64 n \<noteq> CHR ''='') [0..<64]" by code_simp
  with assms show "b64_val (b64 n) = n" "b64 n \<noteq> CHR ''=''" by (auto simp: list_all_iff)
qed

lemma u8_bits:
  fixes b :: u8
  shows "unat (drop_bit 2 b) = unat b div 4" "unat (drop_bit 4 b) = unat b div 16" "unat (drop_bit 6 b) = unat b div 64"
    "unat (b AND 0x03) = unat b mod 4" "unat (b AND 0x0f) = unat b mod 16" "unat (b AND 0x3f) = unat b mod 64"
    "unat b < 256"
proof -
  have m: "(0x03 :: u8) = mask 2" "(0x0f :: u8) = mask 4" "(0x3f :: u8) = mask 6" by (simp_all add: mask_eq_exp_minus_1)
  show "unat (b AND 0x03) = unat b mod 4" "unat (b AND 0x0f) = unat b mod 16" "unat (b AND 0x3f) = unat b mod 64"
    unfolding m by (simp_all add: take_bit_eq_mask [symmetric] take_bit_eq_mod unat_mod_distrib)
  show "unat (drop_bit 2 b) = unat b div 4" "unat (drop_bit 4 b) = unat b div 16" "unat (drop_bit 6 b) = unat b div 64"
    by (simp_all add: drop_bit_eq_div unat_div_distrib)
  show "unat b < 256" using unsigned_less [of b] by simp
qed

lemma b64_index:
  fixes a b :: u8
  shows "unat a div 4 < 64" "unat a mod 4 * 16 + unat b div 16 < 64" "unat a mod 16 * 4 + unat b div 64 < 64"
    "unat a mod 64 < 64" "unat a mod 4 * 16 < 64" "unat a mod 16 * 4 < 64"
    "unat b div 16 div 16 = 0" "unat b div 16 mod 16 = unat b div 16" "unat b div 64 div 4 = 0"
    "unat b div 64 mod 4 = unat b div 64"
proof -
  have r: "x div 4 < 64" "x div 16 < 16" "x div 64 < 4" if "x < 256" for x :: nat
    using that by (simp_all add: less_mult_imp_div_less)
  note R = r [OF u8_bits(7) [of a]] r [OF u8_bits(7) [of b]]
    mod_less_divisor [of 4 "unat a"] mod_less_divisor [of 16 "unat a"]
  show "unat a div 4 < 64" "unat a mod 4 * 16 + unat b div 16 < 64" "unat a mod 16 * 4 + unat b div 64 < 64"
    "unat a mod 64 < 64" "unat a mod 4 * 16 < 64" "unat a mod 16 * 4 < 64"
    using R by linarith+
  show "unat b div 16 div 16 = 0" "unat b div 16 mod 16 = unat b div 16" "unat b div 64 div 4 = 0"
    "unat b div 64 mod 4 = unat b div 64"
    using R by simp_all
qed

lemmas b64_simps = u8_bits(1-6) push_bit_eq_mult b64_ok b64_index div_mult_mod_eq

text \<open>
  Property C15 (base64_roundtrip): decoding the text written by \<open>base64\<close> gives back the bytes, for
  every length.
\<close>

theorem base64_roundtrip: "unbase64 (base64 bs) = bs"
  by (induction bs rule: base64.induct) (simp_all add: b64_simps del: of_nat_add of_nat_mult)

end
