(* ===== verification/Msr_Variable.thy ===== *)
theory Msr_Variable
  imports Xml_Out
begin

text \<open>
  \<open>msrproto/Variable.cpp\<close> and \<open>msrproto/Channel.cpp\<close>: the variables the MSR protocol offers, with
  the attributes that describe their type. The path of a variable and the number of its children are
  kept by the directory; here they are arguments.
\<close>

section \<open>Variables\<close>

record msr_var =
  mv_index :: nat
  mv_dtype :: dtype
  mv_dim :: "nat list"
  mv_offset :: nat
  mv_memSize :: nat
  mv_hidden :: bool
  mv_alias :: string
  mv_comment :: string

definition Variable_new :: "nat \<Rightarrow> dtype \<Rightarrow> nat list \<Rightarrow> nat \<Rightarrow> string \<Rightarrow> string \<Rightarrow> msr_var" where
  "Variable_new index dtype dim offset alias comment =
     \<lparr>mv_index = index, mv_dtype = dtype, mv_dim = dim, mv_offset = offset,
      mv_memSize = dt_size dtype * nelem dim, mv_hidden = False, mv_alias = alias, mv_comment = comment\<rparr>"

fun dtstr :: "primary \<Rightarrow> string" where
  "dtstr boolean_T = ''TCHAR''"
| "dtstr uint8_T = ''TUCHAR''"
| "dtstr int8_T = ''TCHAR''"
| "dtstr uint16_T = ''TUSHORT''"
| "dtstr int16_T = ''TSHORT''"
| "dtstr uint32_T = ''TUINT''"
| "dtstr int32_T = ''TINT''"
| "dtstr uint64_T = ''TULINT''"
| "dtstr int64_T = ''TLINT''"
| "dtstr double_T = ''TDBL''"
| "dtstr single_T = ''TFLT''"
| "dtstr compound_T = ''COMPOUND''"

text \<open>The last element of a vector, and the division of unsigned numbers: \<open>None\<close> where the program has no result.\<close>

definition vec_back :: "'a list \<Rightarrow> 'a option" where
  "vec_back xs = (if xs = [] then None else Some (last xs))"

definition udiv :: "nat \<Rightarrow> nat \<Rightarrow> nat option" where
  "udiv a b = (if b = 0 then None else Some (a div b))"

text \<open>\<open>setDataType\<close>; \<open>None\<close>: the columns or the rows of a matrix cannot be computed.\<close>

definition setDataType :: "dtype \<Rightarrow> nat list \<Rightarrow> attrs option" where
  "setDataType dtype dim =
     (let size = [(''datasize'', show_nat (dt_size dtype))];
          str = dtstr (primary_of dtype)
      in if isScalar dim then Some (size @ [(''typ'', str)])
         else
           let typ = [(''typ'', str @ (if isVector dim then ''_LIST'' else ''_MATRIX'')),
                      (''anz'', show_nat (nelem dim))];
               shape = (\<lambda>cnum rnum orient. [(''cnum'', show_nat cnum), (''rnum'', show_nat rnum), (''orientation'', orient)])
           in if isVector dim then Some (size @ typ @ shape (nelem dim) 1 ''VECTOR'')
              else Option.bind (vec_back dim) (\<lambda>cnum. Option.bind (udiv (nelem dim) cnum) (\<lambda>rnum.
                Some (size @ typ @ shape cnum rnum ''MATRIX_ROW_MAJOR''))))"

text \<open>\<open>addCompoundFields\<close>: one nested element per field; the element it is called for, and the text.\<close>

fun addCompoundFields :: "xml_element \<Rightarrow> dtype \<Rightarrow> (xml_element \<times> string) option"
  and add_fields :: "xml_element \<Rightarrow> field list \<Rightarrow> (xml_element \<times> string) option" where
  "addCompoundFields e (PrimaryType T) = Some (e, [])"
| "addCompoundFields e (CompoundType n s fs) = add_fields e fs"
| "add_fields e [] = Some (e, [])"
| "add_fields e (Field name ty off dim # fs) =
     (let (f, e', open_text) = createChild ''field'' e
      in case setDataType ty dim of
           None \<Rightarrow> None
         | Some as \<Rightarrow>
             (case addCompoundFields f ty of
                None \<Rightarrow> None
              | Some (f', inner) \<Rightarrow>
                  (case add_fields e' fs of
                     None \<Rightarrow> None
                   | Some (e'', rest) \<Rightarrow>
                       Some (e'', open_text @ attr_text ((''name'', setEscaped name) # (''offset'', show_nat off) # as)
                                    @ inner @ XmlElement_delete f' @ rest))))"

definition setAttributes :: "msr_var \<Rightarrow> string \<Rightarrow> nat \<Rightarrow> bool \<Rightarrow> attrs option" where
  "setAttributes v path childCount shortReply =
     (let head = [(''index'', show_nat (mv_index v)), (''name'', setEscaped path)]
      in if shortReply then Some head
         else map_option (\<lambda>ty. head
                @ (if mv_alias v \<noteq> [] then [(''alias'', mv_alias v)] else [])
                @ (if mv_comment v \<noteq> [] then [(''comment'', mv_comment v)] else [])
                @ ty
                @ (if mv_comment v \<noteq> [] then [(''text'', mv_comment v)] else [])
                @ (if childCount > 0 then [(''dir'', ''1'')] else []))
              (setDataType (mv_dtype v) (mv_dim v)))"

section \<open>Channels\<close>

text \<open>
  A channel is a variable with the signal it reads. Pointers are addresses. The sample rate is a
  \<open>double\<close>; the text of the rate and the rate rounded to an integer are arguments of the attributes.
\<close>

record channel = msr_var +
  ch_ptr :: nat
  ch_signal :: nat

definition Channel_new :: "nat \<Rightarrow> nat \<Rightarrow> nat \<Rightarrow> dtype \<Rightarrow> nat list \<Rightarrow> nat \<Rightarrow> string \<Rightarrow> string \<Rightarrow> channel" where
  "Channel_new ptr sig index dtype dim offset alias comment =
     msr_var.extend (Variable_new index dtype dim offset alias comment) (channel.fields ptr sig)"

definition Channel_setXmlAttributes ::
  "(ctype \<Rightarrow> u8 list \<Rightarrow> string) \<Rightarrow> channel \<Rightarrow> string \<Rightarrow> nat \<Rightarrow> nat \<Rightarrow> nat \<Rightarrow> string \<Rightarrow> bool
     \<Rightarrow> (nat \<Rightarrow> u8) option \<Rightarrow> (int \<times> int) option \<Rightarrow> xml_element \<Rightarrow> (xml_element \<times> string) option" where
  "Channel_setXmlAttributes ff c path childCount task freq_round freq_text shortReply data time e =
     (case setAttributes (msr_var.truncate c) path childCount shortReply of
        None \<Rightarrow> None
      | Some as \<Rightarrow>
          let rate = (if shortReply then [] else
                 [(''bufsize'', show_nat (10 * max 1 freq_round)), (''task'', show_nat task), (''HZ'', freq_text)]);
              tm = (case time of None \<Rightarrow> [] | Some t \<Rightarrow> [(''time'', time_text t)])
          in case (case data of None \<Rightarrow> Some []
                   | Some mem \<Rightarrow> map_option (\<lambda>s. [(''value'', s)])
                       (csv ff mem (mv_dtype c) (mv_memSize c) (mv_offset c) 1 False)) of
               None \<Rightarrow> None
             | Some val \<Rightarrow>
                 (case (if shortReply then Some (e, []) else addCompoundFields e (mv_dtype c)) of
                    None \<Rightarrow> None
                  | Some (e', inner) \<Rightarrow> Some (e', attr_text (as @ rate @ tm @ val) @ inner)))"

section \<open>Lemmas\<close>

lemma memSize_Variable_new [simp]: "mv_memSize (Variable_new i ty dim off al co) = dt_size ty * nelem dim"
  by (simp add: Variable_new_def)

lemma nelem_Nil [simp]: "nelem [] = 1"
  by (simp add: nelem_def)

lemma nelem_zero_extent [simp]: "nelem (dim @ [0]) = 0"
  by (simp add: nelem_def)

lemma setDataType_defined:
  "setDataType ty dim = None \<longleftrightarrow> isMultiDim dim \<and> last dim = 0"
  by (cases dim rule: rev_cases)
    (auto simp: setDataType_def Let_def isScalar_def isVector_def isMultiDim_def vec_back_def udiv_def)

lemma setDataType_shape:
  assumes "setDataType ty dim = Some as" and "\<not> isScalar dim"
  shows "\<exists>rows cols. (rows * cols = prod_list dim \<or> 2 ^ 32 \<le> prod_list dim) \<and>
    (isVector dim \<and> rows = 1 \<or> dim \<noteq> [] \<and> cols = last dim) \<and>
    {(''anz'', show_nat (nelem dim)), (''rnum'', show_nat rows), (''cnum'', show_nat cols)} \<subseteq> set as"
proof (cases "isVector dim")
  case True
  with assms nelem_exact [of dim] show ?thesis
    by (intro exI [of _ 1] exI [of _ "nelem dim"]) (auto simp: setDataType_def Let_def)
next
  case False
  with assms obtain ds n where d: "dim = ds @ [n]" "n \<noteq> 0"
    by (cases dim rule: rev_cases) (auto simp: setDataType_def Let_def vec_back_def udiv_def isScalar_def split: if_splits)
  with nelem_exact [of dim] have "nelem dim div n * n = prod_list dim \<or> 2 ^ 32 \<le> prod_list dim"
    by (cases "prod_list dim < 2 ^ 32") (simp_all add: d)
  with d assms False show ?thesis
    by (intro exI [of _ "nelem dim div n"] exI [of _ n]) (auto simp: setDataType_def Let_def vec_back_def udiv_def)
qed

text \<open>The extents of the fields of a type, at every depth.\<close>

fun nested_dims :: "dtype \<Rightarrow> nat list list" and field_dims :: "field list \<Rightarrow> nat list list" where
  "nested_dims (PrimaryType T) = []"
| "nested_dims (CompoundType n s fs) = field_dims fs"
| "field_dims [] = []"
| "field_dims (Field n ty off dim # fs) = dim # nested_dims ty @ field_dims fs"

definition empty_rows :: "nat list \<Rightarrow> bool" where
  "empty_rows dim \<longleftrightarrow> isMultiDim dim \<and> last dim = 0"

lemma setDataType_None: "setDataType ty dim = None \<longleftrightarrow> empty_rows dim"
  by (simp add: setDataType_defined empty_rows_def)

lemma addCompoundFields_defined:
  "addCompoundFields e ty = None \<longleftrightarrow> list_ex empty_rows (nested_dims ty)"
  "add_fields e fs = None \<longleftrightarrow> list_ex empty_rows (field_dims fs)"
proof (induction ty and fs arbitrary: e and e rule: nested_dims_field_dims.induct)
  case (4 n ty off dim fs)
  obtain f e' out where c: "createChild ''field'' e = (f, e', out)" by (cases "createChild ''field'' e")
  show ?case
    using 4 [of f] 4 [of e'] setDataType_None [of ty dim]
    by (cases "setDataType ty dim"; cases "addCompoundFields f ty"; cases "add_fields e' fs") (auto simp: c)
qed auto

text \<open>
  Property C21 (description_fails): the description of a channel fails (by a division by zero) exactly when its value cannot be
  printed, or when it is a full description and the channel itself or one of its fields, at any depth, is a matrix whose last
  extent is zero. Otherwise the numbers of rows and columns that are reported for a vector or matrix, of the channel or of a
  field, multiply to the number of its elements as long as that is below \<open>2 ^ 32\<close>, and the columns of a matrix are its last
  extent.
\<close>

theorem description_fails:
  "(Channel_setXmlAttributes ff c path childCount task freq_round freq_text short data time e = None \<longleftrightarrow>
     (\<exists>mem. data = Some mem \<and> csv ff mem (mv_dtype c) (mv_memSize c) (mv_offset c) 1 False = None) \<or>
     (\<not> short \<and> list_ex empty_rows (mv_dim c # nested_dims (mv_dtype c)))) \<and>
   (case setDataType ty dim of None \<Rightarrow> empty_rows dim
    | Some as \<Rightarrow> isScalar dim \<or> (\<exists>rows cols. (rows * cols = prod_list dim \<or> 2 ^ 32 \<le> prod_list dim) \<and> (isVector dim \<and> rows = 1 \<or> dim \<noteq> [] \<and> cols = last dim) \<and>
        {(''anz'', show_nat (nelem dim)), (''rnum'', show_nat rows), (''cnum'', show_nat cols)} \<subseteq> set as))"
proof
  have "setAttributes (msr_var.truncate c) path childCount short = None \<longleftrightarrow> \<not> short \<and> empty_rows (mv_dim c)"
    by (auto simp: setAttributes_def Let_def setDataType_None msr_var.truncate_def)
  then show "Channel_setXmlAttributes ff c path childCount task freq_round freq_text short data time e = None \<longleftrightarrow>
     (\<exists>mem. data = Some mem \<and> csv ff mem (mv_dtype c) (mv_memSize c) (mv_offset c) 1 False = None) \<or>
     (\<not> short \<and> list_ex empty_rows (mv_dim c # nested_dims (mv_dtype c)))"
    using addCompoundFields_defined(1) [of e "mv_dtype c"]
    by (auto simp: Channel_setXmlAttributes_def Let_def split: option.splits prod.splits)
  show "case setDataType ty dim of None \<Rightarrow> empty_rows dim
    | Some as \<Rightarrow> isScalar dim \<or> (\<exists>rows cols. (rows * cols = prod_list dim \<or> 2 ^ 32 \<le> prod_list dim) \<and> (isVector dim \<and> rows = 1 \<or> dim \<noteq> [] \<and> cols = last dim) \<and>
        {(''anz'', show_nat (nelem dim)), (''rnum'', show_nat rows), (''cnum'', show_nat cols)} \<subseteq> set as)"
    using setDataType_None [of ty dim] setDataType_shape [of ty dim] by (cases "setDataType ty dim") (simp_all, blast)
qed

end
