(* ===== verification/Event_Log.thy ===== *)
theory Event_Log
  imports Xml_Out Signal_Ring
begin

text \<open>
  Events: \<open>lib/Event.cpp\<close> and \<open>Main::setEvent\<close> of \<open>lib/Main.cpp\<close> in the real-time process, the loop of
  \<open>Main::setup\<close> that carries them over shared memory, the event history of \<open>src/Main.cpp\<close>
  (\<open>newEvent\<close>, \<open>getNextEvent\<close>, \<open>getEventHistory\<close>) and their text in \<open>msrproto/Event.cpp\<close>. Both the area in
  shared memory and the history are cyclic arrays with a pointer to the next entry to write; a reader
  keeps its own position.
\<close>

section \<open>Events\<close>

datatype priority = Emergency | Alert | Critical | Error | Warning | Notice | Info | Debug

type_synonym timespec = "int \<times> int"

record event_obj =
  ev_path :: string
  ev_priority :: priority
  ev_nelem :: nat
  ev_setTime :: "timespec list"
  ev_resetTime :: "timespec list"
  ev_rt_state :: "bool list"

definition Event_new :: "string \<Rightarrow> priority \<Rightarrow> nat \<Rightarrow> event_obj" where
  "Event_new path prio n =
     \<lparr>ev_path = path, ev_priority = prio, ev_nelem = n,
      ev_setTime = replicate n (0, 0), ev_resetTime = replicate n (0, 0),
      ev_rt_state = replicate n False\<rparr>"

definition event_priority :: "int \<Rightarrow> priority" where
  "event_priority prio =
     (if prio = 1 then Alert
      else if prio = 2 then Critical
      else if prio = 3 then Error
      else if prio = 4 then Warning
      else if prio = 5 then Notice
      else if prio = 6 then Info
      else if prio \<le> 0 then Emergency else Debug)"

definition Main_addEvent :: "string \<Rightarrow> int \<Rightarrow> nat \<Rightarrow> event_obj list \<Rightarrow> event_obj list" where
  "Main_addEvent path prio n events = events @ [Event_new path (event_priority prio) n]"

text \<open>An entry; \<open>ed_event\<close> is the position of the event in the list of events, \<open>None\<close> a null pointer.\<close>

record event_data =
  ed_event :: "nat option"
  ed_index :: nat
  ed_state :: bool
  ed_time :: timespec

definition EventData_new :: event_data where
  "EventData_new = \<lparr>ed_event = None, ed_index = 0, ed_state = False, ed_time = (0, 0)\<rparr>"

section \<open>Cyclic arrays\<close>

record 'e wring =
  wr_slots :: "'e list"
  wr_wp :: nat

definition ptr_inc :: "nat \<Rightarrow> nat \<Rightarrow> nat" where
  "ptr_inc n p = (if Suc p = n then 0 else Suc p)"

definition wring_write :: "'e \<Rightarrow> 'e wring \<Rightarrow> 'e wring" where
  "wring_write e w = w\<lparr>wr_slots := (wr_slots w)[wr_wp w := e], wr_wp := ptr_inc (length (wr_slots w)) (wr_wp w)\<rparr>"

text \<open>The entries between a reader's position and the write position, oldest first.\<close>

definition unread :: "'e wring \<Rightarrow> nat \<Rightarrow> 'e list" where
  "unread w rp =
     (if rp \<le> wr_wp w then slice rp (wr_wp w - rp) (wr_slots w)
      else drop rp (wr_slots w) @ take (wr_wp w) (wr_slots w))"

definition wring_inv :: "'e wring \<Rightarrow> nat \<Rightarrow> bool" where
  "wring_inv w rp \<longleftrightarrow> wr_wp w < length (wr_slots w) \<and> rp < length (wr_slots w)"

definition wring_full :: "'e wring \<Rightarrow> nat \<Rightarrow> bool" where
  "wring_full w rp \<longleftrightarrow> ptr_inc (length (wr_slots w)) (wr_wp w) = rp"

section \<open>The real-time process\<close>

record rt_events =
  rt_objs :: "event_obj list"
  rt_ring :: "event_data wring"

definition Main_setEvent :: "nat \<Rightarrow> nat \<Rightarrow> bool \<Rightarrow> timespec \<Rightarrow> rt_events \<Rightarrow> rt_events" where
  "Main_setEvent event element state time rt =
     rt\<lparr>rt_ring := wring_write \<lparr>ed_event = Some event, ed_index = element, ed_state = state, ed_time = time\<rparr> (rt_ring rt)\<rparr>"

text \<open>\<open>Event::set\<close>; \<open>None\<close>: an access outside the vector of states.\<close>

definition Event_set :: "nat \<Rightarrow> nat \<Rightarrow> bool \<Rightarrow> timespec \<Rightarrow> rt_events \<Rightarrow> rt_events option" where
  "Event_set event elem state time rt =
     (if length (rt_objs rt) \<le> event \<or> length (ev_rt_state (rt_objs rt ! event)) \<le> elem then None
      else
        let ob = rt_objs rt ! event
        in if ev_rt_state ob ! elem = state then Some rt
           else Some (Main_setEvent event elem state time
                  (rt\<lparr>rt_objs := (rt_objs rt)[event := ob\<lparr>ev_rt_state := (ev_rt_state ob)[elem := state]\<rparr>]\<rparr>)))"

section \<open>The non-real-time process\<close>

datatype log_level = FATAL_LOG_LEVEL | ERROR_LOG_LEVEL | WARN_LOG_LEVEL | INFO_LOG_LEVEL | DEBUG_LOG_LEVEL

fun log_priority :: "priority \<Rightarrow> log_level" where
  "log_priority Emergency = FATAL_LOG_LEVEL"
| "log_priority Alert = FATAL_LOG_LEVEL"
| "log_priority Critical = FATAL_LOG_LEVEL"
| "log_priority Error = ERROR_LOG_LEVEL"
| "log_priority Warning = WARN_LOG_LEVEL"
| "log_priority Notice = INFO_LOG_LEVEL"
| "log_priority Info = INFO_LOG_LEVEL"
| "log_priority Debug = DEBUG_LOG_LEVEL"

record nrt_events =
  nr_objs :: "event_obj list"
  nr_list :: "event_data wring"
  nr_log :: "(log_level \<times> string) list"

definition log_line :: "event_obj \<Rightarrow> nat \<Rightarrow> timespec \<Rightarrow> string" where
  "log_line ob index time =
     time_text time @ '': '' @ ev_path ob @ (if ev_nelem ob > 1 then ''['' @ show_nat index @ '']'' else [])"

definition Main_newEvent :: "event_data \<Rightarrow> nrt_events \<Rightarrow> nrt_events option" where
  "Main_newEvent e nr =
     (case ed_event e of
        None \<Rightarrow> None
      | Some event \<Rightarrow>
          if length (nr_objs nr) \<le> event \<or> length (ev_setTime (nr_objs nr ! event)) \<le> ed_index e
             \<or> length (ev_resetTime (nr_objs nr ! event)) \<le> ed_index e then None
          else
            let ob = nr_objs nr ! event;
                ob' = (if ed_state e
                       then ob\<lparr>ev_setTime := (ev_setTime ob)[ed_index e := ed_time e],
                               ev_resetTime := (ev_resetTime ob)[ed_index e := (0, 0)]\<rparr>
                       else ob\<lparr>ev_resetTime := (ev_resetTime ob)[ed_index e := ed_time e]\<rparr>)
            in Some (nr\<lparr>nr_objs := (nr_objs nr)[event := ob'],
                        nr_list := wring_write e (nr_list nr),
                        nr_log := nr_log nr @ (if ed_state e
                          then [(log_priority (ev_priority ob), log_line ob (ed_index e) (ed_time e))] else [])\<rparr>))"

text \<open>The loop of \<open>Main::setup\<close> over the entries in shared memory.\<close>

partial_function (option) event_loop :: "event_data wring \<Rightarrow> nat \<Rightarrow> nrt_events \<Rightarrow> (nat \<times> nrt_events) option" where
  "event_loop w rp nr =
     (if rp = wr_wp w then Some (rp, nr)
      else case Main_newEvent (wr_slots w ! rp) nr of
             None \<Rightarrow> None
           | Some nr' \<Rightarrow> event_loop w (ptr_inc (length (wr_slots w)) rp) nr')"

section \<open>Sessions\<close>

text \<open>\<open>getNextEvent\<close>: the entry and the new position of the session.\<close>

definition Main_getNextEvent :: "event_data wring \<Rightarrow> nat \<Rightarrow> event_data \<times> nat" where
  "Main_getNextEvent w eventId =
     (let i = (if eventId \<ge> length (wr_slots w) then wr_wp w else eventId)
      in if i = wr_wp w then (EventData_new, i)
         else (wr_slots w ! i, ptr_inc (length (wr_slots w)) i))"

definition Main_getEventHistory :: "event_data wring \<Rightarrow> nat \<Rightarrow> event_data list" where
  "Main_getEventHistory w eventId =
     (let it = (if ed_event (wr_slots w ! wr_wp w) \<noteq> None then wr_wp w else 0)
      in (if it \<ge> wr_wp w then drop it (wr_slots w) else []) @ take eventId (wr_slots w))"

fun levelString :: "priority \<Rightarrow> string" where
  "levelString Emergency = ''crit_error''"
| "levelString Alert = ''crit_error''"
| "levelString Critical = ''crit_error''"
| "levelString Error = ''error''"
| "levelString Warning = ''warn''"
| "levelString Notice = ''info''"
| "levelString Info = ''info''"
| "levelString Debug = ''info''"

text \<open>\<open>Event::toXml\<close>: the text written, and whether there was an event. \<open>ident\<close> is the id of the command.\<close>

definition Event_toXml :: "string \<Rightarrow> event_obj list \<Rightarrow> event_data \<Rightarrow> string \<times> bool" where
  "Event_toXml ident objs e =
     (case ed_event e of
        None \<Rightarrow> ([], False)
      | Some ev \<Rightarrow>
          let ob = objs ! ev
          in (leaf_text (levelString (ev_priority ob)) 0 ident
                ((''name'', setEscaped (ev_path ob))
                 # (if ev_nelem ob > 1 then [(''index'', show_nat (ed_index e))] else [])
                 @ [(''state'', if ed_state e then ''1'' else ''0''), (''time'', time_text (ed_time e))]),
              True))"

text \<open>The loop of \<open>Session::run\<close>: print events until there are none.\<close>

partial_function (option) poll_events :: "string \<Rightarrow> event_obj list \<Rightarrow> event_data wring \<Rightarrow> nat \<Rightarrow> string \<Rightarrow> (nat \<times> string) option" where
  "poll_events ident objs w eventId out =
     (let (e, eventId') = Main_getNextEvent w eventId; (t, more) = Event_toXml ident objs e
      in if more then poll_events ident objs w eventId' (out @ t) else Some (eventId', out @ t))"

definition messageHistory :: "string \<Rightarrow> event_obj list \<Rightarrow> event_data wring \<Rightarrow> nat \<Rightarrow> string" where
  "messageHistory ident objs w eventId =
     concat (map (\<lambda>e. fst (Event_toXml ident objs e)) (Main_getEventHistory w eventId))"

section \<open>Both arrays are queues\<close>

lemma ptr_inc_less: "p < n \<Longrightarrow> ptr_inc n p < n"
  by (auto simp: ptr_inc_def)

lemma unread_write:
  assumes "wring_inv w rp" and "\<not> wring_full w rp"
  shows "unread (wring_write e w) rp = unread w rp @ [e]"
proof -
  obtain xs wp where w: "w = \<lparr>wr_slots = xs, wr_wp = wp\<rparr>" by (cases w)
  have i: "wp < length xs" "rp < length xs" using assms(1) by (auto simp: wring_inv_def w)
  show ?thesis
  proof (cases "rp \<le> wp")
    case le: True
    have s: "slice rp (Suc (wp - rp)) (xs[wp := e]) = slice rp (wp - rp) xs @ [e]"
      using slice_append_cell [of rp "wp - rp" xs e] le i by simp
    show ?thesis
    proof (cases "Suc wp = length xs")
      case True
      then have "rp \<noteq> 0" using assms(2) by (simp add: wring_full_def ptr_inc_def w)
      moreover have "drop rp (xs[wp := e]) = slice rp (Suc (wp - rp)) (xs[wp := e])" using True le by (simp add: slice_def)
      ultimately show ?thesis using s True le by (simp add: unread_def wring_write_def ptr_inc_def w)
    next
      case False
      then show ?thesis using s le by (simp add: unread_def wring_write_def ptr_inc_def w Suc_diff_le)
    qed
  next
    case False
    then have "Suc wp < rp" using assms(2) i by (auto simp: wring_full_def ptr_inc_def w split: if_splits)
    moreover have "take (Suc wp) (xs[wp := e]) = take wp xs @ [e]"
      using i(1) by (simp add: take_Suc_conv_app_nth)
    ultimately show ?thesis using i by (auto simp: unread_def wring_write_def ptr_inc_def w)
  qed
qed

lemma unread_Nil_iff: "wring_inv w rp \<Longrightarrow> unread w rp = [] \<longleftrightarrow> rp = wr_wp w"
  by (auto simp: unread_def wring_inv_def slice_def)

lemma unread_advance:
  assumes "wring_inv w rp" and "rp \<noteq> wr_wp w"
  shows "unread w rp = wr_slots w ! rp # unread w (ptr_inc (length (wr_slots w)) rp)"
proof -
  have i: "wr_wp w < length (wr_slots w)" "rp < length (wr_slots w)" using assms(1) by (auto simp: wring_inv_def)
  have d: "drop rp (wr_slots w) = wr_slots w ! rp # drop (Suc rp) (wr_slots w)" using i(2) by (rule Cons_nth_drop_Suc [symmetric])
  show ?thesis
  proof (cases "rp \<le> wr_wp w")
    case True
    then obtain k where "wr_wp w - rp = Suc k" "wr_wp w - Suc rp = k" using assms(2) by (cases "wr_wp w - rp") auto
    then show ?thesis using True assms(2) i d by (simp add: unread_def ptr_inc_def slice_def)
  next
    case False
    then show ?thesis using i d by (auto simp: unread_def ptr_inc_def slice_def)
  qed
qed

interpretation wring: spsc_fifo "\<lambda>(w, rp). wring_inv w rp" "\<lambda>(w, rp). wring_full w rp"
  "\<lambda>e (w, rp). (wring_write e w, rp)" "\<lambda>(w, rp). wr_slots w ! rp" "\<lambda>(w, rp). (w, ptr_inc (length (wr_slots w)) rp)"
  "\<lambda>(w, rp). unread w rp"
proof (unfold_locales, goal_cases)
  case (1 q e)
  then show ?case by (auto simp: wring_inv_def wring_write_def ptr_inc_less)
next
  case (2 q e)
  then show ?case using unread_write by (cases q) simp
next
  case (3 q)
  then show ?case using unread_advance [of "fst q" "snd q"] by (cases q) (simp add: unread_Nil_iff)
next
  case (4 q)
  then show ?case by (auto simp: wring_inv_def ptr_inc_less)
next
  case (5 q)
  then show ?case using unread_advance [of "fst q" "snd q"] by (cases q) (simp add: unread_Nil_iff)
next
  case (6 q)
  then show ?case by (auto simp: unread_Nil_iff wring_inv_def wring_full_def ptr_inc_def split: if_splits)
qed

section \<open>From shared memory to the history\<close>

text \<open>The entry names an event and an element of it.\<close>

definition entry_ok :: "event_obj list \<Rightarrow> event_data \<Rightarrow> bool" where
  "entry_ok objs e \<longleftrightarrow>
     (case ed_event e of None \<Rightarrow> False
      | Some ev \<Rightarrow> ev < length objs \<and> ed_index e < length (ev_setTime (objs ! ev)) \<and> ed_index e < length (ev_resetTime (objs ! ev)))"

fun write_all :: "'e list \<Rightarrow> 'e wring \<Rightarrow> 'e wring" where
  "write_all [] w = w"
| "write_all (e # es) w = write_all es (wring_write e w)"

definition shape :: "event_obj \<Rightarrow> string \<times> priority \<times> nat \<times> nat \<times> nat" where
  "shape ob = (ev_path ob, ev_priority ob, ev_nelem ob, length (ev_setTime ob), length (ev_resetTime ob))"

lemma entry_ok_shape:
  assumes "map shape objs' = map shape objs"
  shows "entry_ok objs' e = entry_ok objs e"
proof -
  have len: "length objs' = length objs" by (metis assms length_map)
  have "shape (objs' ! k) = shape (objs ! k)" if "k < length objs" for k by (metis assms len nth_map that)
  then show ?thesis using len by (auto simp: entry_ok_def shape_def split: option.splits)
qed

lemma newEvent_ok:
  assumes "entry_ok (nr_objs nr) e"
  shows "\<exists>nr'. Main_newEvent e nr = Some nr' \<and> nr_list nr' = wring_write e (nr_list nr) \<and> map shape (nr_objs nr') = map shape (nr_objs nr)"
  using assms by (auto simp: Main_newEvent_def entry_ok_def Let_def shape_def map_update_same split: option.splits)

lemma event_loop_ok:
  assumes "wring_inv w rp" and "\<forall>e\<in>set (unread w rp). entry_ok (nr_objs nr) e"
  shows "\<exists>nr'. event_loop w rp nr = Some (wr_wp w, nr') \<and> nr_list nr' = write_all (unread w rp) (nr_list nr)
    \<and> map shape (nr_objs nr') = map shape (nr_objs nr)"
  using assms
proof (induction "unread w rp" arbitrary: rp nr)
  case Nil
  then have "rp = wr_wp w" using unread_Nil_iff by metis
  then show ?case using Nil(1) by (subst event_loop.simps) (auto simp flip: Nil(1))
next
  case (Cons e es)
  then have ne: "rp \<noteq> wr_wp w" using unread_Nil_iff by (metis list.distinct(1))
  let ?rp = "ptr_inc (length (wr_slots w)) rp"
  have e: "e = wr_slots w ! rp" "es = unread w ?rp" using unread_advance [OF Cons.prems(1) ne] Cons(2) by simp_all
  then obtain nr1 where n: "Main_newEvent (wr_slots w ! rp) nr = Some nr1" "nr_list nr1 = wring_write e (nr_list nr)"
      "map shape (nr_objs nr1) = map shape (nr_objs nr)"
    using newEvent_ok [of nr e] Cons.prems(2) Cons(2) by (metis list.set_intros(1))
  have i: "wring_inv w ?rp" using Cons.prems(1) by (simp add: wring_inv_def ptr_inc_less)
  have "\<forall>x\<in>set (unread w ?rp). entry_ok (nr_objs nr1) x"
    using Cons.prems(2) e(2) entry_ok_shape [OF n(3)] by (simp flip: Cons(2))
  from Cons(1) [OF e(2) i this] obtain nr' where "event_loop w ?rp nr1 = Some (wr_wp w, nr')"
      "nr_list nr' = write_all es (nr_list nr1)" "map shape (nr_objs nr') = map shape (nr_objs nr1)" using e(2) by auto
  then show ?case using ne n by (subst event_loop.simps) (simp flip: Cons(2))
qed

section \<open>From the history to a session\<close>

lemma poll_ok:
  assumes "wring_inv w rp" and "\<forall>e\<in>set (unread w rp). ed_event e \<noteq> None"
  shows "poll_events ident objs w rp out
    = Some (wr_wp w, out @ concat (map (\<lambda>e. fst (Event_toXml ident objs e)) (unread w rp)))"
  using assms
proof (induction "unread w rp" arbitrary: rp out)
  case Nil
  then have rp: "rp = wr_wp w" using unread_Nil_iff by metis
  then have "Main_getNextEvent w rp = (EventData_new, wr_wp w)" by (simp add: Main_getNextEvent_def)
  then show ?case using Nil(1) rp
    by (subst poll_events.simps) (simp flip: Nil(1) add: EventData_new_def Event_toXml_def)
next
  case (Cons e es)
  then have ne: "rp \<noteq> wr_wp w" using unread_Nil_iff by (metis list.distinct(1))
  let ?rp = "ptr_inc (length (wr_slots w)) rp"
  have e: "e = wr_slots w ! rp" "es = unread w ?rp" using unread_advance [OF Cons.prems(1) ne] Cons(2) by simp_all
  have i: "wring_inv w ?rp" using Cons.prems(1) by (simp add: wring_inv_def ptr_inc_less)
  have x: "snd (Event_toXml ident objs e)" using Cons.prems(2) by (auto simp: Event_toXml_def Let_def simp flip: Cons(2))
  have g: "Main_getNextEvent w rp = (e, ?rp)" using ne Cons.prems(1) e(1) by (simp add: Main_getNextEvent_def wring_inv_def)
  have "\<forall>e\<in>set (unread w ?rp). ed_event e \<noteq> None" using Cons.prems(2) e(2) by (simp flip: Cons(2))
  from Cons(1) [OF e(2) i this] have "poll_events ident objs w ?rp (out @ fst (Event_toXml ident objs e)) =
      Some (wr_wp w, (out @ fst (Event_toXml ident objs e)) @ concat (map (\<lambda>e. fst (Event_toXml ident objs e)) es))" using e(2) by simp
  then show ?case using x g by (subst poll_events.simps) (auto simp: split_beta simp flip: Cons(2))
qed

text \<open>
  Writes that do not reach a reader's position are all seen by it.
\<close>

lemma write_all_unread:
  assumes "wring_inv w rp" and "length (unread w rp) + length es < length (wr_slots w)"
  shows "unread (write_all es w) rp = unread w rp @ es" and "wring_inv (write_all es w) rp"
proof -
  have len: "length (wr_slots (wring_write e w)) = length (wr_slots w)" for e and w :: "'a wring" by (simp add: wring_write_def)
  have nf: "\<not> wring_full w rp" if "wring_inv w rp" "Suc (length (unread w rp)) < length (wr_slots w)" for w :: "'a wring"
    using that by (auto simp: wring_full_def wring_inv_def unread_def ptr_inc_def split: if_splits)
  have "unread (write_all es w) rp = unread w rp @ es \<and> wring_inv (write_all es w) rp"
    using assms
  proof (induction es arbitrary: w)
    case (Cons e es)
    have "unread (wring_write e w) rp = unread w rp @ [e]" by (rule unread_write) (use Cons.prems nf in auto)
    moreover have "wring_inv (wring_write e w) rp" using Cons.prems(1) by (simp add: wring_inv_def wring_write_def ptr_inc_less)
    ultimately show ?case using Cons.IH [of "wring_write e w"] Cons.prems(2) len by simp
  qed simp
  then show "unread (write_all es w) rp = unread w rp @ es" and "wring_inv (write_all es w) rp" by simp_all
qed

text \<open>
  Property C22 (events_reach_sessions): when every pending entry of the area in shared memory names an event and one of its
  elements, the loop of the non-real-time process ends with the area read; and a session at any position of the history receives,
  when it polls afterwards, first the messages it had not read yet and then exactly those of the entries that were pending, in
  their order, and is up to date. The condition is that these are together fewer than the entries of the history (the writer does
  not wait for the sessions).
\<close>

theorem events_reach_sessions:
  assumes "wring_inv w rp" and "\<forall>e\<in>set (unread w rp). entry_ok (nr_objs nr) e"
    and "wring_inv (nr_list nr) eventId" and "\<forall>e\<in>set (unread (nr_list nr) eventId). ed_event e \<noteq> None"
    and "length (unread (nr_list nr) eventId) + length (unread w rp) < length (wr_slots (nr_list nr))"
  shows "\<exists>nr'. event_loop w rp nr = Some (wr_wp w, nr')
    \<and> poll_events ident (nr_objs nr') (nr_list nr') eventId []
        = Some (wr_wp (nr_list nr'),
            concat (map (\<lambda>e. fst (Event_toXml ident (nr_objs nr') e)) (unread (nr_list nr) eventId @ unread w rp)))
    \<and> unread (nr_list nr') (wr_wp (nr_list nr')) = []"
proof -
  obtain nr' where l: "event_loop w rp nr = Some (wr_wp w, nr')" "nr_list nr' = write_all (unread w rp) (nr_list nr)"
    using event_loop_ok [OF assms(1,2)] by blast
  note u = write_all_unread [OF assms(3,5), folded l(2)]
  have "\<forall>e\<in>set (unread (nr_list nr') eventId). ed_event e \<noteq> None"
    using assms(2,4) u(1) by (auto simp: entry_ok_def split: option.splits)
  then show ?thesis using l(1) poll_ok [OF u(2), of ident "nr_objs nr'" "[]"] u(1) by (auto simp: unread_def)
qed

text \<open>With as many entries as the history has, the session receives none of them.\<close>

lemma session_overrun:
  "0 < n \<Longrightarrow> length es = n \<Longrightarrow> poll_events ident objs (write_all es \<lparr>wr_slots = replicate n e0, wr_wp = 0\<rparr>) 0 [] = Some (0, [])"
proof -
  assume n: "0 < n" "length es = n"
  have wp: "wr_wp (write_all es w) = (wr_wp w + length es) mod n \<and> length (wr_slots (write_all es w)) = n"
    if "length (wr_slots w) = n" "wr_wp w < n" for w :: "event_data wring" and es
    using that
  proof (induction es arbitrary: w)
    case (Cons e es)
    have i: "length (wr_slots (wring_write e w)) = n" "wr_wp (wring_write e w) = Suc (wr_wp w) mod n" "Suc (wr_wp w) mod n < n"
      using Cons.prems n(1) by (auto simp: wring_write_def ptr_inc_def)
    then show ?case using Cons.IH [of "wring_write e w"] by (simp add: mod_simps)
  qed simp
  let ?w = "write_all es \<lparr>wr_slots = replicate n e0, wr_wp = 0\<rparr>"
  have "wr_wp ?w = 0" using wp [of "\<lparr>wr_slots = replicate n e0, wr_wp = 0\<rparr>" es] n by simp
  then show ?thesis
    by (subst poll_events.simps) (simp add: Main_getNextEvent_def Event_toXml_def EventData_new_def Let_def)
qed

section \<open>The history\<close>

definition empty_log :: "nat \<Rightarrow> event_data wring" where
  "empty_log n = \<lparr>wr_slots = replicate n EventData_new, wr_wp = 0\<rparr>"

lemma write_all_snoc: "write_all (es @ [e]) w = wring_write e (write_all es w)"
  by (induction es arbitrary: w) auto

lemma log_contents:
  assumes "0 < n"
  shows "length (wr_slots (write_all es (empty_log n))) = n \<and> wr_wp (write_all es (empty_log n)) < n
    \<and> (if length es < n then wr_slots (write_all es (empty_log n)) = es @ replicate (n - length es) EventData_new
         \<and> wr_wp (write_all es (empty_log n)) = length es
       else drop (wr_wp (write_all es (empty_log n))) (wr_slots (write_all es (empty_log n)))
         @ take (wr_wp (write_all es (empty_log n))) (wr_slots (write_all es (empty_log n))) = drop (length es - n) es)"
proof (induction es rule: rev_induct)
  case Nil
  then show ?case using assms by (simp add: empty_log_def)
next
  case (snoc e es)
  obtain xs wp where w: "write_all es (empty_log n) = \<lparr>wr_slots = xs, wr_wp = wp\<rparr>" by (cases "write_all es (empty_log n)")
  then have w': "write_all (es @ [e]) (empty_log n) = \<lparr>wr_slots = xs[wp := e], wr_wp = ptr_inc (length xs) wp\<rparr>"
    by (simp add: write_all_snoc wring_write_def)
  have i: "length xs = n" "wp < n" using snoc w by simp_all
  have lt: "ptr_inc n wp < n" using i(2) by (rule ptr_inc_less)
  show ?case
  proof (cases "length es < n")
    case True
    then have x: "xs = es @ replicate (n - length es) EventData_new" "wp = length es" using snoc w by simp_all
    then obtain k where k: "n - length es = Suc k" using True by (metis Suc_diff_Suc)
    then have u: "xs[wp := e] = es @ [e] @ replicate k EventData_new" using x by simp
    show ?thesis using True i lt x(2) k u by (auto simp: w' ptr_inc_def)
  next
    case False
    then have r: "drop wp xs @ take wp xs = drop (length es - n) es" using snoc w by simp
    have d: "drop wp xs = xs ! wp # drop (Suc wp) xs" using i by (simp add: Cons_nth_drop_Suc)
    have "drop (ptr_inc n wp) (xs[wp := e]) @ take (ptr_inc n wp) (xs[wp := e]) = tl (drop wp xs @ take wp xs) @ [e]"
    proof (cases "Suc wp = n")
      case True
      then have "xs[wp := e] = take wp xs @ [e]" using i by (simp add: upd_conv_take_nth_drop)
      then show ?thesis using True d i by (simp add: ptr_inc_def)
    next
      case False
      then show ?thesis using d i by (simp add: ptr_inc_def take_Suc_conv_app_nth)
    qed
    also have "tl (drop wp xs @ take wp xs) = drop (Suc (length es) - n) es"
      using False r by (simp add: Suc_diff_le drop_Suc tl_drop)
    finally show ?thesis using False i lt by (simp add: w')
  qed
qed

lemma history_text:
  assumes "0 < n" and "\<forall>e\<in>set es. ed_event e \<noteq> None"
  shows "messageHistory ident objs (write_all es (empty_log n)) (wr_wp (write_all es (empty_log n)))
    = concat (map (\<lambda>e. fst (Event_toXml ident objs e)) (drop (length es - n) es))"
proof -
  obtain xs wp where w: "write_all es (empty_log n) = \<lparr>wr_slots = xs, wr_wp = wp\<rparr>" by (cases "write_all es (empty_log n)")
  note c = log_contents [OF assms(1), of es, unfolded w, simplified]
  show ?thesis
  proof (cases "length es < n")
    case True
    then have x: "xs = es @ replicate (n - length es) EventData_new" "wp = length es" using c by simp_all
    have "ed_event (xs ! wp) = None" using x True by (simp add: nth_append EventData_new_def)
    then have h: "Main_getEventHistory \<lparr>wr_slots = xs, wr_wp = wp\<rparr> wp = (if es = [] then xs else es)"
      using x by (auto simp: Main_getEventHistory_def)
    have "fst (Event_toXml ident objs EventData_new) = []" by (simp add: Event_toXml_def EventData_new_def)
    then show ?thesis using True h x w by (simp add: messageHistory_def)
  next
    case False
    then have r: "drop wp xs @ take wp xs = drop (length es - n) es" using c by simp
    have "xs ! wp \<in> set (drop (length es - n) es)" using r c by (metis Cons_nth_drop_Suc in_set_conv_decomp_first append_Cons list.set_intros(1))
    then have "ed_event (xs ! wp) \<noteq> None" using assms(2) by (meson in_set_dropD)
    then have "Main_getEventHistory \<lparr>wr_slots = xs, wr_wp = wp\<rparr> wp = drop wp xs @ take wp xs"
      by (simp add: Main_getEventHistory_def)
    then show ?thesis using r w by (simp add: messageHistory_def)
  qed
qed

text \<open>
  Property C23 (history_is_latest): a session that is up to date and asks for the message history receives the
  messages of the latest events, as many as the history holds, oldest first, whether or not the array has
  wrapped around.
\<close>

theorem history_is_latest:
  assumes "0 < n" and "list_all (\<lambda>e. ed_event e \<noteq> None) es" and "w = write_all es (empty_log n)"
  shows "messageHistory ident objs w (wr_wp w)
    = concat (map (\<lambda>e. fst (Event_toXml ident objs e)) (drop (length es - n) es))"
  using history_text assms by (simp add: list_all_iff)

definition demo_event :: "nat \<Rightarrow> bool \<Rightarrow> event_data" where
  "demo_event k s = \<lparr>ed_event = Some 0, ed_index = k, ed_state = s, ed_time = (5, 0)\<rparr>"

theorem history_is_latest_witness:
  "messageHistory [] [Event_new ''e'' Warning 3] (write_all [demo_event 0 True, demo_event 2 True, demo_event 0 False] (empty_log 2)) 1
    = fst (Event_toXml [] [Event_new ''e'' Warning 3] (demo_event 2 True))
      @ fst (Event_toXml [] [Event_new ''e'' Warning 3] (demo_event 0 False))"
proof -
  let ?es = "[demo_event 0 True, demo_event 2 True, demo_event 0 False]"
  have "wr_wp (write_all ?es (empty_log 2)) = 1" by (simp add: empty_log_def wring_write_def ptr_inc_def)
  then show ?thesis
    using history_is_latest [of 2 ?es "write_all ?es (empty_log 2)" "[]" "[Event_new ''e'' Warning 3]"] by (simp add: demo_event_def)
qed

theorem events_reach_sessions_witness:
  "\<exists>nr'. event_loop \<lparr>wr_slots = [demo_event 0 True, demo_event 2 True, EventData_new], wr_wp = 2\<rparr> 0
      \<lparr>nr_objs = [Event_new ''e'' Warning 3], nr_list = \<lparr>wr_slots = replicate 3 EventData_new @ [demo_event 1 True], wr_wp = 0\<rparr>,
       nr_log = []\<rparr> = Some (2, nr')
    \<and> poll_events [] (nr_objs nr') (nr_list nr') 3 [] = Some (wr_wp (nr_list nr'),
        fst (Event_toXml [] (nr_objs nr') (demo_event 1 True)) @ fst (Event_toXml [] (nr_objs nr') (demo_event 0 True))
          @ fst (Event_toXml [] (nr_objs nr') (demo_event 2 True)))"
proof -
  let ?w = "\<lparr>wr_slots = [demo_event 0 True, demo_event 2 True, EventData_new], wr_wp = 2\<rparr>"
  define h where "h = \<lparr>wr_slots = replicate 3 EventData_new @ [demo_event 1 True], wr_wp = 0\<rparr>"
  define nr where "nr = \<lparr>nr_objs = [Event_new ''e'' Warning 3], nr_list = h, nr_log = []\<rparr>"
  have u: "unread ?w 0 = [demo_event 0 True, demo_event 2 True]" by (simp add: unread_def slice_def)
  have v: "unread (nr_list nr) 3 = [demo_event 1 True]" by (simp add: unread_def nr_def h_def)
  have a: "\<forall>e\<in>set (unread ?w 0). entry_ok (nr_objs nr) e"
    unfolding u by (simp add: entry_ok_def demo_event_def Event_new_def nr_def)
  have b: "wring_inv ?w 0" "wring_inv (nr_list nr) 3" "\<forall>e\<in>set (unread (nr_list nr) 3). ed_event e \<noteq> None"
    "length (unread (nr_list nr) 3) + length (unread ?w 0) < length (wr_slots (nr_list nr))"
    unfolding u v by (simp_all add: wring_inv_def nr_def h_def) (simp add: demo_event_def)
  from events_reach_sessions [OF b(1) a b(2-4), of "[]"] show ?thesis
    unfolding u v unfolding h_def [symmetric] nr_def [symmetric] by auto
qed

section \<open>Edges\<close>

text \<open>
  Calls of \<open>Event::set\<close> from the real-time application, with the entries they publish: what a reader that was up to date before
  the call finds in the area after it.
\<close>

fun set_calls :: "(nat \<times> nat \<times> bool \<times> timespec) list \<Rightarrow> rt_events \<Rightarrow> (rt_events \<times> event_data list) option" where
  "set_calls [] rt = Some (rt, [])"
| "set_calls ((ev, elem, st, t) # cs) rt =
     (case Event_set ev elem st t rt of
        None \<Rightarrow> None
      | Some rt' \<Rightarrow> map_option (\<lambda>(r, es). (r, unread (rt_ring rt') (wr_wp (rt_ring rt)) @ es)) (set_calls cs rt'))"

definition states_of :: "nat \<Rightarrow> nat \<Rightarrow> event_data list \<Rightarrow> bool list" where
  "states_of ev elem es = map ed_state (filter (\<lambda>e. ed_event e = Some ev \<and> ed_index e = elem) es)"

definition rt_state :: "rt_events \<Rightarrow> nat \<Rightarrow> nat \<Rightarrow> bool" where
  "rt_state rt ev elem = ev_rt_state (rt_objs rt ! ev) ! elem"

fun alternates :: "bool \<Rightarrow> bool list \<Rightarrow> bool" where
  "alternates b [] = True"
| "alternates b (x # xs) = (x = (\<not> b) \<and> alternates x xs)"

lemma Event_set_effect:
  assumes "Event_set ev elem st t rt = Some rt'" and "wr_wp (rt_ring rt) < length (wr_slots (rt_ring rt))" and "1 < length (wr_slots (rt_ring rt))"
  shows "wr_wp (rt_ring rt') < length (wr_slots (rt_ring rt'))" and "1 < length (wr_slots (rt_ring rt'))"
    and "unread (rt_ring rt') (wr_wp (rt_ring rt)) =
      (if rt_state rt ev elem = st then [] else [\<lparr>ed_event = Some ev, ed_index = elem, ed_state = st, ed_time = t\<rparr>])"
    and "rt_state rt' ev' elem' = (if ev' = ev \<and> elem' = elem then st else rt_state rt ev' elem')"
proof -
  have v: "ev < length (rt_objs rt)" "elem < length (ev_rt_state (rt_objs rt ! ev))"
    using assms(1) by (auto simp: Event_set_def split: if_splits)
  let ?ob = "rt_objs rt ! ev"
  let ?ob' = "?ob\<lparr>ev_rt_state := (ev_rt_state ?ob)[elem := st]\<rparr>"
  have rt': "rt' = (if rt_state rt ev elem = st then rt else Main_setEvent ev elem st t (rt\<lparr>rt_objs := (rt_objs rt)[ev := ?ob']\<rparr>))"
    using assms(1) v by (simp add: Event_set_def rt_state_def Let_def split: if_splits)
  show "wr_wp (rt_ring rt') < length (wr_slots (rt_ring rt'))" "1 < length (wr_slots (rt_ring rt'))"
    using assms(2,3) by (simp_all add: rt' Main_setEvent_def wring_write_def ptr_inc_less)
  have i: "wring_inv (rt_ring rt) (wr_wp (rt_ring rt))" using assms(2) by (simp add: wring_inv_def)
  moreover have "\<not> wring_full (rt_ring rt) (wr_wp (rt_ring rt))" using assms(3) by (auto simp: wring_full_def ptr_inc_def)
  ultimately show "unread (rt_ring rt') (wr_wp (rt_ring rt)) =
      (if rt_state rt ev elem = st then [] else [\<lparr>ed_event = Some ev, ed_index = elem, ed_state = st, ed_time = t\<rparr>])"
    using unread_Nil_iff [OF i] unread_write [OF i] by (simp add: rt' Main_setEvent_def)
  show "rt_state rt' ev' elem' = (if ev' = ev \<and> elem' = elem then st else rt_state rt ev' elem')"
    using v by (cases "ev' = ev") (auto simp: rt' rt_state_def Main_setEvent_def nth_list_update)
qed

text \<open>
  Property C24 (event_edges): for every element of every event, the entries published by any sequence of
  calls are its changes: their states alternate, starting with the opposite of the initial state and
  ending with the current one; repeated settings publish nothing (the area has more than one entry: there are ten for every
  element).
\<close>

theorem event_edges:
  assumes "set_calls cs rt = Some (rt', es)" and "wr_wp (rt_ring rt) < length (wr_slots (rt_ring rt))"
    and "1 < length (wr_slots (rt_ring rt))"
  shows "alternates (rt_state rt ev elem) (states_of ev elem es)
    \<and> rt_state rt' ev elem = last (rt_state rt ev elem # states_of ev elem es)"
  using assms
proof (induction cs arbitrary: rt es)
  case (Cons c cs)
  obtain ev1 elem1 st t where c: "c = (ev1, elem1, st, t)" by (cases c) auto
  then obtain rt1 es1 where r: "Event_set ev1 elem1 st t rt = Some rt1" "set_calls cs rt1 = Some (rt', es1)"
      "es = unread (rt_ring rt1) (wr_wp (rt_ring rt)) @ es1"
    using Cons.prems(1) by (auto split: option.splits)
  note e = Event_set_effect [OF r(1) Cons.prems(2,3)]
  have s: "states_of ev elem es = (if rt_state rt ev1 elem1 \<noteq> st \<and> ev1 = ev \<and> elem1 = elem then [st] else []) @ states_of ev elem es1"
    by (simp add: r(3) e(3) states_of_def)
  show ?case using Cons.IH [OF r(2) e(1,2)] e(4) [of ev elem] by (auto simp: s split: if_splits)
qed (simp add: states_of_def)

theorem event_edges_witness:
  "\<exists>rt' es. set_calls [(0, 1, True, (1, 0)), (0, 1, True, (2, 0)), (0, 0, True, (2, 0)), (0, 1, False, (3, 0))]
       \<lparr>rt_objs = [Event_new ''e'' Warning 2], rt_ring = empty_log 20\<rparr> = Some (rt', es)
     \<and> states_of 0 1 es = [True, False] \<and> alternates False (states_of 0 1 es)"
proof -
  let ?cs = "[(0, 1, True, (1, 0)), (0, 1, True, (2, 0)), (0, 0, True, (2, 0)), (0, 1, False, (3, 0))] :: (nat \<times> nat \<times> bool \<times> timespec) list"
  let ?rt = "\<lparr>rt_objs = [Event_new ''e'' Warning 2], rt_ring = empty_log 20\<rparr>"
  have "set_calls ?cs ?rt \<noteq> None \<and> states_of 0 1 (snd (the (set_calls ?cs ?rt))) = [True, False]" by code_simp
  then obtain rt' es where r: "set_calls ?cs ?rt = Some (rt', es)" "states_of 0 1 es = [True, False]" by auto
  have "rt_state ?rt 0 1 = False" by code_simp
  with event_edges [OF r(1), of 0 1] r show ?thesis by (auto simp: empty_log_def)
qed

text \<open>There is no test for a full area: as many events as there are entries make it look empty.\<close>

lemma event_area_overrun:
  "unread (write_all [demo_event 0 True, demo_event 0 False, demo_event 0 True] (empty_log 3)) 0 = []"
  by (simp add: empty_log_def wring_write_def ptr_inc_def unread_def)

end
