(* ===== verification/Param_Store.thy ===== *)
theory Param_Store
  imports Event_Log Pdo_Stream
begin

text \<open>
  \<open>lib/Main.cpp\<close>: how \<open>prefork_init\<close> divides the shared memory, and the dialogue over two pipes by
  which the server changes parameters and polls signals of the real-time process (\<open>setValue\<close>,
  \<open>getValue\<close>, \<open>run\<close>). Memory is a function from addresses to bytes; the server sees the shared memory
  only, the real-time process also its own memory. Failures of the pipes, the callbacks of the
  application and its clock are arguments.
\<close>

section \<open>Parameters\<close>

record param =
  pa_path :: string
  pa_dtype :: dtype
  pa_memSize :: nat
  pa_addr :: nat
  pa_shmAddr :: nat
  pa_mtime :: timespec

definition Parameter_new :: "string \<Rightarrow> dtype \<Rightarrow> nat list \<Rightarrow> nat \<Rightarrow> param" where
  "Parameter_new path dtype dim addr =
     \<lparr>pa_path = path, pa_dtype = dtype, pa_memSize = nelem dim * dt_size dtype, pa_addr = addr,
      pa_shmAddr = 0, pa_mtime = (0, 0)\<rparr>"

definition Main_addParameter :: "string \<Rightarrow> dtype \<Rightarrow> nat list \<Rightarrow> nat \<Rightarrow> param list \<Rightarrow> param list" where
  "Main_addParameter path dtype dim addr params = params @ [Parameter_new path dtype dim addr]"

fun Main_findParameter :: "string \<Rightarrow> param list \<Rightarrow> param option" where
  "Main_findParameter path [] = None"
| "Main_findParameter path (p # ps) = (if pa_path p = path then Some p else Main_findParameter path ps)"

type_synonym bytes = "nat \<Rightarrow> u8"

definition write_bytes :: "bytes \<Rightarrow> nat \<Rightarrow> u8 list \<Rightarrow> bytes" where
  "write_bytes mem a bs = (\<lambda>x. if a \<le> x \<and> x < a + length bs then bs ! (x - a) else mem x)"

section \<open>Division of the shared memory\<close>

text \<open>\<open>parameterDataOffset\<close>: five sums of memory sizes, by the alignment of the data type.\<close>

definition param_class :: "param \<Rightarrow> nat" where
  "param_class p = dataTypeIndex ! align (pa_dtype p)"

definition add_size :: "param \<Rightarrow> nat list \<Rightarrow> nat list" where
  "add_size p off = (let k = param_class p + 1 in off[k := off ! k + pa_memSize p])"

definition accumulate :: "nat list \<Rightarrow> nat list" where
  "accumulate off = fold (\<lambda>i off. off[i := off ! i + off ! (i - 1)]) [1..<5] off"

definition parameterDataOffset :: "param list \<Rightarrow> nat list" where
  "parameterDataOffset ps = accumulate (fold add_size ps [0, 0, 0, 0, 0])"

definition place_param :: "nat \<Rightarrow> param \<Rightarrow> nat list \<Rightarrow> param \<times> nat list" where
  "place_param base p off =
     (let k = param_class p in (p\<lparr>pa_shmAddr := base + off ! k\<rparr>, off[k := off ! k + pa_memSize p]))"

fun place_params :: "nat \<Rightarrow> param list \<Rightarrow> nat list \<Rightarrow> param list" where
  "place_params base [] off = []"
| "place_params base (p # ps) off =
     (let (p', off') = place_param base p off in p' # place_params base ps off')"

definition copy_param :: "bytes \<Rightarrow> param \<Rightarrow> bytes \<Rightarrow> bytes" where
  "copy_param rmem p shm = write_bytes shm (pa_shmAddr p) (read_bytes rmem (pa_addr p) (pa_memSize p))"

fun place_tasks :: "nat \<Rightarrow> nat list \<Rightarrow> (nat \<times> nat) list \<times> nat" where
  "place_tasks buf [] = ([], buf)"
| "place_tasks buf (s # ss) =
     (let (rs, e) = place_tasks (ptr_align (buf + s)) ss in ((buf, buf + s) # rs, e))"

text \<open>\<open>sizeof(struct EventData)\<close>, \<open>sizeof(EventData*)\<close>, \<open>sizeof(unsigned long)\<close> and \<open>eventLen\<close>.\<close>

definition sizeof_EventData :: nat where
  "sizeof_EventData = 40"

definition eventLen :: nat where
  "eventLen = 10"

record layout =
  lo_len :: nat
  lo_shmem :: nat
  lo_params :: "param list"
  lo_parameterData :: nat
  lo_signalData :: nat
  lo_tasks :: "(nat \<times> nat) list"
  lo_eventWp :: nat
  lo_eventStart :: nat
  lo_eventEnd :: nat
  lo_mem :: bytes

definition maxSignalSize :: "nat list list \<Rightarrow> nat" where
  "maxSignalSize sizes = fold (\<lambda>s m. if s > m then s else m) (concat sizes) 0"

definition shmem_size :: "nat list list \<Rightarrow> param list \<Rightarrow> nat \<Rightarrow> nat list \<Rightarrow> nat" where
  "shmem_size sizes ps eventCount taskMem =
     maxSignalSize sizes + parameterDataOffset ps ! 4
     + sizeof_EventData * eventLen * eventCount + 8
     + sum_list taskMem + (10 + length taskMem) * 8"

text \<open>
  \<open>prefork_init\<close>. The tasks come with the number of Pdos wanted for \<open>bufferTime\<close>, \<open>mmap\<close> gives the
  address of the new mapping (\<open>None\<close>: \<open>MAP_FAILED\<close>), \<open>rmem\<close> is the memory of the application. \<open>Inl\<close> is
  the error code.
\<close>

definition ENOMEM :: int where "ENOMEM = 12"

definition Main_prefork_init ::
  "(nat \<times> 'z task_scheme) list \<Rightarrow> param list \<Rightarrow> nat \<Rightarrow> (nat \<Rightarrow> nat option) \<Rightarrow> int \<Rightarrow> bytes \<Rightarrow> int + layout" where
  "Main_prefork_init ts ps eventCount mmap errno rmem =
     (let sizes = map (\<lambda>t. map sig_memSize (signals (snd t))) ts;
          taskMem = map (\<lambda>t. ptr_align (Task_getShmemSpace (fst t) (snd t))) ts;
          len = shmem_size sizes ps eventCount taskMem
      in case mmap len of
           None \<Rightarrow> Inl errno
         | Some shmem \<Rightarrow>
             let off = parameterDataOffset ps;
                 pdata = ptr_align shmem;
                 params = place_params pdata ps off;
                 mem = fold (copy_param rmem) params (\<lambda>_. 0);
                 sdata = ptr_align (pdata + off ! 4);
                 (regions, buf) = place_tasks (ptr_align (sdata + maxSignalSize sizes)) taskMem;
                 wp = ptr_align buf;
                 start = ptr_align (wp + 8);
                 stop = start + sizeof_EventData * (eventLen * eventCount)
             in if stop + sizeof_EventData > shmem + len then Inl ENOMEM
                else Inr \<lparr>lo_len = len, lo_shmem = shmem, lo_params = params, lo_parameterData = pdata, lo_signalData = sdata,
                          lo_tasks = regions, lo_eventWp = wp, lo_eventStart = start, lo_eventEnd = stop, lo_mem = mem\<rparr>)"

section \<open>Service data objects\<close>

text \<open>
  The requests and replies on the pipes. Offsets and counts are \<open>unsigned int\<close>. A write callback gets
  the address in the application's memory and the new bytes, and returns the error code, the time it
  stored, if any, and the memory; a read callback fills the buffer.
\<close>

datatype sdo =
    ParamChange param nat nat
  | PollSignal nat nat
  | ParamChangeAck int "timespec option"
  | PollAck "timespec option"

type_synonym write_cb = "param \<Rightarrow> bytes \<Rightarrow> nat \<Rightarrow> u8 list \<Rightarrow> int \<times> timespec option \<times> bytes"
type_synonym read_cb = "bytes \<Rightarrow> nat \<Rightarrow> nat \<Rightarrow> u8 list \<times> timespec option"

definition Parameter_copy :: "timespec \<Rightarrow> write_cb" where
  "Parameter_copy now p rmem addr bs = (0, Some now, write_bytes rmem addr bs)"

definition Signal_copy :: "timespec option \<Rightarrow> read_cb" where
  "Signal_copy tasktime rmem addr len = (read_bytes rmem addr len, tasktime)"

record procs =
  pr_shm :: bytes
  pr_rt :: bytes
  pr_params :: "param list"
  pr_signalData :: nat
  pr_ipc_error :: bool

text \<open>One turn of the loop of \<open>Main::run\<close> in the real-time process.\<close>

fun Main_run_step :: "write_cb \<Rightarrow> read_cb \<Rightarrow> sdo \<Rightarrow> procs \<Rightarrow> sdo \<times> procs" where
  "Main_run_step wcb rcb (ParamChange p offset count) st =
     (let (rv, t, rmem) = wcb p (pr_rt st) (pa_addr p + offset) (read_bytes (pr_shm st) (pa_shmAddr p + offset) count)
      in (ParamChangeAck rv t, st\<lparr>pr_rt := rmem\<rparr>))"
| "Main_run_step wcb rcb (PollSignal addr memSize) st =
     (let (bs, t) = rcb (pr_rt st) addr memSize
      in (PollAck t, st\<lparr>pr_shm := write_bytes (pr_shm st) (pr_signalData st) bs\<rparr>))"
| "Main_run_step wcb rcb s st = (s, st)"

definition EIO :: int where "EIO = 5"

text \<open>
  Request and reply share the memory of a union: where the reply has its time, the request has its offset and count (both of
  32 bits, read as the 64-bit seconds), and behind them nothing was written (\<open>junk\<close>: the nanoseconds). That is the time a
  callback leaves that stores none.
\<close>

definition unset_time :: "int \<Rightarrow> nat \<Rightarrow> nat \<Rightarrow> timespec" where
  "unset_time junk offset count =
     (let raw = int (offset mod 2 ^ 32) + 2 ^ 32 * int (count mod 2 ^ 32)
      in (if raw < 2 ^ 63 then raw else raw - 2 ^ 64, junk))"

text \<open>\<open>txok\<close> and \<open>rxok\<close>: whether the pipes carried the whole request and reply.\<close>

definition Main_setValue ::
  "int \<Rightarrow> write_cb \<Rightarrow> bool \<Rightarrow> bool \<Rightarrow> nat \<Rightarrow> u8 list \<Rightarrow> nat \<Rightarrow> procs \<Rightarrow> int \<times> procs" where
  "Main_setValue junk wcb txok rxok k buf offset st =
     (let p = pr_params st ! k;
          count = length buf;
          shmAddr = pa_shmAddr p + offset;
          backup = read_bytes (pr_shm st) shmAddr count;
          st1 = st\<lparr>pr_shm := write_bytes (pr_shm st) shmAddr buf\<rparr>
      in if \<not> txok then (- EIO, st1\<lparr>pr_ipc_error := True\<rparr>)
         else
           let (ack, st2) = Main_run_step wcb (Signal_copy None) (ParamChange p (offset mod 2 ^ 32) (count mod 2 ^ 32)) st1
           in if \<not> rxok then (- EIO, st2\<lparr>pr_ipc_error := True\<rparr>)
              else case ack of
                     ParamChangeAck rv t \<Rightarrow>
                       if rv = 0
                       then (0, st2\<lparr>pr_params := (pr_params st2)[k := p\<lparr>pa_mtime := (case t of Some x \<Rightarrow> x | None \<Rightarrow> unset_time junk offset count)\<rparr>]\<rparr>)
                       else (rv, st2\<lparr>pr_shm := write_bytes (pr_shm st2) shmAddr backup\<rparr>)
                   | _ \<Rightarrow> (0, st2))"

definition Main_getValue ::
  "read_cb \<Rightarrow> bool \<Rightarrow> bool \<Rightarrow> nat \<Rightarrow> nat \<Rightarrow> procs \<Rightarrow> int \<times> (u8 list \<times> timespec option) option \<times> procs" where
  "Main_getValue rcb txok rxok addr memSize st =
     (if \<not> txok then (- EIO, None, st\<lparr>pr_ipc_error := True\<rparr>)
      else
        let (ack, st1) = Main_run_step (Parameter_copy (0, 0)) rcb (PollSignal addr memSize) st
        in if \<not> rxok then (- EIO, None, st1\<lparr>pr_ipc_error := True\<rparr>)
           else (0, Some (read_bytes (pr_shm st1) (pr_signalData st1) memSize,
                          case ack of PollAck t \<Rightarrow> t | _ \<Rightarrow> None), st1))"

definition Main_initializeParameter :: "nat \<Rightarrow> (u8 list \<times> timespec) option \<Rightarrow> bytes \<times> param list \<Rightarrow> bytes \<times> param list" where
  "Main_initializeParameter k data st =
     (case data of
        None \<Rightarrow> st
      | Some (bs, mtime) \<Rightarrow>
          let p = snd st ! k
          in (write_bytes (fst st) (pa_addr p) (take (pa_memSize p) bs), (snd st)[k := p\<lparr>pa_mtime := mtime\<rparr>]))"

section \<open>Reading a parameter (\<open>ProcessParameter.cpp\<close>)\<close>

definition ProcessParameter_copyValue :: "bytes \<Rightarrow> param \<Rightarrow> u8 list \<times> timespec" where
  "ProcessParameter_copyValue shm p = (read_bytes shm (pa_shmAddr p) (pa_memSize p), pa_mtime p)"

definition ProcessParameter_getValue :: "bytes \<Rightarrow> param \<Rightarrow> int \<times> u8 list \<times> timespec" where
  "ProcessParameter_getValue shm p = (0, ProcessParameter_copyValue shm p)"

definition ProcessParameter_print ::
  "(ctype \<Rightarrow> u8 list \<Rightarrow> string) \<Rightarrow> bytes \<Rightarrow> param \<Rightarrow> nat \<Rightarrow> nat \<Rightarrow> string option" where
  "ProcessParameter_print ff shm p offset count =
     dt_print ff shm (pa_dtype p) (pa_shmAddr p) (pa_shmAddr p + offset) (pa_shmAddr p + offset + count)"

section \<open>Regions\<close>

definition region :: "param \<Rightarrow> nat \<times> nat" where
  "region p = (pa_shmAddr p, pa_shmAddr p + pa_memSize p)"

definition separate :: "nat \<times> nat \<Rightarrow> nat \<times> nat \<Rightarrow> bool" where
  "separate r s \<longleftrightarrow> snd r \<le> fst s \<or> snd s \<le> fst r"

definition class_size :: "nat \<Rightarrow> param list \<Rightarrow> nat" where
  "class_size k ps = sum_list (map pa_memSize (filter (\<lambda>p. param_class p = k) ps))"

lemma class_size_simps [simp]:
  "class_size k [] = 0"
  "class_size k (p # ps) = (if param_class p = k then pa_memSize p else 0) + class_size k ps"
  by (simp_all add: class_size_def)

lemma param_class_less [simp]: "param_class p < 4"
  using dataTypeIndex_in_range by (simp add: param_class_def)

lemma param_class_shm [simp]: "param_class (p\<lparr>pa_shmAddr := a\<rparr>) = param_class p"
  by (simp add: param_class_def)

lemma add_size_fold:
  assumes "length off = 5"
  shows "length (fold add_size ps off) = 5 \<and> fold add_size ps off ! 0 = off ! 0
    \<and> (\<forall>k<4. fold add_size ps off ! Suc k = off ! Suc k + class_size k ps)"
  using assms
proof (induction ps arbitrary: off)
  case (Cons p ps)
  have "length (add_size p off) = 5" using Cons.prems by (simp add: add_size_def Let_def)
  from Cons.IH [OF this] Cons.prems show ?case
    by (auto simp: add_size_def Let_def nth_list_update)
qed simp

lemma parameterDataOffset_eq:
  "parameterDataOffset ps = [0, class_size 0 ps, class_size 0 ps + class_size 1 ps,
     class_size 0 ps + class_size 1 ps + class_size 2 ps,
     class_size 0 ps + class_size 1 ps + class_size 2 ps + class_size 3 ps]"
proof -
  let ?off = "fold add_size ps [0, 0, 0, 0, 0]"
  have f: "length ?off = 5" "?off ! 0 = 0" "?off ! 1 = class_size 0 ps" "?off ! 2 = class_size 1 ps"
      "?off ! 3 = class_size 2 ps" "?off ! 4 = class_size 3 ps"
    using add_size_fold [of "[0, 0, 0, 0, 0]" ps] by (auto simp: numeral_eq_Suc)
  then have "?off = [0, class_size 0 ps, class_size 1 ps, class_size 2 ps, class_size 3 ps]"
    by (intro nth_equalityI) (auto simp: less_Suc_eq numeral_eq_Suc)
  then show ?thesis
    by (simp add: parameterDataOffset_def accumulate_def upt_rec numeral_eq_Suc ac_simps)
qed

text \<open>
  Parameters of class \<open>k\<close> are placed one after the other in the segment from \<open>lob k\<close> to \<open>lim k\<close>.
\<close>

lemma place_params_ok:
  assumes "length off = 5" and "\<forall>k<4. lob k \<le> off ! k \<and> off ! k + class_size k ps \<le> lim k"
    and "\<forall>j k. j < k \<longrightarrow> k < 4 \<longrightarrow> lim j \<le> lob k"
  shows "sorted_wrt separate (map region (place_params base ps off))
    \<and> (\<forall>p\<in>set (place_params base ps off). base + off ! param_class p \<le> pa_shmAddr p
         \<and> pa_shmAddr p + pa_memSize p \<le> base + lim (param_class p))"
  using assms(1,2)
proof (induction ps arbitrary: off)
  case (Cons p ps)
  let ?k = "param_class p" and ?off = "off[param_class p := off ! param_class p + pa_memSize p]"
  have k: "?k < 4" by simp
  have kl: "?k < length off" using param_class_less [of p] Cons.prems(1) by linarith
  have o: "length ?off = 5" "\<And>j. ?off ! j = (if j = ?k then off ! ?k + pa_memSize p else off ! j)"
    using Cons.prems(1) kl by (auto simp: nth_list_update)
  have pre: "lob j \<le> ?off ! j \<and> ?off ! j + class_size j ps \<le> lim j" if "j < 4" for j
    using Cons.prems(2) that by (auto simp: o(2))
  have IH: "sorted_wrt separate (map region (place_params base ps ?off))"
      "\<forall>q\<in>set (place_params base ps ?off). base + ?off ! param_class q \<le> pa_shmAddr q
         \<and> pa_shmAddr q + pa_memSize q \<le> base + lim (param_class q)"
    using Cons.IH [OF o(1)] pre by auto
  have p: "off ! ?k + pa_memSize p \<le> lim ?k" "lob ?k \<le> off ! ?k" using Cons.prems(2) k by (auto dest!: spec [of _ ?k])
  let ?p = "p\<lparr>pa_shmAddr := base + off ! ?k\<rparr>"
  have sep: "separate (region ?p) (region q)" if q: "q \<in> set (place_params base ps ?off)" for q
  proof -
    have qb: "base + ?off ! param_class q \<le> pa_shmAddr q" "pa_shmAddr q + pa_memSize q \<le> base + lim (param_class q)" using IH(2) q by auto
    consider "param_class q = ?k" | "param_class q < ?k" | "?k < param_class q" by linarith
    then show ?thesis
    proof cases
      case 1
      then show ?thesis using qb(1) o(2) by (simp add: separate_def region_def)
    next
      case 2
      then have "lim (param_class q) \<le> lob ?k" using assms(3) k by blast
      then show ?thesis using qb(2) p by (simp add: separate_def region_def)
    next
      case 3
      then have "lim ?k \<le> lob (param_class q)" "lob (param_class q) \<le> ?off ! param_class q" using assms(3) pre [of "param_class q"] param_class_less [of q] by blast+
      then show ?thesis using qb(1) p by (simp add: separate_def region_def)
    qed
  qed
  have mono: "base + off ! param_class q \<le> pa_shmAddr q" if "q \<in> set (place_params base ps ?off)" for q
    using IH(2) that o(2) by (metis add_leD1 add.assoc)
  show ?case using IH sep mono p(1) by (auto simp: place_param_def Let_def)
qed simp

lemma place_tasks_ok:
  assumes "ptr_size dvd buf" and "\<forall>s\<in>set ss. ptr_size dvd s"
  shows "snd (place_tasks buf ss) = buf + sum_list ss
    \<and> sorted_wrt (\<lambda>r s. snd r \<le> fst s) (fst (place_tasks buf ss))
    \<and> (\<forall>r\<in>set (fst (place_tasks buf ss)). ptr_size dvd fst r \<and> buf \<le> fst r \<and> fst r \<le> snd r \<and> snd r \<le> buf + sum_list ss)
    \<and> map (\<lambda>r. snd r - fst r) (fst (place_tasks buf ss)) = ss"
  using assms
proof (induction ss arbitrary: buf)
  case (Cons s ss)
  have a: "ptr_align (buf + s) = buf + s" using Cons.prems by (simp add: ptr_align_id)
  have "ptr_size dvd buf + s" using Cons.prems by simp
  from Cons.IH [OF this] Cons.prems show ?case by (fastforce simp: a split: prod.splits)
qed simp

section \<open>The layout\<close>

definition total_size :: "param list \<Rightarrow> nat" where
  "total_size ps = class_size 0 ps + class_size 1 ps + class_size 2 ps + class_size 3 ps"

lemma param_total: "parameterDataOffset ps ! 4 = total_size ps"
  by (simp add: parameterDataOffset_eq total_size_def numeral_eq_Suc)

lemma dvd_sum_list: "(\<And>x. x \<in> set xs \<Longrightarrow> d dvd x) \<Longrightarrow> d dvd sum_list (xs :: nat list)"
  by (induction xs) auto

lemma placed_ok:
  assumes "qs = place_params base ps (parameterDataOffset ps)"
  shows "sorted_wrt separate (map region qs)
    \<and> (\<forall>p\<in>set qs. base \<le> pa_shmAddr p \<and> pa_shmAddr p + pa_memSize p \<le> base + total_size ps)"
proof -
  let ?off = "parameterDataOffset ps"
  define lob where "lob k = ?off ! k" for k
  define lim where "lim k = ?off ! Suc k" for k
  have four: "k < 4 \<longleftrightarrow> k = 0 \<or> k = 1 \<or> k = 2 \<or> k = 3" for k :: nat by auto
  have "\<forall>k<4. lob k \<le> ?off ! k \<and> ?off ! k + class_size k ps \<le> lim k"
    by (auto simp: lob_def lim_def parameterDataOffset_eq numeral_eq_Suc less_Suc_eq)
  moreover have "\<forall>j k. j < k \<longrightarrow> k < 4 \<longrightarrow> lim j \<le> lob k"
    by (auto simp: lob_def lim_def parameterDataOffset_eq numeral_eq_Suc less_Suc_eq)
  moreover have "length ?off = 5" by (simp add: parameterDataOffset_eq)
  ultimately have r: "sorted_wrt separate (map region qs)" "\<forall>p\<in>set qs. base + ?off ! param_class p \<le> pa_shmAddr p
         \<and> pa_shmAddr p + pa_memSize p \<le> base + lim (param_class p)"
    using place_params_ok [of ?off lob ps lim base] assms by auto
  have "lim (param_class p) \<le> total_size ps" for p
    using param_class_less [of p, unfolded four] by (auto simp: lim_def parameterDataOffset_eq total_size_def numeral_eq_Suc)
  then show ?thesis using r by (meson add_left_mono add_leD1 le_trans)
qed

lemma place_params_same:
  "length (place_params base ps off) = length ps
   \<and> map (\<lambda>p. (pa_path p, pa_dtype p, pa_memSize p, pa_addr p)) (place_params base ps off)
     = map (\<lambda>p. (pa_path p, pa_dtype p, pa_memSize p, pa_addr p)) ps"
  by (induction base ps off rule: place_params.induct) (auto simp: place_param_def Let_def)

lemma prefork_layout:
  assumes "Main_prefork_init ts ps eventCount mmap errno rmem = Inr lo"
  defines "used \<equiv> map (\<lambda>t. ptr_align (Task_getShmemSpace (fst t) (snd t))) ts"
    and "sizes \<equiv> map (\<lambda>t. map sig_memSize (signals (snd t))) ts"
  shows "lo_params lo = place_params (lo_parameterData lo) ps (parameterDataOffset ps)"
    and "lo_parameterData lo = ptr_align (lo_shmem lo)"
    and "lo_signalData lo = ptr_align (lo_parameterData lo + total_size ps)"
    and "lo_tasks lo = fst (place_tasks (ptr_align (lo_signalData lo + maxSignalSize sizes)) used)"
    and "lo_eventWp lo = ptr_align (lo_signalData lo + maxSignalSize sizes) + sum_list used"
    and "lo_eventStart lo = lo_eventWp lo + 8"
    and "lo_eventEnd lo = lo_eventStart lo + 400 * eventCount"
    and "lo_eventEnd lo + 40 \<le> lo_shmem lo + lo_len lo"
    and "lo_mem lo = fold (copy_param rmem) (lo_params lo) (\<lambda>_. 0)"
proof -
  obtain shmem where sh: "mmap (shmem_size sizes ps eventCount used) = Some shmem"
    using assms(1) by (auto simp: Main_prefork_init_def Let_def sizes_def used_def split: option.splits)
  let ?sd = "ptr_align (ptr_align shmem + total_size ps)" and ?mx = "maxSignalSize sizes"
  have al: "ptr_size dvd ptr_align x" for x by (rule ptr_align_dvd)
  have u: "\<forall>s\<in>set used. ptr_size dvd s" using al by (auto simp: used_def)
  note t = place_tasks_ok [OF al [of "?sd + ?mx"] u]
  have buf: "ptr_align (ptr_align (?sd + ?mx) + sum_list used) = ptr_align (?sd + ?mx) + sum_list used"
    using al u by (intro ptr_align_id dvd_add) (auto intro: dvd_sum_list)
  have st: "ptr_align (ptr_align (?sd + ?mx) + sum_list used + 8) = ptr_align (?sd + ?mx) + sum_list used + 8"
    using al u by (intro ptr_align_id dvd_add) (auto intro: dvd_sum_list simp: ptr_size_def)
  obtain rs where rs: "place_tasks (ptr_align (?sd + ?mx)) used = (rs, ptr_align (?sd + ?mx) + sum_list used)"
    using t by (metis prod.collapse)
  note d = assms(1) [unfolded Main_prefork_init_def Let_def, folded sizes_def used_def, unfolded sh option.case param_total rs prod.case buf st,
      unfolded sizeof_EventData_def eventLen_def]
  show "lo_params lo = place_params (lo_parameterData lo) ps (parameterDataOffset ps)"
    "lo_parameterData lo = ptr_align (lo_shmem lo)"
    "lo_signalData lo = ptr_align (lo_parameterData lo + total_size ps)"
    "lo_tasks lo = fst (place_tasks (ptr_align (lo_signalData lo + maxSignalSize sizes)) used)"
    "lo_eventWp lo = ptr_align (lo_signalData lo + maxSignalSize sizes) + sum_list used"
    "lo_eventStart lo = lo_eventWp lo + 8"
    "lo_eventEnd lo = lo_eventStart lo + 400 * eventCount"
    "lo_eventEnd lo + 40 \<le> lo_shmem lo + lo_len lo"
    "lo_mem lo = fold (copy_param rmem) (lo_params lo) (\<lambda>_. 0)"
    using d rs by (auto split: if_splits)
qed

lemma fold_max: "m \<le> fold (\<lambda>s m. if s > m then s else m) xs m \<and> (\<forall>x\<in>set xs. x \<le> fold (\<lambda>s m. if s > m then s else m) xs m)"
  for m :: nat
proof (induction xs arbitrary: m)
  case (Cons x xs)
  show ?case using Cons [of "if x > m then x else m"] by auto
qed simp

lemma maxSignalSize_ge: "s \<in> set (concat sizes) \<Longrightarrow> s \<le> maxSignalSize sizes"
  using fold_max [of 0 "concat sizes"] unfolding maxSignalSize_def by blast

lemma read_write_same: "length bs = n \<Longrightarrow> read_bytes (write_bytes mem a bs) a n = bs"
  by (rule nth_equalityI) (auto simp: read_bytes_def write_bytes_def)

lemma read_write_other:
  "b + n \<le> a \<or> a + length bs \<le> b \<Longrightarrow> read_bytes (write_bytes mem a bs) b n = read_bytes mem b n"
  by (auto simp: read_bytes_def write_bytes_def)

lemma length_read_bytes [simp]: "length (read_bytes mem a n) = n"
  by (simp add: read_bytes_def)

lemma copy_other:
  "separate (region q) (region p) \<Longrightarrow> read_bytes (copy_param rmem q mem) (pa_shmAddr p) (pa_memSize p) = read_bytes mem (pa_shmAddr p) (pa_memSize p)"
  by (auto simp: copy_param_def separate_def region_def intro!: read_write_other)

lemma copies_other:
  "\<forall>q\<in>set qs. separate (region p) (region q)
   \<Longrightarrow> read_bytes (fold (copy_param rmem) qs mem) (pa_shmAddr p) (pa_memSize p) = read_bytes mem (pa_shmAddr p) (pa_memSize p)"
proof (induction qs arbitrary: mem)
  case (Cons q qs)
  have "separate (region q) (region p)" using Cons.prems by (auto simp: separate_def)
  then show ?case using Cons by (simp add: copy_other)
qed simp

lemma copies_contents:
  assumes "sorted_wrt separate (map region qs)" and "p \<in> set qs"
  shows "read_bytes (fold (copy_param rmem) qs mem) (pa_shmAddr p) (pa_memSize p) = read_bytes rmem (pa_addr p) (pa_memSize p)"
  using assms
proof (induction qs arbitrary: mem)
  case (Cons q qs)
  show ?case
  proof (cases "p \<in> set qs")
    case True
    then show ?thesis using Cons by simp
  next
    case False
    then have "p = q" using Cons.prems by simp
    then have "read_bytes (fold (copy_param rmem) qs (copy_param rmem q mem)) (pa_shmAddr p) (pa_memSize p)
        = read_bytes (copy_param rmem q mem) (pa_shmAddr p) (pa_memSize p)"
      using Cons.prems(1) by (intro copies_other) simp
    moreover have "read_bytes (copy_param rmem q mem) (pa_shmAddr q) (pa_memSize q) = read_bytes rmem (pa_addr q) (pa_memSize q)"
      by (simp add: copy_param_def read_write_same)
    ultimately show ?thesis by (simp add: \<open>p = q\<close>)
  qed
qed simp

text \<open>
  Property C25 (shared_memory_layout): when the mapping succeeds, \<open>prefork_init\<close> succeeds, it never reports
  \<open>ENOMEM\<close>; the parameters lie apart from each other at the beginning, followed by an area that holds
  the largest signal, the regions of the tasks, each aligned and of the size the task asked for, and
  the event area, all inside the mapping; and every parameter's area holds its current value.
\<close>

theorem shared_memory_layout:
  fixes ts :: "(nat \<times> 'z task_scheme) list"
  assumes "\<And>n. mmap n = Some shmem"
  shows "\<exists>lo. Main_prefork_init ts ps eventCount mmap errno rmem = Inr lo
    \<and> lo_shmem lo = shmem
    \<and> sorted_wrt separate (map region (lo_params lo))
    \<and> (\<forall>p\<in>set (lo_params lo). shmem \<le> pa_shmAddr p \<and> pa_shmAddr p + pa_memSize p \<le> lo_signalData lo
         \<and> read_bytes (lo_mem lo) (pa_shmAddr p) (pa_memSize p) = read_bytes rmem (pa_addr p) (pa_memSize p))
    \<and> (\<forall>t\<in>set ts. \<forall>s\<in>set (signals (snd t)). \<forall>r\<in>set (lo_tasks lo). lo_signalData lo + sig_memSize s \<le> fst r)
    \<and> map (\<lambda>r. snd r - fst r) (lo_tasks lo) = map (\<lambda>t. ptr_align (Task_getShmemSpace (fst t) (snd t))) ts
    \<and> sorted_wrt (\<lambda>r s. snd r \<le> fst s) (lo_tasks lo)
    \<and> (\<forall>r\<in>set (lo_tasks lo). ptr_size dvd fst r \<and> fst r \<le> snd r \<and> snd r \<le> lo_eventWp lo)
    \<and> lo_eventWp lo + 8 \<le> lo_eventStart lo
    \<and> lo_eventEnd lo = lo_eventStart lo + sizeof_EventData * (eventLen * eventCount)
    \<and> lo_eventEnd lo \<le> shmem + lo_len lo"
proof -
  define used where "used = map (\<lambda>t. ptr_align (Task_getShmemSpace (fst t) (snd t))) ts"
  define sizes where "sizes = map (\<lambda>t. map sig_memSize (signals (snd t))) ts"
  let ?pd = "ptr_align shmem"
  let ?sd = "ptr_align (?pd + total_size ps)"
  let ?buf = "ptr_align (?sd + maxSignalSize sizes)"
  have al: "ptr_size dvd ptr_align x" for x by (rule ptr_align_dvd)
  have u: "\<forall>s\<in>set used. ptr_size dvd s" using al by (auto simp: used_def)
  note t = place_tasks_ok [OF al [of "?sd + maxSignalSize sizes"] u]
  have bound: "?buf + sum_list used + 8 + 400 * eventCount + 40 \<le> shmem + shmem_size sizes ps eventCount used"
    using ptr_align_less [of shmem] ptr_align_less [of "?pd + total_size ps"] ptr_align_less [of "?sd + maxSignalSize sizes"]
    by (simp add: shmem_size_def param_total sizeof_EventData_def eventLen_def ptr_size_def)
  have "\<exists>lo. Main_prefork_init ts ps eventCount mmap errno rmem = Inr lo \<and> lo_shmem lo = shmem"
  proof -
    have buf: "ptr_align (?buf + sum_list used) = ?buf + sum_list used" "ptr_align (?buf + sum_list used + 8) = ?buf + sum_list used + 8"
      using al u by (intro ptr_align_id dvd_add; auto intro: dvd_sum_list simp: ptr_size_def)+
    obtain rs where rs: "place_tasks ?buf used = (rs, ?buf + sum_list used)" using t by (metis prod.collapse)
    show ?thesis
      unfolding Main_prefork_init_def Let_def sizes_def [symmetric] used_def [symmetric]
      using bound by (simp add: assms param_total rs buf sizeof_EventData_def eventLen_def)
  qed
  then obtain lo where lo: "Main_prefork_init ts ps eventCount mmap errno rmem = Inr lo" "lo_shmem lo = shmem" by blast
  note l = prefork_layout [OF lo(1), folded used_def sizes_def]
  note p = placed_ok [OF l(1)]
  have pd: "shmem \<le> lo_parameterData lo" "lo_parameterData lo + total_size ps \<le> lo_signalData lo"
    using l(2,3) lo(2) ptr_align_ge by metis+
  have sz: "lo_signalData lo + sig_memSize s \<le> fst r"
    if "x \<in> set ts" "s \<in> set (signals (snd x))" "r \<in> set (lo_tasks lo)" for x s r
  proof -
    have "sig_memSize s \<le> maxSignalSize sizes" using that(1,2) by (intro maxSignalSize_ge) (auto simp: sizes_def)
    moreover have "?buf \<le> fst r" using t that(3) l(2-4) lo(2) by auto
    moreover have "?sd + maxSignalSize sizes \<le> ?buf" by (rule ptr_align_ge)
    ultimately show ?thesis using l(2,3) lo(2) by simp
  qed
  have c: "read_bytes (lo_mem lo) (pa_shmAddr q) (pa_memSize q) = read_bytes rmem (pa_addr q) (pa_memSize q)" if "q \<in> set (lo_params lo)" for q
    using copies_contents p that l(9) by metis
  have tasks: "lo_tasks lo = fst (place_tasks ?buf used)" "lo_eventWp lo = ?buf + sum_list used"
    using l(2-5) lo(2) by simp_all
  show ?thesis
  proof (intro exI [of _ lo] conjI)
    show "\<forall>q\<in>set (lo_params lo). shmem \<le> pa_shmAddr q \<and> pa_shmAddr q + pa_memSize q \<le> lo_signalData lo
         \<and> read_bytes (lo_mem lo) (pa_shmAddr q) (pa_memSize q) = read_bytes rmem (pa_addr q) (pa_memSize q)"
      using p pd c by (meson le_trans)
    show "\<forall>t\<in>set ts. \<forall>s\<in>set (signals (snd t)). \<forall>r\<in>set (lo_tasks lo). lo_signalData lo + sig_memSize s \<le> fst r"
      using sz by blast
    show "\<forall>r\<in>set (lo_tasks lo). ptr_size dvd fst r \<and> fst r \<le> snd r \<and> snd r \<le> lo_eventWp lo"
      using t unfolding tasks by blast
  qed (use lo p t tasks l(6-8) in \<open>simp_all add: used_def sizeof_EventData_def eventLen_def\<close>)
qed

theorem shared_memory_layout_witness:
  "\<exists>lo. Main_prefork_init ([] :: (nat \<times> task) list)
      [Parameter_new ''a'' (PrimaryType C_double) [3] 100, Parameter_new ''b'' (PrimaryType C_uint8) [5] 200] 2 (\<lambda>_. Some 4096) 12 (\<lambda>_. 7) = Inr lo
    \<and> lo_shmem lo = 4096 \<and> sorted_wrt separate (map region (lo_params lo)) \<and> lo_eventEnd lo \<le> 4096 + lo_len lo"
  using shared_memory_layout [of "\<lambda>_. Some 4096" 4096 "[] :: (nat \<times> task) list"
      "[Parameter_new ''a'' (PrimaryType C_double) [3] 100, Parameter_new ''b'' (PrimaryType C_uint8) [5] 200]" 2 12 "\<lambda>_. 7"]
  by blast

section \<open>Changing a parameter\<close>

lemma write_back: "write_bytes (write_bytes mem a bs) a (read_bytes mem a (length bs)) = mem"
  by (rule ext) (auto simp: write_bytes_def read_bytes_def)

lemma read_write_inner:
  assumes "off + length bs \<le> n"
  shows "read_bytes (write_bytes mem (a + off) bs) a n
    = take off (read_bytes mem a n) @ bs @ drop (off + length bs) (read_bytes mem a n)"
  using assms by (intro nth_equalityI) (auto simp: read_bytes_def write_bytes_def nth_append)

text \<open>
  Property C26 (rejected_change_is_undone): when the write callback of the application rejects a
  change, the server reports its error code, and the shared memory and the time of the last change are
  exactly as before; when a pipe fails it reports \<open>EIO\<close> and stops the server.
\<close>

theorem rejected_change_is_undone:
  assumes "k < length (pr_params st)" and "offset < 2 ^ 32" and "length buf < 2 ^ 32"
    and "wcb (pr_params st ! k) (pr_rt st) (pa_addr (pr_params st ! k) + offset) buf = (rv, t, rmem')"
  shows "(rv \<noteq> 0 \<longrightarrow> Main_setValue junk wcb True True k buf offset st = (rv, st\<lparr>pr_rt := rmem'\<rparr>))
    \<and> (\<not> txok \<or> \<not> rxok \<longrightarrow> fst (Main_setValue junk wcb txok rxok k buf offset st) = - EIO
         \<and> pr_ipc_error (snd (Main_setValue junk wcb txok rxok k buf offset st)))"
proof -
  let ?p = "pr_params st ! k"
  have m: "offset mod 4294967296 = offset" "length buf mod 4294967296 = length buf" using assms(2,3) by simp_all
  have r: "read_bytes (write_bytes (pr_shm st) (pa_shmAddr ?p + offset) buf) (pa_shmAddr ?p + offset) (length buf) = buf"
    by (simp add: read_write_same)
  show ?thesis
    using assms(4) by (auto simp: Main_setValue_def Let_def m r write_back)
qed

theorem rejected_change_is_undone_witness:
  "Main_setValue 5 (\<lambda>p rmem a bs. (- 22, None, rmem)) True True 0 [1, 2] 4
      \<lparr>pr_shm = (\<lambda>_. 9), pr_rt = (\<lambda>_. 9), pr_params = [Parameter_new ''a'' (PrimaryType C_double) [3] 100], pr_signalData = 0, pr_ipc_error = False\<rparr>
    = (- 22, \<lparr>pr_shm = (\<lambda>_. 9), pr_rt = (\<lambda>_. 9), pr_params = [Parameter_new ''a'' (PrimaryType C_double) [3] 100], pr_signalData = 0, pr_ipc_error = False\<rparr>)"
  using rejected_change_is_undone [of 0 "\<lparr>pr_shm = (\<lambda>_. 9), pr_rt = (\<lambda>_. 9),
      pr_params = [Parameter_new ''a'' (PrimaryType C_double) [3] 100], pr_signalData = 0, pr_ipc_error = False\<rparr>" 4 "[1, 2]"
      "\<lambda>p rmem a bs. (- 22, None, rmem)" "- 22" None "\<lambda>_. 9" 5 True True]
  by simp

definition rt_region :: "param \<Rightarrow> nat \<times> nat" where
  "rt_region p = (pa_addr p, pa_addr p + pa_memSize p)"

text \<open>Both processes hold the same values of all parameters, each in its own area.\<close>

definition coherent :: "procs \<Rightarrow> bool" where
  "coherent st \<longleftrightarrow>
     sorted_wrt separate (map region (pr_params st)) \<and> sorted_wrt separate (map rt_region (pr_params st))
     \<and> (\<forall>p\<in>set (pr_params st). read_bytes (pr_shm st) (pa_shmAddr p) (pa_memSize p) = read_bytes (pr_rt st) (pa_addr p) (pa_memSize p))"

lemma separate_nth:
  assumes "sorted_wrt separate (map f xs)" and "i < length xs" and "j < length xs" and "i \<noteq> j"
  shows "separate (f (xs ! i)) (f (xs ! j))"
proof -
  have "separate (f (xs ! a)) (f (xs ! b))" if "a < b" "b < length xs" for a b
    using assms(1) that by (simp add: sorted_wrt_iff_nth_less)
  then show ?thesis using assms(2-4) by (metis separate_def linorder_neqE_nat)
qed

definition set_time :: "nat \<Rightarrow> timespec \<Rightarrow> param list \<Rightarrow> param list" where
  "set_time k t ps = ps[k := (ps ! k)\<lparr>pa_mtime := t\<rparr>]"

lemma set_time_regions: "k < length ps \<Longrightarrow> map region (set_time k t ps) = map region ps"
  "k < length ps \<Longrightarrow> map rt_region (set_time k t ps) = map rt_region ps"
  by (simp_all add: set_time_def region_def rt_region_def map_update_same)


definition demo_procs :: procs where
  "demo_procs = \<lparr>pr_shm = (\<lambda>a. of_nat a), pr_rt = (\<lambda>a. of_nat (a - 20)),
     pr_params = [(Parameter_new ''a'' (PrimaryType C_uint16) [2] 30)\<lparr>pa_shmAddr := 10\<rparr>,
                  (Parameter_new ''b'' (PrimaryType C_uint8) [2] 34)\<lparr>pa_shmAddr := 14\<rparr>],
     pr_signalData = 50, pr_ipc_error = False\<rparr>"

lemma demo_params:
  "pr_params demo_procs =
     [\<lparr>pa_path = ''a'', pa_dtype = PrimaryType C_uint16, pa_memSize = 4, pa_addr = 30, pa_shmAddr = 10, pa_mtime = (0, 0)\<rparr>,
      \<lparr>pa_path = ''b'', pa_dtype = PrimaryType C_uint8, pa_memSize = 2, pa_addr = 34, pa_shmAddr = 14, pa_mtime = (0, 0)\<rparr>]"
  by (simp add: demo_procs_def Parameter_new_def nelem_def)

lemma demo_mem: "pr_shm demo_procs = of_nat" "pr_rt demo_procs = (\<lambda>a. of_nat (a - 20))" "pr_signalData demo_procs = 50"
  by (simp_all add: demo_procs_def)

lemmas demo_simps = demo_params demo_mem read_bytes_def upt_numeral_unfold ProcessParameter_copyValue_def

lemma demo_procs_coherent: "coherent demo_procs"
  by (simp add: coherent_def region_def rt_region_def separate_def demo_simps)


text \<open>
  The callers test only that the first element lies inside the parameter: a change that starts
  inside and is too long overwrites the parameter behind it.
\<close>

lemma long_change_hits_neighbour:
  "ProcessParameter_copyValue (pr_shm (snd (Main_setValue 5 (Parameter_copy (7, 0)) True True 0 [42, 43] 3 demo_procs)))
     (pr_params demo_procs ! 1) = ([43, 15], (0, 0))"
  by (simp add: demo_simps Main_setValue_def Parameter_copy_def write_bytes_def Let_def)

text \<open>A callback that accepts the change and stores no time leaves the request as the time of the change.\<close>

lemma unstored_time_is_request:
  "snd (ProcessParameter_copyValue (pr_shm (snd (Main_setValue junk (\<lambda>p rmem a bs. (0, None, rmem)) True True 0 [42, 43] 1 demo_procs)))
     (pr_params (snd (Main_setValue junk (\<lambda>p rmem a bs. (0, None, rmem)) True True 0 [42, 43] 1 demo_procs)) ! 0)) = (1 + 2 * 2 ^ 32, junk)"
  by (simp add: demo_simps Main_setValue_def unset_time_def Let_def)

section \<open>Polling a signal\<close>

text \<open>
  Polling a signal with the default callback returns the bytes the
  signal has in the memory of the real-time process and the time of its task, without changing any
  parameter that lies below the polling area.
\<close>

theorem poll_reads_signal:
  assumes "p \<in> set (pr_params st)" and "pa_shmAddr p + pa_memSize p \<le> pr_signalData st"
  shows "\<exists>st'. Main_getValue (Signal_copy t) True True a n st = (0, Some (read_bytes (pr_rt st) a n, t), st')
    \<and> pr_params st' = pr_params st \<and> pr_rt st' = pr_rt st
    \<and> ProcessParameter_copyValue (pr_shm st') p = ProcessParameter_copyValue (pr_shm st) p"
  using assms(2) by (simp add: Main_getValue_def Let_def Signal_copy_def read_write_same ProcessParameter_copyValue_def read_write_other)

theorem poll_reads_signal_witness:
  "\<exists>st'. Main_getValue (Signal_copy (Some (3, 4))) True True 40 3 demo_procs = (0, Some ([20, 21, 22], Some (3, 4)), st')"
proof -
  have "pr_params demo_procs ! 0 \<in> set (pr_params demo_procs)"
    "pa_shmAddr (pr_params demo_procs ! 0) + pa_memSize (pr_params demo_procs ! 0) \<le> pr_signalData demo_procs"
    by (simp_all add: demo_params demo_mem)
  moreover have "read_bytes (pr_rt demo_procs) 40 3 = [20, 21, 22]" by (simp add: demo_simps)
  ultimately show ?thesis using poll_reads_signal [of "pr_params demo_procs ! 0" demo_procs "Some (3, 4)" 40 3] by auto
qed

end
