(* ===== verification/Msr_Parameter.thy ===== *)
theory Msr_Parameter
  imports Msr_Variable Param_Store
begin

text \<open>
  \<open>msrproto/Parameter.cpp\<close>: the parameters offered by the MSR protocol. A parameter may be an excerpt of
  a parent; a change of a byte range is announced for all parameters that overlap it. Values arrive as
  hexadecimal digits or as numbers.
\<close>

section \<open>Parameters and their attributes\<close>

record msr_param = msr_var +
  mp_main :: nat
  mp_main_dtype :: dtype
  mp_persistent :: bool
  mp_dependent :: bool

definition MsrParameter_new ::
  "nat \<Rightarrow> dtype \<Rightarrow> nat \<Rightarrow> dtype \<Rightarrow> nat list \<Rightarrow> nat \<Rightarrow> string \<Rightarrow> string \<Rightarrow> msr_param option \<Rightarrow> msr_param" where
  "MsrParameter_new main main_dtype index dtype dim offset alias comment parent =
     (let v = Variable_new index dtype dim offset alias comment
      in case parent of
           None \<Rightarrow> msr_var.extend v (msr_param.fields main main_dtype False False)
         | Some par \<Rightarrow> msr_var.extend (v\<lparr>mv_hidden := mv_hidden par\<rparr>) (msr_param.fields main main_dtype (mp_persistent par) True))"

text \<open>\<open>MSR_R | MSR_W | MSR_WOP\<close>, and \<open>MSR_DEP\<close> for an excerpt.\<close>

definition param_flags :: "msr_param \<Rightarrow> nat" where
  "param_flags p = 7 + (if mp_dependent p then 256 else 0)"

text \<open>
  The value buffer is the memory of the whole main parameter. \<open>None\<close>: the description of the type
  fails, the printer does not return, or the excerpt lies outside the buffer.
\<close>

definition value_attr :: "(ctype \<Rightarrow> u8 list \<Rightarrow> string) \<Rightarrow> msr_param \<Rightarrow> u8 list option \<Rightarrow> bool \<Rightarrow> attrs option" where
  "value_attr ff p valueBuf hex =
     (case valueBuf of
        None \<Rightarrow> Some []
      | Some buf \<Rightarrow>
          if length buf < mv_offset p + mv_memSize p then None
          else if hex then Some [(''hexvalue'', hexDec (slice (mv_offset p) (mv_memSize p) buf))]
          else map_option (\<lambda>s. [(''value'', s)])
                 (csv ff (\<lambda>a. if a < length buf then buf ! a else 0) (mv_dtype p) (mv_memSize p) (mv_offset p) 1 False))"

definition Parameter_setXmlAttributes ::
  "(ctype \<Rightarrow> u8 list \<Rightarrow> string) \<Rightarrow> msr_param \<Rightarrow> string \<Rightarrow> nat \<Rightarrow> u8 list option \<Rightarrow> timespec \<Rightarrow> bool \<Rightarrow> bool
     \<Rightarrow> xml_element \<Rightarrow> (xml_element \<times> string) option" where
  "Parameter_setXmlAttributes ff p path childCount valueBuf mtime shortReply hex e =
     (case setAttributes (msr_var.truncate p) path childCount shortReply of
        None \<Rightarrow> None
      | Some as \<Rightarrow>
          let fl = (if shortReply then [] else
                (''flags'', show_nat (param_flags p)) # (if mp_persistent p then [(''persistent'', ''1'')] else []));
              tm = [(''mtime'', time_text mtime)]
          in case value_attr ff p valueBuf hex of
               None \<Rightarrow> None
             | Some val \<Rightarrow>
                 (case (if shortReply then Some (e, []) else addCompoundFields e (mp_main_dtype p)) of
                    None \<Rightarrow> None
                  | Some (e', inner) \<Rightarrow> Some (e', attr_text (as @ fl @ tm @ val) @ inner)))"

section \<open>Announcing changes\<close>

text \<open>
  A parameter with its excerpts: index, offset and size in the main parameter, and children. \<open>inform\<close>
  returns whether the caller's loop ends, and the parameters announced.
\<close>

datatype mpar = MPar (mpar_index: nat) (mpar_offset: nat) (mpar_size: nat) (mpar_children: "mpar list")

fun addChild :: "mpar \<Rightarrow> mpar \<Rightarrow> mpar" where
  "addChild c (MPar i off n cs) = MPar i off n (cs @ [c])"

fun inform :: "nat \<Rightarrow> nat \<Rightarrow> mpar \<Rightarrow> bool \<times> nat list"
  and inform_children :: "nat \<Rightarrow> nat \<Rightarrow> mpar list \<Rightarrow> nat list" where
  "inform b e (MPar i off n cs) =
     (if b \<ge> off + n then (False, [])
      else if off \<ge> e then (True, [])
      else (False, i # inform_children b e cs))"
| "inform_children b e [] = []"
| "inform_children b e (c # cs) =
     (let (stop, xs) = inform b e c in if stop then xs else xs @ inform_children b e cs)"

section \<open>Hexadecimal values\<close>

definition hexNum :: "nat list" where
  "hexNum = [0, 1, 2, 3, 4, 5, 6, 7, 8, 9, 0, 0, 0, 0, 0, 0,
             0, 10, 11, 12, 13, 14, 15, 0, 0, 0, 0, 0, 0, 0, 0, 0,
             0, 0, 0, 0, 0, 0, 0, 0, 0, 0, 0, 0, 0, 0, 0, 0,
             0, 10, 11, 12, 13, 14, 15]"

definition EINVAL :: int where "EINVAL = 22"

text \<open>\<open>unsigned char c = *s - '0'\<close>; the end of the string reads as the terminating zero.\<close>

definition hex_index :: "char \<Rightarrow> nat" where
  "hex_index c = (of_char c + 256 - 48) mod 256"

fun hex_bytes :: "nat \<Rightarrow> string \<Rightarrow> int + u8 list" where
  "hex_bytes 0 s = Inr []"
| "hex_bytes (Suc room) [] = Inr []"
| "hex_bytes (Suc room) (a # s) =
     (let c1 = hex_index a; c2 = hex_index (case s of [] \<Rightarrow> CHR 0x00 | b # _ \<Rightarrow> b)
      in if max c1 c2 \<ge> length hexNum then Inl (- EINVAL)
         else case hex_bytes room (tl s) of
                Inl e \<Rightarrow> Inl e
              | Inr bs \<Rightarrow> Inr (of_nat (hexNum ! c1 * 16 + hexNum ! c2) # bs))"

text \<open>The write to the main parameter, \<open>Main::setValue\<close> of \<open>lib/Main.cpp\<close>, is \<open>set\<close>.\<close>

definition Parameter_setHexValue ::
  "(u8 list \<Rightarrow> nat \<Rightarrow> 's \<Rightarrow> int \<times> 's) \<Rightarrow> msr_param \<Rightarrow> string \<Rightarrow> nat \<Rightarrow> 's \<Rightarrow> int \<times> 's" where
  "Parameter_setHexValue setv p s startindex st =
     (case hex_bytes (mv_memSize p) s of
        Inl e \<Rightarrow> (e, st)
      | Inr bs \<Rightarrow> setv bs (mv_offset p + startindex * dt_size (mv_dtype p)) st)"

section \<open>Numeric values\<close>

text \<open>
  The stream is the text not yet read. \<open>rd\<close> is \<open>operator>>\<close> for a \<open>double\<close> (\<open>None\<close>: it fails), \<open>conv\<close> the
  conversion of \<open>DataType::setValue\<close> to the bytes of a type. The result is the error code (1: the text
  ended), the bytes written so far and the rest.
\<close>

definition ws :: "char \<Rightarrow> bool" where
  "ws c \<longleftrightarrow> c = CHR '' '' \<or> (9 \<le> (of_char c :: nat) \<and> (of_char c :: nat) \<le> 13)"

definition get_char :: "string \<Rightarrow> (char \<times> string) option" where
  "get_char s = (case dropWhile ws s of [] \<Rightarrow> None | c # r \<Rightarrow> Some (c, r))"

fun set_numbers :: "(string \<Rightarrow> ('d \<times> string) option) \<Rightarrow> ('d \<Rightarrow> u8 list) \<Rightarrow> nat \<Rightarrow> u8 list \<Rightarrow> string \<Rightarrow> int \<times> u8 list \<times> string" where
  "set_numbers rd conv 0 out s = (0, out, s)"
| "set_numbers rd conv (Suc n) out s =
     (case rd s of
        None \<Rightarrow> (- EINVAL, out, s)
      | Some (v, s1) \<Rightarrow>
          (case get_char s1 of
             None \<Rightarrow> (1, out @ conv v, [])
           | Some (c, s2) \<Rightarrow>
               if c \<noteq> CHR '','' \<and> c \<noteq> CHR '';'' \<and> \<not> ws c then (- EINVAL, out @ conv v, s2)
               else set_numbers rd conv n (out @ conv v) s2))"

fun setElements :: "(string \<Rightarrow> ('d \<times> string) option) \<Rightarrow> (ctype \<Rightarrow> 'd \<Rightarrow> u8 list) \<Rightarrow> dtype \<Rightarrow> nat \<Rightarrow> u8 list \<Rightarrow> string \<Rightarrow> int \<times> u8 list \<times> string"
  and set_fields :: "(string \<Rightarrow> ('d \<times> string) option) \<Rightarrow> (ctype \<Rightarrow> 'd \<Rightarrow> u8 list) \<Rightarrow> field list \<Rightarrow> u8 list \<Rightarrow> string \<Rightarrow> int \<times> u8 list \<times> string" where
  "setElements rd conv (PrimaryType T) n out s = set_numbers rd (conv T) n out s"
| "setElements rd conv (CompoundType nm sz fs) 0 out s = (0, out, s)"
| "setElements rd conv (CompoundType nm sz fs) (Suc n) out s =
     (case set_fields rd conv fs out s of
        (rv, out', s') \<Rightarrow> if rv \<noteq> 0 then (rv, out', s') else setElements rd conv (CompoundType nm sz fs) n out' s')"
| "set_fields rd conv [] out s = (0, out, s)"
| "set_fields rd conv (Field nm ty off dim # fs) out s =
     (case setElements rd conv ty (nelem dim) out s of
        (rv, out', s') \<Rightarrow> if rv \<noteq> 0 then (rv, out', s') else set_fields rd conv fs out' s')"

definition Parameter_setDoubleValue ::
  "(string \<Rightarrow> ('d \<times> string) option) \<Rightarrow> (ctype \<Rightarrow> 'd \<Rightarrow> u8 list) \<Rightarrow> (u8 list \<Rightarrow> nat \<Rightarrow> 's \<Rightarrow> int \<times> 's)
     \<Rightarrow> msr_param \<Rightarrow> string \<Rightarrow> nat \<Rightarrow> 's \<Rightarrow> int \<times> 's" where
  "Parameter_setDoubleValue rd conv setv p buf startindex st =
     (case setElements rd conv (mv_dtype p) (nelem (mv_dim p)) [] buf of
        (rv, out, _) \<Rightarrow> if rv < 0 then (rv, st) else setv out (mv_offset p + startindex * dt_size (mv_dtype p)) st)"

section \<open>Who is informed\<close>

fun preorder :: "mpar \<Rightarrow> mpar list" where
  "preorder (MPar i off n cs) = MPar i off n cs # concat (map preorder cs)"

definition overlaps :: "nat \<Rightarrow> nat \<Rightarrow> mpar \<Rightarrow> bool" where
  "overlaps b e t \<longleftrightarrow> b < mpar_offset t + mpar_size t \<and> mpar_offset t < e"

text \<open>Excerpts lie inside their parent and are added in the order of their offsets.\<close>

fun tree_ok :: "mpar \<Rightarrow> bool" where
  "tree_ok (MPar i off n cs) =
     (sorted (map mpar_offset cs)
      \<and> (\<forall>c\<in>set cs. tree_ok c \<and> off \<le> mpar_offset c \<and> mpar_offset c + mpar_size c \<le> off + n))"

lemma preorder_inside:
  "tree_ok t \<Longrightarrow> x \<in> set (preorder t) \<Longrightarrow> mpar_offset t \<le> mpar_offset x \<and> mpar_offset x + mpar_size x \<le> mpar_offset t + mpar_size t"
proof (induction t arbitrary: x)
  case (MPar i off n cs)
  show ?case
  proof (cases "x = MPar i off n cs")
    case False
    with MPar.prems obtain c where c: "c \<in> set cs" "x \<in> set (preorder c)" by auto
    with MPar.IH [OF c(1)] MPar.prems(1) have "mpar_offset c \<le> mpar_offset x" "mpar_offset x + mpar_size x \<le> mpar_offset c + mpar_size c"
      "off \<le> mpar_offset c" "mpar_offset c + mpar_size c \<le> off + n" by auto
    then show ?thesis by simp
  qed simp
qed

lemma none_overlap: "tree_ok t \<Longrightarrow> \<not> overlaps b e t \<Longrightarrow> filter (overlaps b e) (preorder t) = []"
  by (auto simp: overlaps_def filter_empty_conv dest!: preorder_inside)

lemma inform_equiv:
  "tree_ok t \<Longrightarrow> inform b e t = (mpar_offset t \<ge> e \<and> b < mpar_offset t + mpar_size t, map mpar_index (filter (overlaps b e) (preorder t)))"
  "sorted (map mpar_offset cs) \<Longrightarrow> (\<forall>c\<in>set cs. tree_ok c)
     \<Longrightarrow> inform_children b e cs = map mpar_index (filter (overlaps b e) (concat (map preorder cs)))"
proof (induction b e t and b e cs rule: inform_inform_children.induct)
  case (1 b e i off n cs)
  show ?case
  proof (cases "overlaps b e (MPar i off n cs)")
    case True
    then show ?thesis using 1 by (auto simp: overlaps_def)
  next
    case False
    then have "b \<ge> off + n \<or> off \<ge> e" by (auto simp: overlaps_def)
    then show ?thesis using none_overlap [OF 1(2) False] by (auto simp del: preorder.simps)
  qed
next
  case (3 b e c cs)
  have ih: "inform b e c = (mpar_offset c \<ge> e \<and> b < mpar_offset c + mpar_size c, map mpar_index (filter (overlaps b e) (preorder c)))"
    using 3 by simp
  have rest: "inform_children b e cs = map mpar_index (filter (overlaps b e) (concat (map preorder cs)))"
    if "\<not> (mpar_offset c \<ge> e \<and> b < mpar_offset c + mpar_size c)"
    using 3(2) [OF ih [symmetric]] that 3(3,4) by auto
  show ?case
  proof (cases "mpar_offset c \<ge> e \<and> b < mpar_offset c + mpar_size c")
    case True
    have "filter (overlaps b e) (preorder d) = []" if "d \<in> set cs" for d
    proof (rule none_overlap)
      show "tree_ok d" using 3(4) that by simp
      have "mpar_offset c \<le> mpar_offset d" using 3(3) that by simp
      then show "\<not> overlaps b e d" using True by (simp add: overlaps_def)
    qed
    then have "filter (overlaps b e) (concat (map preorder cs)) = []" by (auto simp: filter_empty_conv)
    then show ?thesis using True ih by simp
  next
    case False
    then show ?thesis using ih rest by auto
  qed
qed simp

text \<open>
  Property C28 (inform_exact): the traversal of \<open>inform\<close>, which leaves out subtrees and ends its loops
  early, announces a change of the bytes from \<open>b\<close> up to \<open>e\<close> for exactly the parameters of the tree that
  overlap them, each once, parents before their excerpts.
\<close>

theorem inform_exact:
  assumes "tree_ok t"
  shows "snd (inform b e t) = map mpar_index (filter (overlaps b e) (preorder t))"
  using inform_equiv(1) [OF assms] by simp

theorem inform_exact_witness:
  "snd (inform 9 13 (MPar 0 0 32 [MPar 1 0 8 [], MPar 2 8 8 [MPar 3 8 4 [], MPar 4 12 4 []], MPar 5 16 16 []])) = [0, 2, 3, 4]"
proof -
  let ?t = "MPar 0 0 32 [MPar 1 0 8 [], MPar 2 8 8 [MPar 3 8 4 [], MPar 4 12 4 []], MPar 5 16 16 []]"
  have "tree_ok ?t" by simp
  from inform_exact [OF this, of 9 13] show ?thesis by (simp add: overlaps_def)
qed

section \<open>Hexadecimal round trip\<close>

lemma length_hexNum [simp]: "length hexNum = 55"
  by (simp add: hexNum_def)

lemma hex_digit_ok:
  assumes "d < 16"
  shows "hex_index (hex_digit d) < length hexNum" "hexNum ! hex_index (hex_digit d) = d"
proof -
  have "list_all (\<lambda>d. hex_index (hex_digit d) < length hexNum \<and> hexNum ! hex_index (hex_digit d) = d) [0..<16]" by code_simp
  with assms show "hex_index (hex_digit d) < length hexNum" "hexNum ! hex_index (hex_digit d) = d" by (auto simp: list_all_iff)
qed

lemma hex_bytes_dec:
  "length bs \<le> room \<Longrightarrow> hex_bytes room (hexDec bs) = Inr bs"
proof (induction bs arbitrary: room)
  case Nil
  then show ?case by (cases room) (auto simp: hexDec_def)
next
  case (Cons b bs)
  then obtain r where r: "room = Suc r" by (cases room) auto
  have u: "unat b < 256" using unsigned_less [of b] by simp
  then have d: "unat b div 16 < 16" "unat b mod 16 < 16" by (simp_all add: less_mult_imp_div_less)
  have "hexDec (b # bs) = hex_digit (unat b div 16) # hex_digit (unat b mod 16) # hexDec bs" by (simp add: hexDec_def hexValue_def)
  moreover have "unat b div 16 * 16 + unat b mod 16 = unat b" by simp
  ultimately show ?case using Cons r hex_digit_ok [OF d(1)] hex_digit_ok [OF d(2)] by (simp add: Let_def)
qed

lemma hex_bytes_length: "hex_bytes room s = Inr bs \<Longrightarrow> length bs \<le> room"
  by (induction room s arbitrary: bs rule: hex_bytes.induct) (auto simp: Let_def split: if_splits sum.splits)



text \<open>
  Hexadecimal text whose number of digits is odd, or that contains a character
  below \<open>0\<close> or above \<open>f\<close>, is refused with \<open>EINVAL\<close> without touching the parameter, provided the text
  is not longer than the parameter.
\<close>

lemma hex_bytes_refuses:
  assumes "length s \<le> 2 * room" and "odd (length s) \<or> (\<exists>c\<in>set s. length hexNum \<le> hex_index c)"
  shows "hex_bytes room s = Inl (- EINVAL)"
  using assms
proof (induction room s rule: hex_bytes.induct)
  case (3 room a s)
  show ?case
  proof (cases s)
    case Nil
    have "hex_index (CHR 0x00) = 208" by (simp add: hex_index_def)
    then show ?thesis by (simp add: Nil Let_def le_max_iff_disj)
  next
    case (Cons b r)
    show ?thesis
    proof (cases "max (hex_index a) (hex_index b) \<ge> length hexNum")
      case True
      then show ?thesis by (simp add: Cons Let_def)
    next
      case False
      then have "hex_bytes room r = Inl (- EINVAL)"
        using 3 Cons by auto
      then show ?thesis using False by (simp add: Cons Let_def)
    qed
  qed
qed auto

theorem bad_hex_refused:
  assumes "length s \<le> 2 * mv_memSize p" and "odd (length s) \<or> list_ex (\<lambda>c. length hexNum \<le> hex_index c) s"
  shows "Parameter_setHexValue setv p s startindex st = (- EINVAL, st)"
  using hex_bytes_refuses [OF assms(1)] assms(2) by (simp add: Parameter_setHexValue_def list_ex_iff)

theorem bad_hex_refused_witness:
  "Parameter_setHexValue (\<lambda>bs off st. (0, bs)) (MsrParameter_new 0 (PrimaryType C_uint16) 5 (PrimaryType C_uint16) [2] 0 [] [] None) ''1z'' 0 [9]
    = (- EINVAL, [9])"
proof -
  let ?p = "MsrParameter_new 0 (PrimaryType C_uint16) 5 (PrimaryType C_uint16) [2] 0 [] [] None"
  have "mv_memSize ?p = 4" by (simp add: MsrParameter_new_def Variable_new_def msr_param.defs msr_var.defs nelem_def)
  moreover have "list_ex (\<lambda>c. length hexNum \<le> hex_index c) ''1z''" by code_simp
  ultimately show ?thesis using bad_hex_refused [of "''1z''" ?p "\<lambda>bs off st. (0, bs)" 0 "[9]"] by simp
qed

text \<open>Characters between the digits and the letters are not refused: they count as zero.\<close>

lemma punctuation_is_zero: "hex_bytes 1 '':G'' = Inr [0]"
  by code_simp

section \<open>Numeric values fit\<close>

lemma set_numbers_bound:
  assumes "\<And>v. length (conv v) = w" and "set_numbers rd conv n out s = (rv, out', s')"
  shows "length out' \<le> length out + n * w"
  using assms(2)
proof (induction n arbitrary: out s)
  case (Suc n)
  show ?case
  proof (cases "rd s")
    case None
    then show ?thesis using Suc.prems by simp
  next
    case (Some vs)
    obtain v s1 where v: "rd s = Some (v, s1)" using Some by (cases vs) auto
    then show ?thesis using Suc.prems Suc.IH [of "out @ conv v"] assms(1)
      by (force split: option.splits prod.splits if_splits)
  qed
qed simp

end
