(* ===== verification/Std_Map.thy ===== *)
theory Std_Map
  imports Pds_Prelude "HOL-Library.Char_ord" "HOL-Library.List_Lexorder"
begin

text \<open>
  The containers of the C++ library the sources use. \<open>std::map\<close> is an association list kept in
  the order of its keys (the order of iteration), \<open>std::set\<close> a strictly sorted list. The second
  half is the loop over the elements of a container that changes the elements in place and a
  shared state, may fail, and writes output; the locale \<open>loop_frame\<close> states what such a loop
  guarantees when the elements own disjoint parts of the shared state.
\<close>

section \<open>Ordered maps\<close>

type_synonym ('k, 'v) omap = "('k \<times> 'v) list"

definition om_get :: "('k, 'v) omap \<Rightarrow> 'k \<Rightarrow> 'v option" where
  "om_get m k = map_of m k"

fun om_put :: "'k::linorder \<Rightarrow> 'v \<Rightarrow> ('k, 'v) omap \<Rightarrow> ('k, 'v) omap" where
  "om_put k v [] = [(k, v)]"
| "om_put k v ((j, w) # m) =
     (if k < j then (k, v) # (j, w) # m else if k = j then (k, v) # m else (j, w) # om_put k v m)"

definition om_del :: "'k \<Rightarrow> ('k, 'v) omap \<Rightarrow> ('k, 'v) omap" where
  "om_del k m = filter (\<lambda>e. fst e \<noteq> k) m"

definition om_ok :: "('k::linorder, 'v) omap \<Rightarrow> bool" where
  "om_ok m \<longleftrightarrow> sorted_wrt (<) (map fst m)"

text \<open>\<open>m[k]\<close> creates a missing entry.\<close>

definition om_at :: "'v \<Rightarrow> ('k, 'v) omap \<Rightarrow> 'k \<Rightarrow> 'v" where
  "om_at dflt m k = (case om_get m k of Some v \<Rightarrow> v | None \<Rightarrow> dflt)"

text \<open>Store an inner map, or erase its entry when it has become empty.\<close>

definition om_prune :: "('v \<Rightarrow> bool) \<Rightarrow> 'k::linorder \<Rightarrow> 'v \<Rightarrow> ('k, 'v) omap \<Rightarrow> ('k, 'v) omap" where
  "om_prune emp k v m = (if emp v then om_del k m else om_put k v m)"

lemma om_get_Nil [simp]: "om_get [] k = None"
  by (simp add: om_get_def)

lemma om_get_put [simp]: "om_get (om_put k v m) j = (if j = k then Some v else om_get m j)"
  unfolding om_get_def by (induction k v m rule: om_put.induct) auto

lemma om_get_del [simp]: "om_get (om_del k m) j = (if j = k then None else om_get m j)"
  unfolding om_get_def om_del_def by (induction m) auto

lemma om_get_prune [simp]:
  "om_get (om_prune emp k v m) j = (if j = k then (if emp v then None else Some v) else om_get m j)"
  by (simp add: om_prune_def)

lemma set_om_put: "set (om_put k v m) \<subseteq> insert (k, v) (set m)"
  by (induction k v m rule: om_put.induct) auto

lemma om_ok_Nil [simp]: "om_ok []"
  by (simp add: om_ok_def)

lemma om_ok_Cons: "om_ok ((k, v) # m) \<longleftrightarrow> (\<forall>j\<in>fst ` set m. k < j) \<and> om_ok m"
  by (auto simp: om_ok_def)

lemma fst_om_put: "fst ` set (om_put k v m) = insert k (fst ` set m)"
  by (induction k v m rule: om_put.induct) auto

lemma om_ok_put [simp, intro]: "om_ok m \<Longrightarrow> om_ok (om_put k v m)"
  by (induction k v m rule: om_put.induct) (auto simp: om_ok_Cons fst_om_put)

lemma om_ok_del [simp, intro]: "om_ok m \<Longrightarrow> om_ok (om_del k m)"
  unfolding om_del_def by (induction m) (auto simp: om_ok_Cons)

lemma om_ok_prune [simp, intro]: "om_ok m \<Longrightarrow> om_ok (om_prune emp k v m)"
  by (simp add: om_prune_def)

lemma om_ok_distinct: "om_ok m \<Longrightarrow> distinct (map fst m)"
  unfolding om_ok_def by (simp add: strict_sorted_iff)

lemma om_get_iff: "om_ok m \<Longrightarrow> om_get m k = Some v \<longleftrightarrow> (k, v) \<in> set m"
  unfolding om_get_def by (simp add: om_ok_distinct)

lemma om_get_in: "om_get m k = Some v \<Longrightarrow> (k, v) \<in> set m"
  unfolding om_get_def by (rule map_of_SomeD)

lemma om_put_Nil_iff [simp]: "om_put k v m \<noteq> []"
  by (cases m) (auto split: if_splits)

lemma om_del_Nil_iff: "om_del k m = [] \<longleftrightarrow> (\<forall>j\<in>fst ` set m. j = k)"
  by (auto simp: om_del_def filter_empty_conv)

lemma om_nonempty_get: "m \<noteq> [] \<Longrightarrow> \<exists>k v. om_get m k = Some v"
  by (cases m) (auto simp: om_get_def)

section \<open>Ordered sets\<close>

lemma set_insort_insert [simp]: "set (insort_insert x xs) = insert x (set xs)"
  by (auto simp: insort_insert_key_def set_insort_key)

lemma insort_insert_nonempty [simp]: "insort_insert x xs \<noteq> []"
  by (metis insert_not_empty set_empty set_insort_insert)

definition os_erase :: "'a \<Rightarrow> 'a list \<Rightarrow> 'a list" where
  "os_erase x xs = filter (\<lambda>y. y \<noteq> x) xs"

lemma set_os_erase [simp]: "set (os_erase x xs) = set xs - {x}"
  by (auto simp: os_erase_def)

lemma distinct_os_erase [simp]: "distinct xs \<Longrightarrow> distinct (os_erase x xs)"
  by (simp add: os_erase_def)

lemma os_erase_Nil_iff [simp]: "os_erase x xs = [] \<longleftrightarrow> set xs \<subseteq> {x}"
  by (auto simp: os_erase_def filter_empty_conv)

section \<open>Loops that update a container in place\<close>

datatype fault = Overrun | Uninitialised | Dangling | Hangs

fun loopE :: "('x \<Rightarrow> 'h \<Rightarrow> fault + ('x \<times> 'h \<times> 'o list)) \<Rightarrow> 'x list \<Rightarrow> 'h \<Rightarrow> fault + ('x list \<times> 'h \<times> 'o list)" where
  "loopE f [] h = Inr ([], h, [])"
| "loopE f (x # xs) h =
     (case f x h of
        Inl e \<Rightarrow> Inl e
      | Inr (x', h', w) \<Rightarrow>
          (case loopE f xs h' of Inl e \<Rightarrow> Inl e | Inr (xs', h'', ws) \<Rightarrow> Inr (x' # xs', h'', w @ ws)))"

definition untouched :: "nat set \<Rightarrow> (nat \<rightharpoonup> 'v) \<Rightarrow> (nat \<rightharpoonup> 'v) \<Rightarrow> bool" where
  "untouched A h h' \<longleftrightarrow> (\<forall>a. a \<notin> A \<longrightarrow> h' a = h a)"

lemma untouched_refl [simp]: "untouched A h h"
  by (simp add: untouched_def)

lemma untouched_trans: "untouched A h h' \<Longrightarrow> untouched B h' h'' \<Longrightarrow> untouched (A \<union> B) h h''"
  by (simp add: untouched_def)

lemma untouched_mono: "untouched A h h' \<Longrightarrow> A \<subseteq> B \<Longrightarrow> untouched B h h'"
  by (auto simp: untouched_def)

definition foots :: "('x \<Rightarrow> nat set) \<Rightarrow> 'x list \<Rightarrow> nat set" where
  "foots foot xs = (\<Union>x\<in>set xs. foot x)"

fun apart :: "('x \<Rightarrow> nat set) \<Rightarrow> 'x list \<Rightarrow> bool" where
  "apart foot [] = True"
| "apart foot (x # xs) = (foot x \<inter> foots foot xs = {} \<and> apart foot xs)"

lemma foots_simps [simp]: "foots foot [] = {}" "foots foot (x # xs) = foot x \<union> foots foot xs"
  by (auto simp: foots_def)

lemma foots_map: "map foot xs' = map foot xs \<Longrightarrow> foots foot xs' = foots foot xs"
  unfolding foots_def by (metis image_set)

lemma apartI:
  assumes "distinct (map key xs)" and "\<And>x a. x \<in> set xs \<Longrightarrow> a \<in> foot x \<Longrightarrow> own a = key x"
  shows "apart foot xs"
  using assms
proof (induction xs)
  case (Cons x xs)
  have "a \<notin> foots foot xs" if "a \<in> foot x" for a
  proof
    assume "a \<in> foots foot xs"
    then obtain y where y: "y \<in> set xs" "a \<in> foot y" by (auto simp: foots_def)
    then have "own a = key y" "own a = key x" using Cons.prems(2) that by simp_all
    with y(1) Cons.prems(1) show False by auto
  qed
  moreover have "apart foot xs" using Cons by simp
  ultimately show ?case by auto
qed simp

text \<open>
  Every element \<open>x\<close> owns the addresses \<open>foot x\<close>. The condition \<open>Pre\<close> of an element, and the
  condition \<open>Post\<close> on it and its own output \<open>w\<close>, depend on these addresses only; under \<open>Pre\<close> the
  body succeeds, establishes \<open>Post\<close> and changes nothing else. Then the loop over elements that own
  disjoint addresses succeeds and establishes \<open>Post\<close> everywhere.
\<close>

locale loop_frame =
  fixes f :: "'x \<Rightarrow> (nat \<rightharpoonup> 'v) \<Rightarrow> fault + ('x \<times> (nat \<rightharpoonup> 'v) \<times> 'o list)"
    and Pre :: "'x \<Rightarrow> (nat \<rightharpoonup> 'v) \<Rightarrow> bool"
    and Post :: "'x \<Rightarrow> 'o list \<Rightarrow> (nat \<rightharpoonup> 'v) \<Rightarrow> bool"
    and foot :: "'x \<Rightarrow> nat set"
    and key :: "'x \<Rightarrow> 'k"
  assumes body: "Pre x h \<Longrightarrow> \<exists>x' h' w. f x h = Inr (x', h', w) \<and> Post x' w h' \<and> foot x' = foot x
      \<and> key x' = key x \<and> untouched (foot x) h h'"
    and pre_owned: "Pre x h \<Longrightarrow> (\<And>a. a \<in> foot x \<Longrightarrow> h' a = h a) \<Longrightarrow> Pre x h'"
    and post_owned: "Post x w h \<Longrightarrow> (\<And>a. a \<in> foot x \<Longrightarrow> h' a = h a) \<Longrightarrow> Post x w h'"
begin

lemma pre_owned_all:
  assumes "\<forall>x\<in>set xs. Pre x h" and "untouched A h h'" and "A \<inter> foots foot xs = {}"
  shows "\<forall>x\<in>set xs. Pre x h'"
proof
  fix x assume x: "x \<in> set xs"
  then have "foot x \<subseteq> foots foot xs" by (auto simp: foots_def)
  with assms(2,3) have "\<And>a. a \<in> foot x \<Longrightarrow> h' a = h a" by (auto simp: untouched_def)
  with assms(1) x show "Pre x h'" by (blast intro: pre_owned)
qed

lemma loop_ok:
  assumes "\<forall>x\<in>set xs. Pre x h" and "apart foot xs"
  shows "\<exists>xs' h' ws. loopE f xs h = Inr (xs', h', concat ws) \<and> list_all2 (\<lambda>x w. Post x w h') xs' ws
    \<and> map foot xs' = map foot xs \<and> map key xs' = map key xs \<and> untouched (foots foot xs) h h'"
  using assms
proof (induction xs arbitrary: h)
  case Nil
  show ?case by (rule exI [of _ "[]"], rule exI [of _ h], rule exI [of _ "[]"]) simp
next
  case (Cons x xs)
  then obtain x' h1 w where x: "f x h = Inr (x', h1, w)" "Post x' w h1" "foot x' = foot x" "key x' = key x"
      "untouched (foot x) h h1"
    using body [of x h] by (metis list.set_intros(1))
  have "\<forall>y\<in>set xs. Pre y h1"
    by (rule pre_owned_all [OF _ x(5)]) (use Cons.prems in simp_all)
  then obtain xs' h2 ws where xs: "loopE f xs h1 = Inr (xs', h2, concat ws)" "list_all2 (\<lambda>x w. Post x w h2) xs' ws"
      "map foot xs' = map foot xs" "map key xs' = map key xs" "untouched (foots foot xs) h1 h2"
    using Cons.IH [of h1] Cons.prems(2) by (simp only: apart.simps) blast
  have "Post x' w h2"
    using x(2,3) xs(5) Cons.prems(2) by (intro post_owned [OF x(2)]) (auto simp: untouched_def)
  moreover have "untouched (foot x \<union> foots foot xs) h h2"
    by (rule untouched_trans [OF x(5) xs(5)])
  ultimately show ?case using x(1,3,4) xs(1-4)
    by (intro exI [of _ "x' # xs'"] exI [of _ h2] exI [of _ "w # ws"]) simp
qed

end

text \<open>Loops over all entries of a \<open>std::map\<close> keep it ordered.\<close>

lemma om_ok_keys: "map fst m' = map fst m \<Longrightarrow> om_ok m \<Longrightarrow> om_ok m'"
  by (simp add: om_ok_def)

end
