(* ===== verification/Xml_Parser.thy ===== *)
theory Xml_Parser
  imports Xml_Out
begin

text \<open>
  \<open>msrproto/XmlParser.cpp\<close>: the incremental parser of client commands. It works in place on a
  growing buffer, cutting the input into strings by overwriting separators with zeroes. Pointers are
  offsets into the buffer \<open>pbuf\<close>, whose length is the allocated size; \<open>read\<close> moves the
  unparsed data to the front or to a larger buffer.
\<close>

section \<open>State\<close>

datatype parse_state =
    FindElementStart | FindNameEnd | FindArgumentName | FindQuotedArgumentValue
  | FindArgumentValue | FindElementEnd | FindTLSEnd

text \<open>
  Name and value of an attribute: a null pointer, a position in the buffer, the pointer that results from shifting a null
  pointer (\<open>Wild\<close>), or one that was never set or was shifted to before the start of the buffer (\<open>Outside\<close>).
  \<open>xp_invalid\<close> says that \<open>inputEnd\<close> is a null pointer, \<open>xp_fault\<close> that \<open>parsePos\<close> or \<open>inputEnd\<close> were shifted to before the
  start of the buffer, or that memory outside of the buffer was accessed.
\<close>

datatype aval = Null | At nat | Wild | Outside

record xparser =
  bufLenMax :: nat
  pbuf :: "char list"
  starttls :: bool
  parsePos :: nat
  inputEnd :: nat
  xp_invalid :: bool
  xp_name :: nat
  argument :: aval
  attribute :: "(aval \<times> aval) list"
  quote :: char
  parseState :: parse_state
  xp_fault :: bool

definition nul :: char where
  "nul = CHR 0x00"

definition bufIncrement :: nat where
  "bufIncrement = 1024"

definition XmlParser_new :: "nat \<Rightarrow> xparser" where
  "XmlParser_new bufMax =
     \<lparr>bufLenMax = bufMax, pbuf = [], starttls = False, parsePos = 0, inputEnd = 0, xp_invalid = True,
      xp_name = 0, argument = Outside, attribute = [], quote = nul, parseState = FindElementStart, xp_fault = False\<rparr>"

text \<open>The string at an offset of the buffer, up to the next zero.\<close>

definition cstr :: "char list \<Rightarrow> nat \<Rightarrow> string" where
  "cstr b o' = takeWhile (\<lambda>c. c \<noteq> nul) (drop o' b)"

definition isalpha :: "char \<Rightarrow> bool" where
  "isalpha c \<longleftrightarrow> (let n = (of_char c :: nat) in (65 \<le> n \<and> n \<le> 90) \<or> (97 \<le> n \<and> n \<le> 122))"

text \<open>\<open>strchr\<close> also finds the terminating zero.\<close>

definition strchr :: "string \<Rightarrow> char \<Rightarrow> bool" where
  "strchr s c \<longleftrightarrow> c \<in> set s \<or> c = nul"

text \<open>First position from \<open>p\<close> below \<open>e\<close> whose character satisfies \<open>P\<close>, else \<open>e\<close>.\<close>

definition scan :: "(char \<Rightarrow> bool) \<Rightarrow> char list \<Rightarrow> nat \<Rightarrow> nat \<Rightarrow> nat" where
  "scan P b p e = p + length (takeWhile (\<lambda>c. \<not> P c) (take (e - p) (drop p b)))"

section \<open>Input\<close>

definition shift_val :: "nat \<Rightarrow> aval \<Rightarrow> aval" where
  "shift_val d v = (case v of At n \<Rightarrow> if d \<le> n then At (n - d) else Outside
     | Null \<Rightarrow> Wild | Wild \<Rightarrow> Wild | Outside \<Rightarrow> Outside)"

text \<open>
  \<open>moveData\<close> to the start of a buffer of \<open>n\<close> bytes: everything from \<open>name\<close> on is kept. The
  rest of the buffer holds what was there before (or zeroes).
\<close>

definition moveData :: "char list \<Rightarrow> xparser \<Rightarrow> xparser" where
  "moveData old p =
     (let d = xp_name p; kept = slice d (inputEnd p - d) (pbuf p) in
      p\<lparr>pbuf := kept @ drop (length kept) old, parsePos := parsePos p - d, inputEnd := inputEnd p - d,
        xp_invalid := False, xp_name := 0, argument := shift_val d (argument p),
        attribute := map (\<lambda>(a, v). (shift_val d a, shift_val d v)) (attribute p),
        xp_fault := xp_fault p \<or> parsePos p < d \<or> inputEnd p < d\<rparr>)"

text \<open>The buffer management at the start of \<open>read\<close>; the flag says that input may be read.\<close>

definition read_prepare :: "xparser \<Rightarrow> bool \<times> xparser" where
  "read_prepare p =
     (if length (pbuf p) = inputEnd p then
        if 1 < xp_name p then (True, moveData (pbuf p) p)
        else if bufLenMax p \<le> length (pbuf p) then (False, p\<lparr>inputEnd := 0, xp_invalid := True\<rparr>)
        else (True, moveData (replicate (length (pbuf p) + bufIncrement) nul) p)
      else if parseState p = FindElementStart \<and> \<not> xp_invalid p \<and> parsePos p = inputEnd p then
        (True, p\<lparr>inputEnd := 0, parsePos := 0\<rparr>)
      else (True, p))"

text \<open>
  \<open>read\<close>: the stream delivers at most the free space; \<open>inp\<close> is what \<open>sgetn\<close> would deliver
  for an unlimited buffer. The result is the number of characters read. Reading after a rejection writes to a null pointer.
\<close>

definition XmlParser_read :: "string \<Rightarrow> xparser \<Rightarrow> nat \<times> xparser" where
  "XmlParser_read inp p =
     (case read_prepare p of
        (False, p') \<Rightarrow> (0, p')
      | (True, p') \<Rightarrow>
          let s = take (length (pbuf p') - inputEnd p') inp; n = length s in
          (n, p'\<lparr>pbuf := take (inputEnd p') (pbuf p') @ s @ drop (inputEnd p' + n) (pbuf p'),
                inputEnd := inputEnd p' + n, xp_fault := xp_fault p' \<or> xp_invalid p'\<rparr>))"

definition XmlParser_invalid :: "xparser \<Rightarrow> bool" where
  "XmlParser_invalid p = xp_invalid p"

section \<open>The state machine\<close>

datatype outcome = Again xparser | Ret bool xparser

definition put_nul :: "nat \<Rightarrow> xparser \<Rightarrow> xparser" where
  "put_nul i p = p\<lparr>pbuf := (pbuf p)[i := nul]\<rparr>"

definition push_attr :: "aval \<Rightarrow> aval \<Rightarrow> xparser \<Rightarrow> xparser" where
  "push_attr a v p = p\<lparr>attribute := attribute p @ [(a, v)]\<rparr>"

abbreviation cur :: "xparser \<Rightarrow> char" where
  "cur p \<equiv> pbuf p ! parsePos p"

definition st_FindArgumentValue :: "xparser \<Rightarrow> outcome" where
  "st_FindArgumentValue p =
     (let q = scan (\<lambda>c. c = CHR '' '' \<or> c = CHR ''>'') (pbuf p) (parsePos p) (inputEnd p);
          p1 = p\<lparr>parsePos := q\<rparr> in
      if q = inputEnd p then Ret False p1 else Again (p1\<lparr>parseState := FindElementEnd\<rparr>))"

definition st_FindQuotedArgumentValue :: "xparser \<Rightarrow> outcome" where
  "st_FindQuotedArgumentValue p =
     (let q = scan (\<lambda>c. c = quote p) (pbuf p) (parsePos p) (inputEnd p) in
      if inputEnd p \<le> q + 1 then Ret False (p\<lparr>parsePos := q\<rparr>)
      else st_FindArgumentValue ((put_nul q p)\<lparr>parsePos := q + 1, parseState := FindElementEnd\<rparr>))"

definition strncmp_eq :: "string \<Rightarrow> string \<Rightarrow> nat \<Rightarrow> bool" where
  "strncmp_eq s t n \<longleftrightarrow> take n s = take n t"

definition st_FindArgumentName :: "xparser \<Rightarrow> outcome" where
  "st_FindArgumentName p =
     (let q = scan (strchr ''= />'') (pbuf p) (parsePos p) (inputEnd p); p1 = p\<lparr>parsePos := q\<rparr> in
      if q = inputEnd p then Ret False p1
      else if pbuf p ! q \<noteq> CHR ''='' then
        let p2 = push_attr (argument p) Null p1;
            p3 = (if argument p = At (xp_name p)
                  then p2\<lparr>starttls := strncmp_eq (cstr (pbuf p) (xp_name p)) ''starttls'' 8\<rparr> else p2)
        in Again (p3\<lparr>parseState := FindElementEnd\<rparr>)
      else if inputEnd p \<le> q + 1 then Ret False p1
      else let c = pbuf p ! (q + 1); p2 = p1\<lparr>quote := c\<rparr> in
        if c \<noteq> quot \<and> c \<noteq> apos then
          Again ((push_attr (argument p) (At (q + 1)) (put_nul q p2))\<lparr>parsePos := q + 2, parseState := FindArgumentValue\<rparr>)
        else if inputEnd p \<le> q + 2 then Ret False p2
        else st_FindQuotedArgumentValue
          ((push_attr (argument p) (At (q + 2)) (put_nul q p2))\<lparr>parsePos := q + 2, parseState := FindQuotedArgumentValue\<rparr>))"

text \<open>The loop over blanks: every one is overwritten; the flag says that the input ended.\<close>

function clobber_blanks :: "xparser \<Rightarrow> bool \<times> xparser" where
  "clobber_blanks p =
     (if parsePos p < inputEnd p \<and> cur p = CHR '' '' then
        let p1 = (put_nul (parsePos p) p)\<lparr>parsePos := parsePos p + 1\<rparr> in
        if parsePos p1 = inputEnd p1 then (True, p1) else clobber_blanks p1
      else (False, p))"
  by pat_completeness auto
termination
  by (relation "measure (\<lambda>p. inputEnd p - parsePos p)") (auto simp: put_nul_def)

declare clobber_blanks.simps [simp del]

definition st_FindElementEnd :: "xparser \<Rightarrow> outcome" where
  "st_FindElementEnd p0 =
     (case clobber_blanks p0 of
        (True, p) \<Rightarrow> Ret False p
      | (False, p) \<Rightarrow>
          let q = parsePos p in
          if cur p = CHR ''/'' then
            if inputEnd p \<le> q + 1 then Ret False p
            else let p1 = (put_nul q p)\<lparr>parsePos := q + 2, parseState := FindElementStart\<rparr> in
              if pbuf p ! (q + 1) = CHR ''>'' then
                if \<not> starttls p then Ret True p1 else Again (p1\<lparr>parseState := FindTLSEnd\<rparr>)
              else Again p1
          else if \<not> isalpha (cur p) then
            if cur p = CHR ''>'' then
              let p1 = (put_nul q p)\<lparr>parsePos := q + 1, parseState := FindElementStart\<rparr> in
              if \<not> starttls p then Ret True p1 else Again (p1\<lparr>parseState := FindTLSEnd\<rparr>)
            else Again (p\<lparr>parseState := FindElementStart\<rparr>)
          else st_FindArgumentName (p\<lparr>argument := At q, parseState := FindArgumentName\<rparr>))"

definition st_FindElementStart :: "xparser \<Rightarrow> outcome" where
  "st_FindElementStart p =
     (let q = scan (\<lambda>c. c = CHR ''<'') (pbuf p) (parsePos p) (inputEnd p) in
      if inputEnd p \<le> q + 2 then Ret False (p\<lparr>parsePos := q\<rparr>)
      else let p1 = p\<lparr>parsePos := q + 1, xp_name := q + 1\<rparr> in
        if \<not> isalpha (pbuf p ! (q + 1)) then Again p1
        else st_FindElementEnd (p1\<lparr>attribute := [], starttls := False, parseState := FindElementEnd\<rparr>))"

definition st_FindNameEnd :: "xparser \<Rightarrow> outcome" where
  "st_FindNameEnd p =
     (let q = scan (strchr '' />'') (pbuf p) (parsePos p) (inputEnd p); p1 = p\<lparr>parsePos := q\<rparr> in
      if q = inputEnd p then Ret False p1
      else Again (p1\<lparr>starttls := strncmp_eq ''starttls'' (cstr (pbuf p) (xp_name p)) (q - xp_name p),
                   parseState := FindElementEnd\<rparr>))"

definition st_FindTLSEnd :: "xparser \<Rightarrow> outcome" where
  "st_FindTLSEnd p =
     (if cur p = CHR 0x0D \<and> parsePos p + 1 = inputEnd p then Ret False p
      else let p1 = (if cur p = CHR 0x0D then p\<lparr>parsePos := parsePos p + 1\<rparr> else p)\<lparr>parseState := FindElementStart\<rparr> in
        if cur p1 = CHR 0x0A then Ret True (p1\<lparr>parsePos := parsePos p1 + 1\<rparr>) else Again p1)"

definition parse_step :: "xparser \<Rightarrow> outcome" where
  "parse_step p =
     (case parseState p of
        FindElementStart \<Rightarrow> st_FindElementStart p
      | FindElementEnd \<Rightarrow> st_FindElementEnd p
      | FindArgumentName \<Rightarrow> st_FindArgumentName p
      | FindQuotedArgumentValue \<Rightarrow> st_FindQuotedArgumentValue p
      | FindArgumentValue \<Rightarrow> st_FindArgumentValue p
      | FindNameEnd \<Rightarrow> st_FindNameEnd p
      | FindTLSEnd \<Rightarrow> st_FindTLSEnd p)"

section \<open>Progress of a step\<close>

lemma scan_bounds: "p \<le> e \<Longrightarrow> p \<le> scan P b p e \<and> scan P b p e \<le> e"
proof -
  assume "p \<le> e"
  have "length (takeWhile (\<lambda>c. \<not> P c) (take (e - p) (drop p b))) \<le> length (take (e - p) (drop p b))"
    by (rule length_takeWhile_le)
  with \<open>p \<le> e\<close> show ?thesis by (auto simp: scan_def)
qed

fun state_rank :: "parse_state \<Rightarrow> nat" where
  "state_rank FindElementStart = 0"
| "state_rank FindElementEnd = 1"
| "state_rank FindTLSEnd = 1"
| "state_rank _ = 2"

definition parse_measure :: "xparser \<Rightarrow> nat" where
  "parse_measure p = 3 * (inputEnd p - parsePos p) + state_rank (parseState p)"

text \<open>\<open>frame p p'\<close>: what the state machine never changes, and that the position does not run past the input.\<close>

definition advanced :: "xparser \<Rightarrow> xparser \<Rightarrow> bool" where
  "advanced p p' \<longleftrightarrow> inputEnd p' = inputEnd p \<and> length (pbuf p') = length (pbuf p) \<and>
     bufLenMax p' = bufLenMax p \<and> xp_invalid p' = xp_invalid p \<and> xp_fault p' = xp_fault p \<and>
     parsePos p \<le> parsePos p' \<and> (parsePos p \<le> inputEnd p \<longrightarrow> parsePos p' \<le> inputEnd p) \<and>
     take (parsePos p) (pbuf p') = take (parsePos p) (pbuf p)"

fun outcome_ok :: "(xparser \<Rightarrow> bool) \<Rightarrow> (xparser \<Rightarrow> bool) \<Rightarrow> outcome \<Rightarrow> bool" where
  "outcome_ok A R (Again p) = A p"
| "outcome_ok A R (Ret b p) = R p"

lemma advanced_refl [simp]: "advanced p p"
  by (simp add: advanced_def)

lemma advanced_trans: "advanced p p1 \<Longrightarrow> advanced p1 p2 \<Longrightarrow> advanced p p2"
proof -
  assume a: "advanced p p1" "advanced p1 p2"
  then have le: "parsePos p \<le> parsePos p1" by (simp add: advanced_def)
  have "take (parsePos p) (pbuf p2) = take (parsePos p) (take (parsePos p1) (pbuf p2))" using le by (simp add: min_def)
  also have "\<dots> = take (parsePos p) (pbuf p)" using a le by (simp add: advanced_def min_def)
  finally show ?thesis using a by (simp add: advanced_def)
qed

lemma outcome_ok_mono:
  "outcome_ok A R x \<Longrightarrow> (\<And>p. A p \<Longrightarrow> A' p) \<Longrightarrow> (\<And>p. R p \<Longrightarrow> R' p) \<Longrightarrow> outcome_ok A' R' x"
  by (cases x) auto

lemma advanced_putI:
  assumes "inputEnd p' = inputEnd p" "pbuf p' = (pbuf p)[i := nul] \<or> pbuf p' = pbuf p" "parsePos p \<le> i"
    "bufLenMax p' = bufLenMax p" "xp_invalid p' = xp_invalid p" "xp_fault p' = xp_fault p" "parsePos p \<le> parsePos p'"
    "parsePos p \<le> inputEnd p \<longrightarrow> parsePos p' \<le> inputEnd p"
  shows "advanced p p'"
  using assms by (auto simp: advanced_def)

lemma st_FindArgumentValue_adv:
  assumes "parsePos p \<le> inputEnd p"
  shows "outcome_ok (\<lambda>p'. advanced p p' \<and> parseState p' = FindElementEnd) (advanced p) (st_FindArgumentValue p)"
  using scan_bounds [OF assms, of "\<lambda>c. c = CHR '' '' \<or> c = CHR ''>''" "pbuf p"]
  by (simp add: st_FindArgumentValue_def Let_def advanced_def)

lemma st_FindQuotedArgumentValue_adv:
  assumes "parsePos p \<le> inputEnd p"
  shows "outcome_ok (\<lambda>p'. advanced p p' \<and> parseState p' = FindElementEnd) (advanced p) (st_FindQuotedArgumentValue p)"
proof -
  let ?q = "scan (\<lambda>c. c = quote p) (pbuf p) (parsePos p) (inputEnd p)"
  have b: "parsePos p \<le> ?q" "?q \<le> inputEnd p" using scan_bounds [OF assms] by auto
  show ?thesis
  proof (cases "inputEnd p \<le> ?q + 1")
    case True
    with b show ?thesis by (simp add: st_FindQuotedArgumentValue_def Let_def advanced_def)
  next
    case False
    let ?p = "(put_nul ?q p)\<lparr>parsePos := ?q + 1, parseState := FindElementEnd\<rparr>"
    have a: "advanced p ?p" using b False by (auto simp: put_nul_def intro: advanced_putI [of _ _ ?q])
    have "parsePos ?p \<le> inputEnd ?p" using False by (simp add: put_nul_def)
    from st_FindArgumentValue_adv [OF this]
    have "outcome_ok (\<lambda>p'. advanced p p' \<and> parseState p' = FindElementEnd) (advanced p) (st_FindArgumentValue ?p)"
      by (rule outcome_ok_mono) (use a advanced_trans in blast)+
    with False show ?thesis by (simp add: st_FindQuotedArgumentValue_def Let_def)
  qed
qed

lemma scan_progress: "p < e \<Longrightarrow> e \<le> length b \<Longrightarrow> \<not> P (b ! p) \<Longrightarrow> p < scan P b p e"
  by (cases "drop p b") (auto simp: scan_def take_Cons' hd_drop_conv_nth dest: arg_cong [of _ _ hd])

lemma st_FindArgumentName_adv:
  assumes "parsePos p < inputEnd p" and "inputEnd p \<le> length (pbuf p)"
  shows "outcome_ok (\<lambda>p'. advanced p p' \<and>
      (parseState p' = FindElementEnd \<or> parseState p' = FindArgumentValue \<and> parsePos p < parsePos p') \<and>
      (\<not> strchr ''= />'' (cur p) \<longrightarrow> parsePos p < parsePos p')) (advanced p) (st_FindArgumentName p)"
    (is "outcome_ok ?A _ _")
proof -
  define q where "q = scan (strchr ''= />'') (pbuf p) (parsePos p) (inputEnd p)"
  define c where "c = pbuf p ! (q + 1)"
  have b: "parsePos p \<le> q" "q \<le> inputEnd p" using scan_bounds [of "parsePos p"] assms(1) by (auto simp: q_def)
  have pr: "\<not> strchr ''= />'' (cur p) \<longrightarrow> parsePos p < q" using scan_progress [OF assms] by (auto simp: q_def)
  have def: "st_FindArgumentName p = (let p1 = p\<lparr>parsePos := q\<rparr> in
      if q = inputEnd p then Ret False p1
      else if pbuf p ! q \<noteq> CHR ''='' then
        let p2 = push_attr (argument p) Null p1;
            p3 = (if argument p = At (xp_name p)
                  then p2\<lparr>starttls := strncmp_eq (cstr (pbuf p) (xp_name p)) ''starttls'' 8\<rparr> else p2)
        in Again (p3\<lparr>parseState := FindElementEnd\<rparr>)
      else if inputEnd p \<le> q + 1 then Ret False p1
      else let p2 = p1\<lparr>quote := c\<rparr> in
        if c \<noteq> quot \<and> c \<noteq> apos then
          Again ((push_attr (argument p) (At (q + 1)) (put_nul q p2))\<lparr>parsePos := q + 2, parseState := FindArgumentValue\<rparr>)
        else if inputEnd p \<le> q + 2 then Ret False p2
        else st_FindQuotedArgumentValue
          ((push_attr (argument p) (At (q + 2)) (put_nul q p2))\<lparr>parsePos := q + 2, parseState := FindQuotedArgumentValue\<rparr>))"
    by (simp add: st_FindArgumentName_def Let_def q_def c_def)
  consider (short) "q = inputEnd p \<or> pbuf p ! q = CHR ''='' \<and> (inputEnd p \<le> q + 1 \<or> inputEnd p \<le> q + 2 \<and> (c = quot \<or> c = apos))"
    | (flag) "q \<noteq> inputEnd p" "pbuf p ! q \<noteq> CHR ''=''"
    | (plain) "q \<noteq> inputEnd p" "pbuf p ! q = CHR ''=''" "\<not> inputEnd p \<le> q + 1" "c \<noteq> quot \<and> c \<noteq> apos"
    | (quoted) "q \<noteq> inputEnd p" "pbuf p ! q = CHR ''=''" "\<not> inputEnd p \<le> q + 2" "\<not> (c \<noteq> quot \<and> c \<noteq> apos)"
    by blast
  then show ?thesis
  proof cases
    case short
    with b show ?thesis by (auto simp: def Let_def advanced_def)
  next
    case flag
    with b pr show ?thesis by (simp add: def Let_def advanced_def push_attr_def)
  next
    case plain
    with b pr show ?thesis by (simp add: def Let_def advanced_def push_attr_def put_nul_def)
  next
    case quoted
    let ?p = "(push_attr (argument p) (At (q + 2)) (put_nul q (p\<lparr>parsePos := q, quote := c\<rparr>)))
      \<lparr>parsePos := q + 2, parseState := FindQuotedArgumentValue\<rparr>"
    have eq: "st_FindArgumentName p = st_FindQuotedArgumentValue ?p"
      using quoted by (auto simp: def Let_def)
    have a: "advanced p ?p" using b quoted by (simp add: put_nul_def push_attr_def advanced_def)
    have "parsePos ?p \<le> inputEnd ?p" using quoted by (simp add: put_nul_def push_attr_def)
    from st_FindQuotedArgumentValue_adv [OF this] show ?thesis
      unfolding eq
    proof (rule outcome_ok_mono)
      fix p' assume A: "advanced ?p p' \<and> parseState p' = FindElementEnd"
      then have "parsePos p < parsePos p'" using b by (simp add: advanced_def put_nul_def push_attr_def)
      with A advanced_trans [OF a] show "?A p'" by blast
    qed (use a advanced_trans in blast)
  qed
qed

lemma clobber_blanks_adv:
  assumes "parsePos p < inputEnd p"
  shows "clobber_blanks p = (e, p') \<Longrightarrow> advanced p p' \<and> parseState p' = parseState p \<and> xp_name p' = xp_name p \<and>
    starttls p' = starttls p \<and> attribute p' = attribute p \<and> (\<not> e \<longrightarrow> parsePos p' < inputEnd p)"
  using assms
proof (induction p rule: clobber_blanks.induct)
  case (1 p)
  show ?case
  proof (cases "cur p = CHR '' ''")
    case True
    let ?p = "(put_nul (parsePos p) p)\<lparr>parsePos := parsePos p + 1\<rparr>"
    have a: "advanced p ?p" using 1(3) by (auto simp: put_nul_def intro: advanced_putI [of _ _ "parsePos p"])
    show ?thesis
    proof (cases "parsePos ?p = inputEnd ?p")
      case t: True
      with 1(2,3) True have "e" "p' = ?p" by (simp_all add: clobber_blanks.simps [of p] Let_def)
      with a show ?thesis by (simp add: put_nul_def)
    next
      case f: False
      with 1(2,3) True have c: "clobber_blanks ?p = (e, p')" by (simp add: clobber_blanks.simps [of p] Let_def)
      have "parsePos ?p < inputEnd ?p" using f 1(3) by (simp add: put_nul_def)
      from 1(1) [OF _ refl f c this] 1(3) True a advanced_trans [OF a] show ?thesis by (auto simp: put_nul_def)
    qed
  next
    case False
    with 1(2,3) show ?thesis by (auto simp: clobber_blanks.simps [of p])
  qed
qed

lemma isalpha_not_sep: "isalpha c \<Longrightarrow> \<not> strchr ''= />'' c \<and> c \<noteq> CHR '' '' \<and> c \<noteq> CHR ''/'' \<and> c \<noteq> CHR ''>''"
  by (auto simp: isalpha_def strchr_def nul_def Let_def)

lemma measure_less:
  "inputEnd p' = inputEnd p \<Longrightarrow> parsePos p < parsePos p' \<Longrightarrow> parsePos p' \<le> inputEnd p \<Longrightarrow> parse_measure p' < parse_measure p"
  by (cases "parseState p'") (auto simp: parse_measure_def)

lemma measure_rank:
  "inputEnd p' = inputEnd p \<Longrightarrow> parsePos p \<le> parsePos p' \<Longrightarrow>
   state_rank (parseState p') < state_rank (parseState p) \<Longrightarrow> parse_measure p' < parse_measure p"
  by (simp add: parse_measure_def)

definition step_ok :: "xparser \<Rightarrow> outcome \<Rightarrow> bool" where
  "step_ok p x = outcome_ok (\<lambda>p'. advanced p p' \<and> parse_measure p' < parse_measure p) (advanced p) x"

lemma st_FindElementEnd_adv:
  assumes "parsePos p < inputEnd p" and "inputEnd p \<le> length (pbuf p)"
  shows "outcome_ok (\<lambda>p'. advanced p p' \<and>
      (parseState p' = FindElementStart \<or> parsePos p < parsePos p')) (advanced p) (st_FindElementEnd p)"
    (is "outcome_ok ?A _ _")
proof -
  obtain e p1 where c: "clobber_blanks p = (e, p1)" by force
  note B = clobber_blanks_adv [OF assms(1) c]
  then have adv: "advanced p p1" by blast
  then have f: "inputEnd p1 = inputEnd p" "length (pbuf p1) = length (pbuf p)" "parsePos p \<le> parsePos p1"
    by (simp_all add: advanced_def)
  show ?thesis
  proof (cases "e \<or> cur p1 = CHR ''/'' \<or> \<not> isalpha (cur p1)")
    case True
    have step: "outcome_ok (\<lambda>p'. advanced p1 p' \<and> (parseState p' = FindElementStart \<or> parsePos p1 < parsePos p'))
        (advanced p1) (st_FindElementEnd p)"
    proof (cases e)
      case t: True
      then show ?thesis by (simp add: st_FindElementEnd_def c)
    next
      case f: False
      have lt: "parsePos p1 < inputEnd p1" using B f \<open>inputEnd p1 = inputEnd p\<close> by simp
      show ?thesis
      proof (cases "cur p1 = CHR ''/''")
        case True
        with lt f show ?thesis by (simp add: st_FindElementEnd_def c Let_def advanced_def put_nul_def)
      next
        case s: False
        with True f have "\<not> isalpha (cur p1)" by blast
        with lt f s show ?thesis by (simp add: st_FindElementEnd_def c Let_def advanced_def put_nul_def)
      qed
    qed
    then show ?thesis
      by (rule outcome_ok_mono) (use advanced_trans [OF adv] le_less_trans [OF f(3)] in blast)+
  next
    case False
    let ?p = "p1\<lparr>argument := At (parsePos p1), parseState := FindArgumentName\<rparr>"
    have eq: "st_FindElementEnd p = st_FindArgumentName ?p" using False by (simp add: st_FindElementEnd_def c Let_def)
    have a: "advanced p ?p" "parsePos p \<le> parsePos ?p" using adv by (simp_all add: advanced_def)
    have pos: "parsePos ?p < inputEnd ?p" "inputEnd ?p \<le> length (pbuf ?p)" using B False f assms(2) by auto
    from False isalpha_not_sep have "\<not> strchr ''= />'' (cur ?p)" by simp
    with st_FindArgumentName_adv [OF pos] show ?thesis
      unfolding eq
      by (elim outcome_ok_mono) (use advanced_trans [OF a(1)] le_less_trans [OF a(2)] in blast)+
  qed
qed

lemma parse_step_ok:
  assumes "parsePos p < inputEnd p" and "inputEnd p \<le> length (pbuf p)"
  shows "step_ok p (parse_step p)"
proof -
  have le: "parsePos p \<le> inputEnd p" using assms(1) by simp
  have fin: "advanced p p' \<and> parsePos p < parsePos p' \<Longrightarrow> parse_measure p' < parse_measure p" for p'
    by (rule measure_less) (use le in \<open>auto simp: advanced_def\<close>)
  have rank: "advanced p p' \<and> state_rank (parseState p') < state_rank (parseState p) \<Longrightarrow>
      parse_measure p' < parse_measure p" for p'
    by (rule measure_rank) (auto simp: advanced_def)
  show ?thesis
  proof (cases "parseState p")
    case FindElementStart
    let ?q = "scan (\<lambda>c. c = CHR ''<'') (pbuf p) (parsePos p) (inputEnd p)"
    have b: "parsePos p \<le> ?q" "?q \<le> inputEnd p" using scan_bounds [OF le] by auto
    let ?p = "p\<lparr>parsePos := ?q + 1, xp_name := ?q + 1, attribute := [], starttls := False, parseState := FindElementEnd\<rparr>"
    consider (short) "inputEnd p \<le> ?q + 2" | (skip) "\<not> inputEnd p \<le> ?q + 2" "\<not> isalpha (pbuf p ! (?q + 1))"
      | (el) "\<not> inputEnd p \<le> ?q + 2" "isalpha (pbuf p ! (?q + 1))" by blast
    then show ?thesis
    proof cases
      case short
      with b show ?thesis
        by (simp add: parse_step_def FindElementStart st_FindElementStart_def Let_def step_ok_def advanced_def)
    next
      case skip
      with b show ?thesis
        by (simp add: parse_step_def FindElementStart st_FindElementStart_def Let_def step_ok_def advanced_def
            parse_measure_def)
    next
      case el
      have eq: "parse_step p = st_FindElementEnd ?p"
        using el by (simp add: parse_step_def FindElementStart st_FindElementStart_def Let_def)
      have a: "advanced p ?p" "parsePos p < parsePos ?p" using b el by (simp_all add: advanced_def)
      have "parsePos ?p < inputEnd ?p" "inputEnd ?p \<le> length (pbuf ?p)" using el assms(2) by simp_all
      from st_FindElementEnd_adv [OF this] show ?thesis
        unfolding eq step_ok_def
      proof (rule outcome_ok_mono)
        fix p' assume "advanced ?p p' \<and> (parseState p' = FindElementStart \<or> parsePos ?p < parsePos p')"
        then have "advanced ?p p'" by blast
        moreover from this have "parsePos p < parsePos p'" using a(2) by (simp add: advanced_def)
        ultimately show "advanced p p' \<and> parse_measure p' < parse_measure p"
          using fin advanced_trans [OF a(1)] by blast
      qed (use a advanced_trans in blast)
    qed
  next
    case FindElementEnd
    show ?thesis
      unfolding parse_step_def FindElementEnd parse_state.case step_ok_def
      by (rule outcome_ok_mono [OF st_FindElementEnd_adv [OF assms]])
        (use fin rank FindElementEnd in \<open>auto\<close>)
  next
    case FindArgumentName
    show ?thesis
      unfolding parse_step_def FindArgumentName parse_state.case step_ok_def
      by (rule outcome_ok_mono [OF st_FindArgumentName_adv [OF assms]])
        (use fin rank FindArgumentName in \<open>auto\<close>)
  next
    case FindQuotedArgumentValue
    show ?thesis
      unfolding parse_step_def FindQuotedArgumentValue parse_state.case step_ok_def
      by (rule outcome_ok_mono [OF st_FindQuotedArgumentValue_adv [OF le]])
        (use rank FindQuotedArgumentValue in \<open>auto\<close>)
  next
    case FindArgumentValue
    show ?thesis
      unfolding parse_step_def FindArgumentValue parse_state.case step_ok_def
      by (rule outcome_ok_mono [OF st_FindArgumentValue_adv [OF le]])
        (use rank FindArgumentValue in \<open>auto\<close>)
  next
    case FindNameEnd
    with scan_bounds [OF le, of "strchr '' />''" "pbuf p"] show ?thesis
      by (auto simp: parse_step_def st_FindNameEnd_def Let_def step_ok_def advanced_def parse_measure_def)
  next
    case FindTLSEnd
    with assms show ?thesis
      by (auto simp: parse_step_def st_FindTLSEnd_def Let_def step_ok_def advanced_def parse_measure_def)
  qed
qed

section \<open>The loop\<close>

text \<open>
  \<open>operator bool\<close>: steps until the input is used up or an element is complete. If the input ended
  behind the buffer a step would read outside of it.
\<close>

function XmlParser_next :: "xparser \<Rightarrow> bool \<times> xparser" where
  "XmlParser_next p =
     (if parsePos p < inputEnd p \<and> inputEnd p \<le> length (pbuf p) then
        (case parse_step p of Ret b p' \<Rightarrow> (b, p') | Again p' \<Rightarrow> XmlParser_next p')
      else (False, p\<lparr>xp_fault := xp_fault p \<or> parsePos p < inputEnd p\<rparr>))"
  by pat_completeness auto
termination
proof (relation "measure parse_measure")
  fix p p'
  assume "parsePos p < inputEnd p \<and> inputEnd p \<le> length (pbuf p)" and "parse_step p = Again p'"
  with parse_step_ok [of p] show "(p', p) \<in> measure parse_measure" by (simp add: step_ok_def)
qed simp

declare XmlParser_next.simps [simp del]

lemma XmlParser_next_advanced: "XmlParser_next p = (b, p') \<Longrightarrow> inputEnd p \<le> length (pbuf p) \<Longrightarrow> advanced p p'"
proof (induction p rule: XmlParser_next.induct)
  case (1 p)
  show ?case
  proof (cases "parsePos p < inputEnd p \<and> inputEnd p \<le> length (pbuf p)")
    case True
    with parse_step_ok [of p] have ok: "step_ok p (parse_step p)" by simp
    show ?thesis
    proof (cases "parse_step p")
      case (Again p1)
      with 1(2) True have "XmlParser_next p1 = (b, p')" by (simp add: XmlParser_next.simps [of p])
      moreover have "advanced p p1" using ok Again by (simp add: step_ok_def)
      moreover from this have "inputEnd p1 \<le> length (pbuf p1)" using 1(3) by (simp add: advanced_def)
      ultimately show ?thesis using 1(1) [OF True Again] advanced_trans by blast
    next
      case (Ret b1 p1)
      with 1(2) True ok show ?thesis by (simp add: XmlParser_next.simps [of p] step_ok_def)
    qed
  next
    case False
    with 1(2,3) show ?thesis by (auto simp: XmlParser_next.simps [of p] advanced_def)
  qed
qed

section \<open>Positions\<close>

text \<open>
  \<open>live\<close>: the positions of the element that is being parsed, or has just been found, lie between its name and the
  position of the parser; \<open>good\<close> is what holds of the element between two calls, \<open>drained\<close> that the data has been looked at
  up to the last two characters.
\<close>

definition in_buf :: "nat \<Rightarrow> nat \<Rightarrow> aval \<Rightarrow> bool" where
  "in_buf lo hi v \<longleftrightarrow> (case v of At n \<Rightarrow> lo \<le> n \<and> n \<le> hi | _ \<Rightarrow> False)"

definition held :: "nat \<Rightarrow> nat \<Rightarrow> aval \<times> aval \<Rightarrow> bool" where
  "held lo hi av \<longleftrightarrow> in_buf lo hi (fst av) \<and> (snd av = Null \<or> snd av = Wild \<or> in_buf lo hi (snd av))"

definition live :: "xparser \<Rightarrow> bool" where
  "live p \<longleftrightarrow> xp_name p \<le> parsePos p \<and> list_all (held (xp_name p) (parsePos p)) (attribute p)"

definition good :: "xparser \<Rightarrow> bool" where
  "good p \<longleftrightarrow> (xp_name p = 0 \<or> xp_name p + 2 \<le> length (pbuf p)) \<and>
     (parseState p \<noteq> FindElementStart \<longrightarrow> live p) \<and>
     (parseState p = FindArgumentName \<longrightarrow> in_buf (xp_name p) (parsePos p) (argument p))"

definition drained :: "xparser \<Rightarrow> bool" where
  "drained p \<longleftrightarrow> (parseState p = FindElementStart \<longrightarrow> inputEnd p \<le> parsePos p + 2)"

fun good_out :: "outcome \<Rightarrow> bool" where
  "good_out (Again p) = good p"
| "good_out (Ret b p) = (good p \<and> (if b then live p else drained p))"

lemma in_buf_mono: "in_buf lo hi v \<Longrightarrow> hi \<le> hi' \<Longrightarrow> in_buf lo hi' v"
  by (auto simp: in_buf_def split: aval.splits)

lemma in_buf_At [simp]: "in_buf lo hi (At n) = (lo \<le> n \<and> n \<le> hi)"
  by (simp add: in_buf_def)

lemma held_mono: "held lo hi av \<Longrightarrow> hi \<le> hi' \<Longrightarrow> held lo hi' av"
  by (auto simp: held_def dest: in_buf_mono)

lemma live_move:
  "live p \<Longrightarrow> xp_name p' = xp_name p \<Longrightarrow> attribute p' = attribute p \<Longrightarrow> parsePos p \<le> parsePos p' \<Longrightarrow> live p'"
  unfolding live_def by (auto elim: list.pred_mono_strong intro: held_mono)

lemma live_push:
  assumes "live p" and "in_buf (xp_name p) (parsePos p') a" and "v = Null \<or> in_buf (xp_name p) (parsePos p') v"
    and "xp_name p' = xp_name p" and "attribute p' = attribute p @ [(a, v)]" and "parsePos p \<le> parsePos p'"
  shows "live p'"
proof -
  have "list_all (held (xp_name p) (parsePos p')) (attribute p)"
    using assms(1,6) by (auto simp: live_def elim: list.pred_mono_strong intro: held_mono)
  with assms show ?thesis by (auto simp: live_def held_def)
qed

lemma goodI:
  "live p \<Longrightarrow> xp_name p = 0 \<or> xp_name p + 2 \<le> length (pbuf p) \<Longrightarrow> parseState p \<noteq> FindArgumentName \<Longrightarrow> good p"
  by (simp add: good_def)

lemma good_nameD: "good p \<Longrightarrow> xp_name p = 0 \<or> xp_name p + 2 \<le> length (pbuf p)"
  by (simp add: good_def)

abbreviation name_fits :: "xparser \<Rightarrow> bool" where
  "name_fits p \<equiv> xp_name p = 0 \<or> xp_name p + 2 \<le> length (pbuf p)"

lemma st_FindArgumentValue_good:
  assumes "live p" and "name_fits p" and "parsePos p \<le> inputEnd p" and "parseState p = FindArgumentValue \<or> parseState p = FindElementEnd"
  shows "good_out (st_FindArgumentValue p)"
proof -
  let ?q = "scan (\<lambda>c. c = CHR '' '' \<or> c = CHR ''>'') (pbuf p) (parsePos p) (inputEnd p)"
  have q: "parsePos p \<le> ?q" using scan_bounds [OF assms(3)] by blast
  have "live (p\<lparr>parsePos := ?q\<rparr>)" "live (p\<lparr>parsePos := ?q, parseState := FindElementEnd\<rparr>)"
    by (rule live_move [OF assms(1)]; use q in simp)+
  with assms(2,4) show ?thesis
    by (auto simp: st_FindArgumentValue_def Let_def drained_def intro!: goodI)
qed

lemma st_FindQuotedArgumentValue_good:
  assumes "live p" and "name_fits p" and "parsePos p \<le> inputEnd p" and "parseState p = FindQuotedArgumentValue"
  shows "good_out (st_FindQuotedArgumentValue p)"
proof -
  let ?q = "scan (\<lambda>c. c = quote p) (pbuf p) (parsePos p) (inputEnd p)"
  have q: "parsePos p \<le> ?q" "?q \<le> inputEnd p" using scan_bounds [OF assms(3)] by auto
  let ?p = "(put_nul ?q p)\<lparr>parsePos := ?q + 1, parseState := FindElementEnd\<rparr>"
  have l: "live (p\<lparr>parsePos := ?q\<rparr>)" "live ?p"
    by (rule live_move [OF assms(1)]; use q in \<open>simp add: put_nul_def\<close>)+
  have "good_out (st_FindArgumentValue ?p)" if "\<not> inputEnd p \<le> ?q + 1"
    by (rule st_FindArgumentValue_good [OF l(2)]) (use that assms(2) in \<open>simp_all add: put_nul_def\<close>)
  with l(1) assms(2,4) show ?thesis
    by (auto simp: st_FindQuotedArgumentValue_def Let_def drained_def intro!: goodI)
qed

lemma st_FindArgumentName_good:
  assumes "live p" and "name_fits p" and "parsePos p \<le> inputEnd p" and "parseState p = FindArgumentName"
    and "in_buf (xp_name p) (parsePos p) (argument p)"
  shows "good_out (st_FindArgumentName p)"
proof -
  define q where "q = scan (strchr ''= />'') (pbuf p) (parsePos p) (inputEnd p)"
  have q: "parsePos p \<le> q" "q \<le> inputEnd p" using scan_bounds [OF assms(3)] by (auto simp: q_def)
  have name: "xp_name p \<le> q" using assms(1) q by (simp add: live_def)
  have arg: "in_buf (xp_name p) n (argument p)" if "parsePos p \<le> n" for n by (rule in_buf_mono [OF assms(5) that])
  have stop: "good p'" if "parsePos p' = q" "xp_name p' = xp_name p" "attribute p' = attribute p"
      "parseState p' = FindArgumentName" "argument p' = argument p" "pbuf p' = pbuf p" for p'
    using live_move [OF assms(1), of p'] arg [OF q(1)] q assms(2) that by (simp add: good_def)
  have bare: "good p'" if "parsePos p' = q" "xp_name p' = xp_name p" "attribute p' = attribute p @ [(argument p, Null)]"
      "parseState p' = FindElementEnd" "pbuf p' = pbuf p" for p'
    by (rule goodI [OF live_push [OF assms(1) arg [OF q(1), folded that(1)] _ that(2,3)]])
      (use q assms(2) that in simp_all)
  have val: "live p' \<and> name_fits p'" if "parsePos p' = q + 2" "xp_name p' = xp_name p" "attribute p' = attribute p @ [(argument p, At n)]"
      "length (pbuf p') = length (pbuf p)" "q < n" "n \<le> q + 2" for p' n
  proof -
    have "parsePos p \<le> parsePos p'" using that(1) q(1) by simp
    then have "live p'"
      by (intro live_push [OF assms(1) _ _ that(2,3)] arg) (use name that in simp_all)
    then show ?thesis using assms(2) that by simp
  qed
  let ?v = "(push_attr (argument p) (At (q + 1)) (put_nul q (p\<lparr>parsePos := q, quote := pbuf p ! (q + 1)\<rparr>)))
      \<lparr>parsePos := q + 2, parseState := FindArgumentValue\<rparr>"
  let ?w = "(push_attr (argument p) (At (q + 2)) (put_nul q (p\<lparr>parsePos := q, quote := pbuf p ! (q + 1)\<rparr>)))
      \<lparr>parsePos := q + 2, parseState := FindQuotedArgumentValue\<rparr>"
  have v: "good ?v" using val [of ?v "q + 1"] by (intro goodI) (simp_all add: push_attr_def put_nul_def)
  have w: "good_out (st_FindQuotedArgumentValue ?w)" if "\<not> inputEnd p \<le> q + 2"
    using val [of ?w "q + 2"] that by (intro st_FindQuotedArgumentValue_good) (simp_all add: push_attr_def put_nul_def)
  define c where "c = pbuf p ! (q + 1)"
  consider (short) "q = inputEnd p \<or> pbuf p ! q = CHR ''='' \<and> inputEnd p \<le> q + 1"
    | (noquote) "q \<noteq> inputEnd p" "pbuf p ! q = CHR ''=''" "\<not> inputEnd p \<le> q + 1" "inputEnd p \<le> q + 2" "\<not> (c \<noteq> quot \<and> c \<noteq> apos)"
    | (flag) "q \<noteq> inputEnd p" "pbuf p ! q \<noteq> CHR ''=''"
    | (plain) "q \<noteq> inputEnd p" "pbuf p ! q = CHR ''=''" "\<not> inputEnd p \<le> q + 1" "c \<noteq> quot \<and> c \<noteq> apos"
    | (quoted) "q \<noteq> inputEnd p" "pbuf p ! q = CHR ''=''" "\<not> inputEnd p \<le> q + 2" "\<not> (c \<noteq> quot \<and> c \<noteq> apos)"
    by blast
  then show ?thesis
  proof cases
    case short
    have "st_FindArgumentName p = Ret False (p\<lparr>parsePos := q\<rparr>)"
      using short by (auto simp: st_FindArgumentName_def Let_def q_def)
    with assms(4) show ?thesis by (simp add: drained_def stop)
  next
    case noquote
    then have "st_FindArgumentName p = Ret False (p\<lparr>parsePos := q, quote := c\<rparr>)"
      by (auto simp: st_FindArgumentName_def Let_def q_def c_def)
    with assms(4) show ?thesis by (simp add: drained_def stop)
  next
    case flag
    then show ?thesis
      by (auto simp: st_FindArgumentName_def Let_def q_def [symmetric] push_attr_def intro!: bare)
  next
    case plain
    then have "st_FindArgumentName p = Again ?v"
      by (simp add: st_FindArgumentName_def Let_def q_def [symmetric] c_def)
    with v show ?thesis by simp
  next
    case quoted
    then have "st_FindArgumentName p = st_FindQuotedArgumentValue ?w"
      by (auto simp: st_FindArgumentName_def Let_def q_def [symmetric] c_def)
    with w quoted(3) show ?thesis by simp
  qed
qed

lemma clobber_blanks_attrs:
  "clobber_blanks p = (e, p') \<Longrightarrow> parsePos p \<le> parsePos p' \<and> xp_name p' = xp_name p \<and> attribute p' = attribute p \<and>
     parseState p' = parseState p \<and> starttls p' = starttls p \<and> length (pbuf p') = length (pbuf p) \<and> inputEnd p' = inputEnd p \<and>
     (parsePos p < inputEnd p \<longrightarrow> (if e then parsePos p' = inputEnd p else parsePos p' < inputEnd p))"
proof (induction p rule: clobber_blanks.induct)
  case (1 p)
  let ?p = "(put_nul (parsePos p) p)\<lparr>parsePos := parsePos p + 1\<rparr>"
  consider (stop) "\<not> (parsePos p < inputEnd p \<and> cur p = CHR '' '')"
    | (fin) "parsePos p < inputEnd p \<and> cur p = CHR '' ''" "parsePos ?p = inputEnd ?p"
    | (more) "parsePos p < inputEnd p \<and> cur p = CHR '' ''" "parsePos ?p \<noteq> inputEnd ?p" by blast
  then show ?case
  proof cases
    case more
    then have c: "clobber_blanks ?p = (e, p')" using 1(2) by (simp add: clobber_blanks.simps [of p] Let_def)
    have "parsePos ?p < inputEnd ?p" using more by (simp add: put_nul_def)
    with 1(1) [OF more(1) refl more(2) c] more(1) show ?thesis by (auto simp: put_nul_def split: if_splits)
  qed (use 1(2) in \<open>auto simp: clobber_blanks.simps [of p] Let_def put_nul_def\<close>)
qed

lemma st_FindElementEnd_good:
  assumes "live p" and "name_fits p" and "parsePos p < inputEnd p" and "parseState p = FindElementEnd"
  shows "good_out (st_FindElementEnd p)"
proof -
  obtain e p1 where c: "clobber_blanks p = (e, p1)" by force
  note B = clobber_blanks_attrs [OF c]
  have l: "live p1" using live_move [OF assms(1)] B by blast
  have n: "name_fits p1" using assms(2) B by simp
  have end': "good p' \<and> live p'" if "parsePos p1 \<le> parsePos p'" "xp_name p' = xp_name p1" "attribute p' = attribute p1"
      "parseState p' \<noteq> FindArgumentName" "length (pbuf p') = length (pbuf p1)" for p'
    using live_move [OF l that(2,3,1)] n that by (simp add: good_def)
  let ?p = "p1\<lparr>argument := At (parsePos p1), parseState := FindArgumentName\<rparr>"
  have "live ?p" by (rule live_move [OF l]) simp_all
  moreover have "xp_name p1 \<le> parsePos p1" using l by (simp add: live_def)
  ultimately have "good_out (st_FindArgumentName ?p)" if "\<not> e"
    by (intro st_FindArgumentName_good) (use n B assms(3) that in simp_all)
  then show ?thesis
    unfolding st_FindElementEnd_def c Let_def
    using B assms(3,4) by (auto simp: drained_def put_nul_def end' split: bool.split)
qed

lemma st_FindElementStart_good:
  assumes "good p" and "parsePos p < inputEnd p" and "inputEnd p \<le> length (pbuf p)" and "parseState p = FindElementStart"
  shows "good_out (st_FindElementStart p)"
proof -
  let ?q = "scan (\<lambda>c. c = CHR ''<'') (pbuf p) (parsePos p) (inputEnd p)"
  let ?p = "p\<lparr>parsePos := ?q + 1, xp_name := ?q + 1, attribute := [], starttls := False, parseState := FindElementEnd\<rparr>"
  have "good_out (st_FindElementEnd ?p)" if "\<not> inputEnd p \<le> ?q + 2"
    by (rule st_FindElementEnd_good) (use that assms(3) in \<open>simp_all add: live_def\<close>)
  then show ?thesis
    using assms(1,3,4) by (auto simp: st_FindElementStart_def Let_def good_def drained_def)
qed

lemma parse_step_good:
  assumes "good p" and "parsePos p < inputEnd p" and "inputEnd p \<le> length (pbuf p)"
  shows "good_out (parse_step p)"
proof -
  have le: "parsePos p \<le> inputEnd p" using assms(2) by simp
  note G = assms(1) [unfolded good_def]
  show ?thesis
  proof (cases "parseState p")
    case FindElementStart
    with st_FindElementStart_good [OF assms] show ?thesis by (simp add: parse_step_def)
  next
    case FindElementEnd
    with G assms(2) show ?thesis by (simp add: parse_step_def st_FindElementEnd_good)
  next
    case FindArgumentName
    with G le show ?thesis by (simp add: parse_step_def st_FindArgumentName_good)
  next
    case FindQuotedArgumentValue
    with G le show ?thesis by (simp add: parse_step_def st_FindQuotedArgumentValue_good)
  next
    case FindArgumentValue
    with G le show ?thesis by (simp add: parse_step_def st_FindArgumentValue_good)
  next
    case FindNameEnd
    let ?q = "scan (strchr '' />'') (pbuf p) (parsePos p) (inputEnd p)"
    have "live p'" if "xp_name p' = xp_name p" "attribute p' = attribute p" "parsePos p' = ?q" for p'
      using live_move [of p p'] G FindNameEnd scan_bounds [OF le] that by auto
    with G FindNameEnd show ?thesis by (auto simp: parse_step_def st_FindNameEnd_def Let_def drained_def intro!: goodI)
  next
    case FindTLSEnd
    have l: "live p'" if "xp_name p' = xp_name p" "attribute p' = attribute p" "parsePos p \<le> parsePos p'" for p'
      using live_move [of p p'] G FindTLSEnd that by simp
    with G FindTLSEnd show ?thesis
      by (auto simp: parse_step_def st_FindTLSEnd_def Let_def drained_def good_def intro!: l)
  qed
qed

lemma XmlParser_next_good:
  "XmlParser_next p = (b, p') \<Longrightarrow> good p \<Longrightarrow> inputEnd p \<le> length (pbuf p) \<Longrightarrow> good p' \<and> (if b then live p' else drained p')"
proof (induction p rule: XmlParser_next.induct)
  case (1 p)
  show ?case
  proof (cases "parsePos p < inputEnd p")
    case True
    with 1(4) have run: "parsePos p < inputEnd p \<and> inputEnd p \<le> length (pbuf p)" by simp
    note g = parse_step_good [OF 1(3) True 1(4)] and ok = parse_step_ok [OF True 1(4)]
    show ?thesis
    proof (cases "parse_step p")
      case (Again p1)
      with 1(2) run have "XmlParser_next p1 = (b, p')" by (simp add: XmlParser_next.simps [of p])
      moreover have "inputEnd p1 \<le> length (pbuf p1)" using ok Again 1(4) by (simp add: step_ok_def advanced_def)
      ultimately show ?thesis using 1(1) [OF run Again] g Again by simp
    next
      case (Ret b1 p1)
      with 1(2) run g show ?thesis by (simp add: XmlParser_next.simps [of p])
    qed
  next
    case False
    with 1(2) have "p' = p\<lparr>xp_fault := xp_fault p\<rparr>" "\<not> b" by (auto simp: XmlParser_next.simps [of p])
    with 1(3) False show ?thesis by (simp add: drained_def)
  qed
qed

section \<open>Nothing behind the data\<close>

text \<open>
  The parser neither looks at nor changes the buffer behind the data: with anything else in its place, even with no memory there,
  the calls do the same.
\<close>

definition with_tail :: "string \<Rightarrow> xparser \<Rightarrow> xparser" where
  "with_tail t p = p\<lparr>pbuf := take (inputEnd p) (pbuf p) @ t\<rparr>"

fun out_tail :: "string \<Rightarrow> outcome \<Rightarrow> outcome" where
  "out_tail t (Again p) = Again (with_tail t p)"
| "out_tail t (Ret b p) = Ret b (with_tail t p)"

lemma with_tail_fields [simp]:
  "parsePos (with_tail t p) = parsePos p" "inputEnd (with_tail t p) = inputEnd p" "xp_name (with_tail t p) = xp_name p"
  "attribute (with_tail t p) = attribute p" "argument (with_tail t p) = argument p" "parseState (with_tail t p) = parseState p"
  "starttls (with_tail t p) = starttls p" "quote (with_tail t p) = quote p"
  "length (pbuf (with_tail t p)) = min (length (pbuf p)) (inputEnd p) + length t"
  by (simp_all add: with_tail_def)

lemma with_tail_upd:
  "(with_tail t p)\<lparr>parsePos := n\<rparr> = with_tail t (p\<lparr>parsePos := n\<rparr>)"
  "(with_tail t p)\<lparr>parseState := s\<rparr> = with_tail t (p\<lparr>parseState := s\<rparr>)"
  "(with_tail t p)\<lparr>quote := c\<rparr> = with_tail t (p\<lparr>quote := c\<rparr>)"
  "(with_tail t p)\<lparr>starttls := b\<rparr> = with_tail t (p\<lparr>starttls := b\<rparr>)"
  "(with_tail t p)\<lparr>argument := a\<rparr> = with_tail t (p\<lparr>argument := a\<rparr>)"
  "(with_tail t p)\<lparr>attribute := as\<rparr> = with_tail t (p\<lparr>attribute := as\<rparr>)"
  "(with_tail t p)\<lparr>xp_name := n\<rparr> = with_tail t (p\<lparr>xp_name := n\<rparr>)"
  "push_attr a v (with_tail t p) = with_tail t (push_attr a v p)"
  by (simp_all add: with_tail_def push_attr_def)

lemma put_nul_tail:
  "i < inputEnd p \<Longrightarrow> inputEnd p \<le> length (pbuf p) \<Longrightarrow> put_nul i (with_tail t p) = with_tail t (put_nul i p)"
  by (simp add: with_tail_def put_nul_def list_update_append1 take_update_swap)

lemma nth_tail: "i < inputEnd p \<Longrightarrow> inputEnd p \<le> length (pbuf p) \<Longrightarrow> pbuf (with_tail t p) ! i = pbuf p ! i"
  by (simp add: with_tail_def nth_append)

lemma scan_tail:
  "m \<le> e \<Longrightarrow> e \<le> inputEnd p \<Longrightarrow> inputEnd p \<le> length (pbuf p) \<Longrightarrow> scan P (pbuf (with_tail t p)) m e = scan P (pbuf p) m e"
  by (simp add: scan_def with_tail_def take_drop min_def)

lemma put_fields:
  "inputEnd (put_nul i p) = inputEnd p" "length (pbuf (put_nul i p)) = length (pbuf p)" "inputEnd (push_attr a v p) = inputEnd p"
  "pbuf (push_attr a v p) = pbuf p" "xp_name (put_nul i p) = xp_name p" "xp_name (push_attr a v p) = xp_name p"
  by (simp_all add: put_nul_def push_attr_def)

lemmas tail_rules = with_tail_upd put_nul_tail nth_tail scan_tail put_fields

lemma take_takeWhile: "take n (takeWhile P xs) = takeWhile P (take n xs)"
proof (induction xs arbitrary: n)
  case (Cons x xs)
  then show ?case by (cases n) auto
qed simp

lemma cstr_tail:
  assumes "n \<le> q" and "q < inputEnd p" and "inputEnd p \<le> length (pbuf p)" and "strchr ''= />'' (pbuf p ! q)"
  shows "strncmp_eq (cstr (pbuf (with_tail t p)) n) ''starttls'' 8 = strncmp_eq (cstr (pbuf p) n) ''starttls'' 8"
proof (cases "n + 8 \<le> inputEnd p")
  case True
  then have "take 8 (drop n (pbuf (with_tail t p))) = take 8 (drop n (pbuf p))"
    using assms(3) by (simp add: with_tail_def take_drop)
  then show ?thesis by (simp add: strncmp_eq_def cstr_def take_takeWhile)
next
  case False
  have no: "\<not> strncmp_eq (cstr b n) ''starttls'' 8" if "b ! q = pbuf p ! q" "q < length b" for b
  proof
    assume "strncmp_eq (cstr b n) ''starttls'' 8"
    then have t: "take 8 (cstr b n) = ''starttls''" by (simp add: strncmp_eq_def)
    let ?i = "q - n"
    have i: "?i < 8" using False assms(1,2) by simp
    from t have "length (take 8 (cstr b n)) = 8" by simp
    then have l: "?i < length (cstr b n)" using i by simp
    then have "cstr b n ! ?i = drop n b ! ?i" by (simp add: cstr_def takeWhile_nth)
    also have "\<dots> = pbuf p ! q" using that assms(1) by simp
    finally have "''starttls'' ! ?i = pbuf p ! q" using t i by (metis nth_take)
    moreover have "''starttls'' ! ?i \<in> set ''starttls''" using i by (intro nth_mem) simp
    ultimately show False using assms(4) by (auto simp: strchr_def nul_def)
  qed
  show ?thesis using no [of "pbuf p"] no [of "pbuf (with_tail t p)"] assms(2,3) by (simp add: nth_tail)
qed

lemma scan_hit: "scan P b m e < e \<Longrightarrow> e \<le> length b \<Longrightarrow> P (b ! scan P b m e)"
proof -
  assume "scan P b m e < e" "e \<le> length b"
  then have "length (takeWhile (\<lambda>c. \<not> P c) (take (e - m) (drop m b))) < length (take (e - m) (drop m b))"
    by (simp add: scan_def)
  from nth_length_takeWhile [OF this] show ?thesis using \<open>scan P b m e < e\<close> \<open>e \<le> length b\<close> by (simp add: scan_def)
qed

lemma st_FindArgumentValue_tail:
  "parsePos p \<le> inputEnd p \<Longrightarrow> inputEnd p \<le> length (pbuf p) \<Longrightarrow>
   st_FindArgumentValue (with_tail t p) = out_tail t (st_FindArgumentValue p)"
  by (simp add: st_FindArgumentValue_def Let_def tail_rules)

lemma st_FindQuotedArgumentValue_tail:
  assumes "parsePos p \<le> inputEnd p" and "inputEnd p \<le> length (pbuf p)"
  shows "st_FindQuotedArgumentValue (with_tail t p) = out_tail t (st_FindQuotedArgumentValue p)"
  using assms st_FindArgumentValue_tail
  by (simp add: st_FindQuotedArgumentValue_def Let_def tail_rules)

lemma st_FindArgumentName_tail:
  assumes "parsePos p \<le> inputEnd p" and "inputEnd p \<le> length (pbuf p)" and "xp_name p \<le> parsePos p"
  shows "st_FindArgumentName (with_tail t p) = out_tail t (st_FindArgumentName p)"
proof -
  define q where "q = scan (strchr ''= />'') (pbuf p) (parsePos p) (inputEnd p)"
  have q: "parsePos p \<le> q" "q \<le> inputEnd p" using scan_bounds [OF assms(1)] by (auto simp: q_def)
  have c: "strncmp_eq (cstr (pbuf (with_tail t p)) (xp_name p)) ''starttls'' 8 = strncmp_eq (cstr (pbuf p) (xp_name p)) ''starttls'' 8"
    if "q < inputEnd p"
    using cstr_tail [of "xp_name p" q p t] scan_hit [of "strchr ''= />''" "pbuf p" "parsePos p" "inputEnd p"] q assms that
    by (simp add: q_def)
  show ?thesis
    using q assms c
    by (simp add: st_FindArgumentName_def Let_def tail_rules q_def [symmetric] st_FindQuotedArgumentValue_tail)
qed

lemma clobber_blanks_tail:
  "inputEnd p \<le> length (pbuf p) \<Longrightarrow> clobber_blanks (with_tail t p) = map_prod id (with_tail t) (clobber_blanks p)"
proof (induction p rule: clobber_blanks.induct)
  case (1 p)
  let ?p = "(put_nul (parsePos p) p)\<lparr>parsePos := parsePos p + 1\<rparr>"
  show ?case
  proof (cases "parsePos p < inputEnd p \<and> cur p = CHR '' ''")
    case c: True
    show ?thesis
    proof (cases "parsePos ?p = inputEnd ?p")
      case False
      have "clobber_blanks (with_tail t ?p) = map_prod id (with_tail t) (clobber_blanks ?p)"
        by (rule 1(1) [OF c refl False]) (use 1(2) in \<open>simp add: put_fields\<close>)
      with c False 1(2) show ?thesis by (simp add: clobber_blanks.simps [of p] clobber_blanks.simps [of "with_tail t p"] Let_def tail_rules id_def)
    qed (use c 1(2) in \<open>simp add: clobber_blanks.simps [of p] clobber_blanks.simps [of "with_tail t p"] Let_def tail_rules\<close>)
  qed (use 1(2) in \<open>auto simp: clobber_blanks.simps [of p] clobber_blanks.simps [of "with_tail t p"] Let_def tail_rules\<close>)
qed

lemma st_FindElementEnd_tail:
  assumes "parsePos p < inputEnd p" and "inputEnd p \<le> length (pbuf p)" and "xp_name p \<le> parsePos p"
  shows "st_FindElementEnd (with_tail t p) = out_tail t (st_FindElementEnd p)"
proof -
  obtain e p1 where c: "clobber_blanks p = (e, p1)" by force
  have a: "inputEnd p1 = inputEnd p" "length (pbuf p1) = length (pbuf p)" "xp_name p1 = xp_name p" "parsePos p \<le> parsePos p1"
    "\<not> e \<longrightarrow> parsePos p1 < inputEnd p"
    using clobber_blanks_adv [OF assms(1) c] by (simp_all add: advanced_def)
  let ?q = "p1\<lparr>argument := At (parsePos p1), parseState := FindArgumentName\<rparr>"
  have n: "pbuf (with_tail t p1) ! parsePos p1 = cur p1" if "\<not> e" by (rule nth_tail) (use a assms that in simp_all)
  have m: "st_FindArgumentName (with_tail t ?q) = out_tail t (st_FindArgumentName ?q)" if "\<not> e"
    by (rule st_FindArgumentName_tail) (use a assms that in simp_all)
  have t: "clobber_blanks (with_tail t p) = (e, with_tail t p1)" using clobber_blanks_tail [OF assms(2)] c by simp
  show ?thesis
    unfolding st_FindElementEnd_def c t Let_def
    using a assms n m by (simp add: tail_rules split: bool.split)
qed

lemma st_FindElementStart_tail:
  assumes "parsePos p < inputEnd p" and "inputEnd p \<le> length (pbuf p)"
  shows "st_FindElementStart (with_tail t p) = out_tail t (st_FindElementStart p)"
  using assms by (simp add: st_FindElementStart_def Let_def tail_rules st_FindElementEnd_tail)

lemma st_FindNameEnd_tail:
  assumes "parsePos p < inputEnd p" and "inputEnd p \<le> length (pbuf p)" and "xp_name p \<le> parsePos p"
  shows "st_FindNameEnd (with_tail t p) = out_tail t (st_FindNameEnd p)"
proof -
  define q where "q = scan (strchr '' />'') (pbuf p) (parsePos p) (inputEnd p)"
  have q: "q \<le> inputEnd p" "xp_name p \<le> q" using scan_bounds [of "parsePos p" "inputEnd p"] assms by (auto simp: q_def intro: order.trans)
  have "take (q - xp_name p) (drop (xp_name p) (pbuf (with_tail t p))) = take (q - xp_name p) (drop (xp_name p) (pbuf p))"
    using q assms(2) by (simp add: with_tail_def take_drop min_def)
  then have "strncmp_eq ''starttls'' (cstr (pbuf (with_tail t p)) (xp_name p)) (q - xp_name p) =
      strncmp_eq ''starttls'' (cstr (pbuf p) (xp_name p)) (q - xp_name p)"
    by (simp add: strncmp_eq_def cstr_def take_takeWhile)
  then show ?thesis
    using assms by (simp add: st_FindNameEnd_def Let_def tail_rules q_def [symmetric])
qed

lemma st_FindTLSEnd_tail:
  "parsePos p < inputEnd p \<Longrightarrow> inputEnd p \<le> length (pbuf p) \<Longrightarrow> st_FindTLSEnd (with_tail t p) = out_tail t (st_FindTLSEnd p)"
  by (simp add: st_FindTLSEnd_def Let_def tail_rules)

lemma parse_step_tail:
  assumes "parsePos p < inputEnd p" and "inputEnd p \<le> length (pbuf p)"
    and "parseState p \<noteq> FindElementStart \<Longrightarrow> xp_name p \<le> parsePos p"
  shows "parse_step (with_tail t p) = out_tail t (parse_step p)"
  using assms
  by (cases "parseState p")
    (simp_all add: parse_step_def st_FindElementStart_tail st_FindElementEnd_tail st_FindArgumentName_tail
      st_FindQuotedArgumentValue_tail st_FindArgumentValue_tail st_FindNameEnd_tail st_FindTLSEnd_tail)

lemma XmlParser_next_tail:
  "XmlParser_next p = (b, p') \<Longrightarrow> good p \<Longrightarrow> inputEnd p \<le> length (pbuf p) \<Longrightarrow> XmlParser_next (with_tail t p) = (b, with_tail t p')"
proof (induction p rule: XmlParser_next.induct)
  case (1 p)
  show ?case
  proof (cases "parsePos p < inputEnd p")
    case True
    with 1(4) have run: "parsePos p < inputEnd p \<and> inputEnd p \<le> length (pbuf p)" by simp
    have tail: "parse_step (with_tail t p) = out_tail t (parse_step p)"
      by (rule parse_step_tail [OF True 1(4)]) (use 1(3) in \<open>simp add: good_def live_def\<close>)
    have run': "parsePos (with_tail t p) < inputEnd (with_tail t p) \<and> inputEnd (with_tail t p) \<le> length (pbuf (with_tail t p))"
      using run by simp
    note step = XmlParser_next.simps [of "with_tail t p", unfolded if_P [OF run'] tail]
    note g = parse_step_good [OF 1(3) True 1(4)] and ok = parse_step_ok [OF True 1(4)]
    show ?thesis
    proof (cases "parse_step p")
      case (Again p1)
      with 1(2) run have "XmlParser_next p1 = (b, p')" by (simp add: XmlParser_next.simps [of p])
      moreover have "inputEnd p1 \<le> length (pbuf p1)" using ok Again 1(4) by (simp add: step_ok_def advanced_def)
      ultimately show ?thesis using 1(1) [OF run Again] g Again step by simp
    next
      case (Ret b1 p1)
      with 1(2) run step show ?thesis by (simp add: XmlParser_next.simps [of p])
    qed
  next
    case False
    then have "XmlParser_next (with_tail t p) = (False, with_tail t p)"
      by (simp add: XmlParser_next.simps [of "with_tail t p"])
    with 1(2) False show ?thesis by (simp add: XmlParser_next.simps [of p])
  qed
qed

section \<open>The number of steps\<close>

text \<open>The loop with a bound on its rounds; \<open>None\<close>: they were not enough.\<close>

fun parse_rounds :: "nat \<Rightarrow> xparser \<Rightarrow> (bool \<times> xparser) option" where
  "parse_rounds n p =
     (if parsePos p < inputEnd p \<and> inputEnd p \<le> length (pbuf p) then
        (case n of 0 \<Rightarrow> None
         | Suc k \<Rightarrow> (case parse_step p of Ret b p' \<Rightarrow> Some (b, p') | Again p' \<Rightarrow> parse_rounds k p'))
      else Some (False, p\<lparr>xp_fault := xp_fault p \<or> parsePos p < inputEnd p\<rparr>))"

declare parse_rounds.simps [simp del]

lemma parse_rounds_enough: "parse_measure p < n \<Longrightarrow> parse_rounds n p = Some (XmlParser_next p)"
proof (induction n arbitrary: p)
  case (Suc n)
  show ?case
  proof (cases "parsePos p < inputEnd p \<and> inputEnd p \<le> length (pbuf p)")
    case True
    with parse_step_ok [of p] have ok: "step_ok p (parse_step p)" by simp
    show ?thesis
    proof (cases "parse_step p")
      case (Again p1)
      with ok Suc have "parse_rounds n p1 = Some (XmlParser_next p1)" by (simp add: step_ok_def)
      with True Again show ?thesis by (simp add: parse_rounds.simps [of "Suc n"] XmlParser_next.simps [of p])
    qed (use True in \<open>simp add: parse_rounds.simps [of "Suc n"] XmlParser_next.simps [of p]\<close>)
  qed (auto simp: parse_rounds.simps [of "Suc n"] XmlParser_next.simps [of p])
qed simp

section \<open>Use of the parser\<close>

text \<open>
  \<open>Session::run\<close> alternates \<open>read\<close> with calls of the parser until it answers \<open>false\<close>, and gives up when \<open>read\<close> has rejected the
  input. The flag of \<open>parser_run\<close> says that the last answer was \<open>false\<close>, or that there was none yet.
\<close>

definition rejected :: "xparser \<Rightarrow> bool" where
  "rejected p \<longleftrightarrow> xp_invalid p \<and> pbuf p \<noteq> []"

inductive parser_run :: "nat \<Rightarrow> bool \<Rightarrow> xparser \<Rightarrow> bool" for bufMax where
  created: "parser_run bufMax True (XmlParser_new bufMax)"
| read: "parser_run bufMax True p \<Longrightarrow> \<not> rejected p \<Longrightarrow> parser_run bufMax False (snd (XmlParser_read inp p))"
| element: "parser_run bufMax d p \<Longrightarrow> XmlParser_next p = (True, p') \<Longrightarrow> parser_run bufMax False p'"
| finished: "parser_run bufMax d p \<Longrightarrow> XmlParser_next p = (False, p') \<Longrightarrow> parser_run bufMax True p'"

definition parser_inv :: "nat \<Rightarrow> xparser \<Rightarrow> bool" where
  "parser_inv bufMax p \<longleftrightarrow> \<not> xp_fault p \<and> inputEnd p \<le> length (pbuf p) \<and> bufLenMax p = bufMax \<and>
     length (pbuf p) < bufMax + bufIncrement \<and> good p \<and>
     (if xp_invalid p then inputEnd p = 0 \<and> (pbuf p = [] \<longrightarrow> parsePos p = 0 \<and> xp_name p = 0)
      else parsePos p \<le> inputEnd p)"

lemma in_buf_shift: "in_buf d n v \<Longrightarrow> in_buf 0 (n - d) (shift_val d v)"
  by (auto simp: in_buf_def shift_val_def split: aval.splits)

lemma held_shift: "held d n (a, v) \<Longrightarrow> held 0 (n - d) (shift_val d a, shift_val d v)"
  by (auto simp: held_def intro: in_buf_shift) (auto simp: shift_val_def)

lemma live_moveData: "live p \<Longrightarrow> live (moveData old p)"
  by (auto simp: live_def moveData_def Let_def list.pred_map comp_def elim!: list.pred_mono_strong intro: held_shift)

lemma moveData_inv:
  assumes "parser_inv m p" and "drained p" and "length (pbuf p) = inputEnd p" and "\<not> rejected p"
    and "length (pbuf p) \<le> length old" and "length old < m + bufIncrement"
  shows "parser_inv m (moveData old p) \<and> \<not> xp_invalid (moveData old p)"
proof -
  from assms(1) have i: "\<not> xp_fault p" "bufLenMax p = m" "good p" by (simp_all add: parser_inv_def)
  have pos: "parsePos p \<le> inputEnd p" and nm: "pbuf p = [] \<Longrightarrow> xp_name p = 0"
    using assms(1,3,4) i(3) by (auto simp: parser_inv_def rejected_def good_def split: if_splits)
  have d: "xp_name p \<le> parsePos p"
  proof (cases "parseState p = FindElementStart")
    case True
    with assms(2,3) good_nameD [OF i(3)] show ?thesis by (auto simp: drained_def)
  next
    case False
    with i(3) show ?thesis by (simp add: good_def live_def)
  qed
  have e: "inputEnd p \<le> length old" using assms(3,5) by simp
  have len: "length (pbuf (moveData old p)) = length old"
    using d pos assms(3,5) by (simp add: moveData_def slice_def Let_def)
  have g: "good (moveData old p)"
    using i(3) live_moveData [of p old] unfolding good_def
    by (simp add: moveData_def Let_def in_buf_shift)
  have m: "xp_fault (moveData old p) = (xp_fault p \<or> parsePos p < xp_name p \<or> inputEnd p < xp_name p)"
    "inputEnd (moveData old p) = inputEnd p - xp_name p" "parsePos (moveData old p) = parsePos p - xp_name p"
    "bufLenMax (moveData old p) = bufLenMax p" "\<not> xp_invalid (moveData old p)"
    by (simp_all add: moveData_def Let_def)
  show ?thesis
    unfolding parser_inv_def len m using i(1,2) d pos e g assms(6) m(5) by (simp add: diff_le_mono)
qed

lemma read_prepare_inv:
  assumes "parser_inv m p" and "drained p" and "\<not> rejected p" and "read_prepare p = (c, p')"
  shows "parser_inv m p' \<and> c = (\<not> xp_invalid p')"
proof -
  have x: "length (pbuf p) \<noteq> inputEnd p \<Longrightarrow> \<not> xp_invalid p"
    using assms(1,3) by (auto simp: parser_inv_def rejected_def split: if_splits)
  have mv: "parser_inv m (moveData old p) \<and> \<not> xp_invalid (moveData old p)"
    if "length (pbuf p) = inputEnd p" "length (pbuf p) \<le> length old" "length old < m + bufIncrement" for old
    by (rule moveData_inv [OF assms(1,2) that(1) assms(3) that(2,3)])
  have "bufLenMax p = m" "length (pbuf p) < m + bufIncrement" using assms(1) by (simp_all add: parser_inv_def)
  note b = this
  consider (move) "length (pbuf p) = inputEnd p" "1 < xp_name p"
    | (reject) "length (pbuf p) = inputEnd p" "\<not> 1 < xp_name p" "bufLenMax p \<le> length (pbuf p)"
    | (grow) "length (pbuf p) = inputEnd p" "\<not> 1 < xp_name p" "\<not> bufLenMax p \<le> length (pbuf p)"
    | (reset) "length (pbuf p) \<noteq> inputEnd p" "parseState p = FindElementStart \<and> \<not> xp_invalid p \<and> parsePos p = inputEnd p"
    | (rest) "length (pbuf p) \<noteq> inputEnd p" "\<not> (parseState p = FindElementStart \<and> \<not> xp_invalid p \<and> parsePos p = inputEnd p)"
    by blast
  then show ?thesis
  proof cases
    case move
    with assms(4) have "c" "p' = moveData (pbuf p) p" by (simp_all add: read_prepare_def)
    with mv [OF move(1), of "pbuf p"] b show ?thesis by simp
  next
    case reject
    with assms(4) have c: "\<not> c" "p' = p\<lparr>inputEnd := 0, xp_invalid := True\<rparr>" by (simp_all add: read_prepare_def)
    have "pbuf p = [] \<longrightarrow> parsePos p = 0 \<and> xp_name p = 0"
      using assms(1) by (auto simp: parser_inv_def good_def split: if_splits)
    with assms(1) c show ?thesis by (simp add: parser_inv_def good_def live_def)
  next
    case grow
    with assms(4) have "c" "p' = moveData (replicate (length (pbuf p) + bufIncrement) nul) p"
      by (simp_all add: read_prepare_def)
    with mv [OF grow(1), of "replicate (length (pbuf p) + bufIncrement) nul"] b grow(3) show ?thesis by simp
  next
    case reset
    with assms(4) have "c" "p' = p\<lparr>inputEnd := 0, parsePos := 0\<rparr>" by (simp_all add: read_prepare_def)
    with assms(1) reset(2) show ?thesis by (simp add: parser_inv_def good_def)
  next
    case rest
    with assms(4) have "c" "p' = p" by (simp_all add: read_prepare_def)
    with assms(1) x [OF rest(1)] show ?thesis by simp
  qed
qed

lemma XmlParser_read_inv:
  assumes "parser_inv m p" and "drained p" and "\<not> rejected p"
  shows "parser_inv m (snd (XmlParser_read inp p)) \<and> fst (XmlParser_read inp p) \<le> length inp"
proof -
  obtain c p1 where r: "read_prepare p = (c, p1)" by force
  from read_prepare_inv [OF assms r] have i: "parser_inv m p1" "c = (\<not> xp_invalid p1)" by auto
  show ?thesis
  proof (cases c)
    case True
    let ?s = "take (length (pbuf p1) - inputEnd p1) inp"
    let ?p = "p1\<lparr>pbuf := take (inputEnd p1) (pbuf p1) @ ?s @ drop (inputEnd p1 + length ?s) (pbuf p1),
                inputEnd := inputEnd p1 + length ?s, xp_fault := xp_fault p1 \<or> xp_invalid p1\<rparr>"
    have l: "length (pbuf ?p) = length (pbuf p1)" using i(1) by (simp add: parser_inv_def min_def)
    have "parser_inv m ?p"
      using i True l unfolding parser_inv_def good_def live_def by (simp only: xparser.simps) auto
    with True r show ?thesis by (simp add: XmlParser_read_def Let_def)
  next
    case False
    with i r show ?thesis by (simp add: XmlParser_read_def)
  qed
qed

lemma XmlParser_next_inv:
  assumes "parser_inv m p" and "XmlParser_next p = (b, p')"
  shows "parser_inv m p' \<and> (if b then live p' else drained p') \<and> rejected p' = rejected p"
proof (cases "parsePos p < inputEnd p")
  case True
  from assms(1) have i: "inputEnd p \<le> length (pbuf p)" "good p" by (simp_all add: parser_inv_def)
  have "advanced p p'" using XmlParser_next_advanced [of p] i assms(2) by simp
  with XmlParser_next_good [OF assms(2) i(2,1)] assms(1) True show ?thesis
    by (auto simp: parser_inv_def advanced_def rejected_def split: if_splits)
next
  case False
  with assms show ?thesis
    by (auto simp: XmlParser_next.simps [of p] drained_def)
qed

lemma parser_run_inv: "parser_run m d p \<Longrightarrow> parser_inv m p \<and> (d \<longrightarrow> drained p)"
proof (induction rule: parser_run.induct)
  case created
  show ?case by (simp add: parser_inv_def XmlParser_new_def good_def drained_def bufIncrement_def)
qed (use XmlParser_read_inv XmlParser_next_inv in \<open>fastforce+\<close>)



section \<open>Access to the attributes\<close>

definition XmlParser_tag :: "xparser \<Rightarrow> string" where
  "XmlParser_tag p = cstr (pbuf p) (xp_name p)"

definition tolower :: "char \<Rightarrow> char" where
  "tolower c = (let n = (of_char c :: nat) in if 65 \<le> n \<and> n \<le> 90 then char_of (n + 32) else c)"

definition strcasecmp_eq :: "string \<Rightarrow> string \<Rightarrow> bool" where
  "strcasecmp_eq s t \<longleftrightarrow> map tolower s = map tolower t"

text \<open>\<open>find\<close>: the value of the first attribute with the name, compared without case; \<open>Some Wild\<close> also when a name can not be read.\<close>

fun find_attr :: "char list \<Rightarrow> string \<Rightarrow> (aval \<times> aval) list \<Rightarrow> aval option" where
  "find_attr b n [] = None"
| "find_attr b n ((a, v) # as) =
     (case a of
        At k \<Rightarrow> if strcasecmp_eq n (cstr b k) then Some (if v = Outside then Wild else v) else find_attr b n as
      | _ \<Rightarrow> Some Wild)"

definition XmlParser_find :: "string \<Rightarrow> xparser \<Rightarrow> aval option" where
  "XmlParser_find n p = find_attr (pbuf p) n (attribute p)"

text \<open>The readers return \<open>None\<close> for the pointer that \<open>moveData\<close> has made of a null pointer.\<close>

definition XmlParser_isEqual :: "string \<Rightarrow> string \<Rightarrow> xparser \<Rightarrow> bool option" where
  "XmlParser_isEqual n s p =
     (case XmlParser_find n p of
        Some (At o') \<Rightarrow> Some (strcasecmp_eq (cstr (pbuf p) o') s)
      | Some Wild \<Rightarrow> None
      | _ \<Rightarrow> Some False)"

definition XmlParser_isTrue :: "string \<Rightarrow> xparser \<Rightarrow> bool option" where
  "XmlParser_isTrue n p =
     (case XmlParser_find n p of
        None \<Rightarrow> Some False
      | Some Null \<Rightarrow> Some True
      | Some Wild \<Rightarrow> None
      | Some (At o') \<Rightarrow>
          let v = cstr (pbuf p) o' in
          Some (if length v = 1 then v = ''1''
                else if length v = 4 then strcasecmp_eq v ''true''
                else if length v = 2 then strcasecmp_eq v ''on''
                else False))"

text \<open>The loop of \<open>getString\<close>: text up to an ampersand, then an entity or the ampersand itself.\<close>

definition unentity :: "string \<Rightarrow> char \<times> nat" where
  "unentity s =
     (if take 4 s = ''&gt;'' then (CHR ''>'', 4)
      else if take 4 s = ''&lt;'' then (CHR ''<'', 4)
      else if take 5 s = ''&amp;'' then (amp, 5)
      else if take 6 s = ''&quot;'' then (quot, 6)
      else if take 6 s = ''&apos;'' then (apos, 6)
      else (amp, 1))"

lemma unentity_pos: "0 < snd (unentity s)"
  by (simp add: unentity_def)

function unescape :: "string \<Rightarrow> string" where
  "unescape s =
     (let chunk = takeWhile (\<lambda>c. c \<noteq> amp) s; rest = dropWhile (\<lambda>c. c \<noteq> amp) s in
      if rest = [] then chunk
      else chunk @ fst (unentity rest) # unescape (drop (snd (unentity rest)) rest))"
  by pat_completeness auto
termination
proof (relation "measure length")
  fix s chunk rest :: string
  assume "rest = dropWhile (\<lambda>c. c \<noteq> amp) s" "rest \<noteq> []"
  then have "0 < length rest" "length rest \<le> length s" by (auto simp: length_dropWhile_le)
  with unentity_pos [of rest] have "length rest - snd (unentity rest) < length s" by linarith
  then show "(drop (snd (unentity rest)) rest, s) \<in> measure length" by simp
qed simp

declare unescape.simps [simp del]

definition XmlParser_getString :: "string \<Rightarrow> xparser \<Rightarrow> (bool \<times> string) option" where
  "XmlParser_getString n p =
     (case XmlParser_find n p of
        Some (At o') \<Rightarrow> Some (True, unescape (cstr (pbuf p) o'))
      | Some Wild \<Rightarrow> None
      | _ \<Rightarrow> Some (False, []))"

lemma unescape_plain: "c \<noteq> amp \<Longrightarrow> unescape (c # s) = c # unescape s"
  by (auto simp: unescape.simps [of "c # s"] unescape.simps [of s] Let_def)

lemma unescape_entity:
  assumes "c \<in> set escape_chars"
  shows "unescape (entity c @ s) = c # unescape s"
proof -
  from assms have "\<exists>e. entity c = amp # e" by (auto simp: escape_chars_def entity_def amp_def quot_def apos_def)
  then have h: "takeWhile (\<lambda>c. c \<noteq> amp) (entity c @ s) = []" "dropWhile (\<lambda>c. c \<noteq> amp) (entity c @ s) = entity c @ s"
    by auto
  have u: "unentity (entity c @ s) = (c, length (entity c))"
    using assms by (auto simp: escape_chars_def entity_def unentity_def amp_def quot_def apos_def)
  from assms have ne: "entity c \<noteq> []" by (auto simp: escape_chars_def entity_def amp_def quot_def apos_def)
  show ?thesis by (subst unescape.simps) (simp add: Let_def h u ne)
qed

text \<open>What \<open>getString\<close> reads is what \<open>setEscaped\<close> was given.\<close>

lemma unescape_setEscaped: "unescape (setEscaped s) = s"
proof (induction s)
  case Nil
  show ?case by (simp add: setEscaped_concat unescape.simps [of "[]"])
next
  case (Cons c s)
  have "setEscaped (c # s) = esc_char c @ setEscaped s" by (simp add: setEscaped_concat)
  with Cons.IH show ?case
    by (cases "c \<in> set escape_chars")
      (auto simp: esc_char_def unescape_entity intro: unescape_plain simp: escape_chars_def unescape_plain)
qed

section \<open>Numbers\<close>

definition isspace :: "char \<Rightarrow> bool" where
  "isspace c \<longleftrightarrow> (let n = (of_char c :: nat) in n = 32 \<or> (9 \<le> n \<and> n \<le> 13))"

text \<open>Value of a digit in bases up to 16, 99 for any other character.\<close>

definition digit_of :: "char \<Rightarrow> nat" where
  "digit_of c = (let n = (of_char c :: nat) in
     if 48 \<le> n \<and> n \<le> 57 then n - 48
     else if 65 \<le> n \<and> n \<le> 70 then n - 55
     else if 97 \<le> n \<and> n \<le> 102 then n - 87 else 99)"

definition digits_value :: "nat \<Rightarrow> string \<Rightarrow> nat" where
  "digits_value base s = foldl (\<lambda>v c. base * v + digit_of c) 0 (takeWhile (\<lambda>c. digit_of c < base) s)"

text \<open>Optional sign: the flag is true for a minus.\<close>

fun sign_of :: "string \<Rightarrow> bool \<times> string" where
  "sign_of (c # s) = (if c = CHR ''-'' then (True, s) else if c = CHR ''+'' then (False, s) else (False, c # s))"
| "sign_of [] = (False, [])"

text \<open>
  \<open>strtoul(value, 0, 0)\<close>: blanks, a sign, then hexadecimal after \<open>0x\<close>, octal after \<open>0\<close>,
  decimal otherwise; too large values saturate.
\<close>

definition strtoul :: "string \<Rightarrow> nat" where
  "strtoul s =
     (let (neg, t) = sign_of (dropWhile isspace s);
          v = (if take 2 t \<in> {''0x'', ''0X''} \<and> digit_of (t ! 2) < 16 \<and> 2 < length t then digits_value 16 (drop 2 t)
               else if take 1 t = ''0'' then digits_value 8 t else digits_value 10 t)
      in if 2 ^ 64 \<le> v then 2 ^ 64 - 1 else if neg then (2 ^ 64 - v) mod 2 ^ 64 else v)"

definition XmlParser_getUnsigned :: "string \<Rightarrow> xparser \<Rightarrow> u32 option option" where
  "XmlParser_getUnsigned n p =
     (case XmlParser_find n p of
        Some (At o') \<Rightarrow> Some (Some (of_nat (strtoul (cstr (pbuf p) o'))))
      | Some Wild \<Rightarrow> None
      | _ \<Rightarrow> Some None)"

text \<open>
  The loop of \<open>getUnsignedList\<close> over the stream: a number after blanks (\<open>operator>>\<close> fails without
  a digit or when the value does not fit), then any character that is not blank.
\<close>

definition read_unsigned :: "string \<Rightarrow> (u32 \<times> string) option" where
  "read_unsigned s =
     (let (neg, t) = sign_of (dropWhile isspace s); ds = takeWhile (\<lambda>c. digit_of c < 10) t; v = digits_value 10 t in
      if ds = [] \<or> 2 ^ 32 \<le> v then None
      else Some (if neg then - of_nat v else of_nat v, drop (length ds) t))"

function unsigned_list :: "string \<Rightarrow> u32 list" where
  "unsigned_list s =
     (case read_unsigned s of
        None \<Rightarrow> []
      | Some (v, rest) \<Rightarrow>
          v # (case dropWhile isspace rest of [] \<Rightarrow> [] | c # rest' \<Rightarrow> unsigned_list rest'))"
  by pat_completeness auto
termination
proof (relation "measure length")
  fix s v rest c and rest' :: string and x
  assume a: "read_unsigned s = Some x" "(v, rest) = x" "dropWhile isspace rest = c # rest'"
  have "length (snd (sign_of t)) \<le> length t" for t by (cases t) auto
  then have "length (snd (sign_of (dropWhile isspace s))) \<le> length s"
    using length_dropWhile_le [of isspace s] le_trans by blast
  moreover have "length rest \<le> length (snd (sign_of (dropWhile isspace s)))"
    using a(1,2) by (auto simp: read_unsigned_def Let_def case_prod_beta split: if_splits)
  moreover have "length (c # rest') \<le> length rest" using length_dropWhile_le [of isspace rest] a(3) by simp
  ultimately show "(rest', s) \<in> measure length" by simp
qed simp

declare unsigned_list.simps [simp del]

definition XmlParser_getUnsignedList :: "string \<Rightarrow> xparser \<Rightarrow> u32 list option option" where
  "XmlParser_getUnsignedList n p =
     (case XmlParser_find n p of
        Some (At o') \<Rightarrow> Some (Some (unsigned_list (cstr (pbuf p) o')))
      | Some Wild \<Rightarrow> None
      | _ \<Rightarrow> Some None)"

section \<open>Parsing what the writer produces\<close>

text \<open>
  The buffer is written as the data before the current position, the text the next state
  consumes and the rest; each lemma follows one state of the parser over such a split.
\<close>

lemma scan_append:
  assumes "\<forall>x\<in>set xs. \<not> P x" and "P c" and "length A + length xs < e"
  shows "scan P (A @ xs @ c # B) (length A) e = length A + length xs"
proof -
  have t: "take (e - length A) (drop (length A) (A @ xs @ c # B)) = xs @ c # take (e - length A - length xs - 1) B"
    using assms(3) by (simp add: take_Cons')
  have "takeWhile (\<lambda>x. \<not> P x) xs = xs" using assms(1) by (simp add: takeWhile_eq_all_conv)
  then have "takeWhile (\<lambda>x. \<not> P x) (xs @ c # ys) = xs" for ys using assms(1,2) by (simp add: takeWhile_tail)
  then show ?thesis unfolding scan_def t by simp
qed

lemma argval_step:
  assumes "pbuf p = A @ xs @ c # B" and "parsePos p = length A" and "\<forall>x\<in>set xs. x \<noteq> CHR '' '' \<and> x \<noteq> CHR ''>''"
    and "c = CHR '' '' \<or> c = CHR ''>''" and "length A + length xs < inputEnd p"
  shows "st_FindArgumentValue p = Again (p\<lparr>parsePos := length A + length xs, parseState := FindElementEnd\<rparr>)"
  using assms scan_append [of xs "\<lambda>c. c = CHR '' '' \<or> c = CHR ''>''" c A "inputEnd p" B]
  by (simp add: st_FindArgumentValue_def Let_def)

lemma quoted_step:
  assumes "pbuf p = A @ v @ quote p # B" and "parsePos p = length A" and "quote p \<notin> set v"
    and "length A + length v + 1 < inputEnd p"
  shows "st_FindQuotedArgumentValue p = st_FindArgumentValue
    (p\<lparr>pbuf := A @ v @ nul # B, parsePos := length A + length v + 1, parseState := FindElementEnd\<rparr>)"
proof -
  have s: "scan (\<lambda>c. c = quote p) (pbuf p) (parsePos p) (inputEnd p) = length A + length v"
    using scan_append [of v "\<lambda>c. c = quote p" "quote p" A "inputEnd p" B] assms by auto
  have "(pbuf p)[length A + length v := nul] = A @ v @ nul # B"
    using list_update_length [of "A @ v" "quote p" B nul] unfolding assms(1) by simp
  then show ?thesis
    using assms(4) by (simp add: st_FindQuotedArgumentValue_def s Let_def put_nul_def)
qed

lemma argname_step:
  assumes "pbuf p = A @ n @ CHR ''='' # quot # B" and "parsePos p = length A" and "\<forall>c\<in>set n. \<not> strchr ''= />'' c"
    and "length A + length n + 2 < inputEnd p"
  shows "st_FindArgumentName p = st_FindQuotedArgumentValue
    (p\<lparr>quote := quot, pbuf := A @ n @ nul # quot # B,
       attribute := attribute p @ [(argument p, At (length A + length n + 2))],
       parsePos := length A + length n + 2, parseState := FindQuotedArgumentValue\<rparr>)"
proof -
  have s: "scan (strchr ''= />'') (pbuf p) (parsePos p) (inputEnd p) = length A + length n"
    using scan_append [of n "strchr ''= />''" "CHR ''=''" A "inputEnd p" "quot # B"] assms by (auto simp: strchr_def)
  have b: "pbuf p ! (length A + length n) = CHR ''=''" "pbuf p ! (length A + length n + 1) = quot"
    "(pbuf p)[length A + length n := nul] = A @ n @ nul # quot # B"
    using nth_append_length [of "A @ n"] nth_append_length [of "A @ n @ [CHR ''='']"]
      list_update_length [of "A @ n" _ _ nul] by (simp_all add: assms(1))
  show ?thesis
    using assms(4) b by (simp add: st_FindArgumentName_def s Let_def put_nul_def push_attr_def)
qed

lemma flag_step:
  assumes "pbuf p = A @ n @ c # B" and "parsePos p = length A" and "\<forall>c\<in>set n. \<not> strchr ''= />'' c"
    and "c = CHR '' '' \<or> c = CHR ''/''" and "length A + length n < inputEnd p"
    and "argument p = At (xp_name p)"
  shows "st_FindArgumentName p = Again (p\<lparr>parsePos := length A + length n,
       attribute := attribute p @ [(argument p, Null)],
       starttls := strncmp_eq (cstr (pbuf p) (xp_name p)) ''starttls'' 8, parseState := FindElementEnd\<rparr>)"
proof -
  have s: "scan (strchr ''= />'') (pbuf p) (parsePos p) (inputEnd p) = length A + length n"
    using scan_append [of n "strchr ''= />''" c A "inputEnd p" B] assms by (auto simp: strchr_def)
  have b: "pbuf p ! (length A + length n) = c"
    using nth_append_length [of "A @ n"] by (simp add: assms(1))
  show ?thesis
    using assms(4,5,6) b by (auto simp: st_FindArgumentName_def s Let_def push_attr_def)
qed

lemma blank_step:
  assumes "pbuf p = A @ CHR '' '' # c # B" and "parsePos p = length A" and "isalpha c" and "length A + 1 < inputEnd p"
  shows "st_FindElementEnd p = st_FindArgumentName (p\<lparr>pbuf := A @ nul # c # B, parsePos := length A + 1,
    argument := At (length A + 1), parseState := FindArgumentName\<rparr>)"
proof -
  have u: "(pbuf p)[length A := nul] = A @ nul # c # B" "cur p = CHR '' ''" by (simp_all add: assms(1,2))
  have n: "(A @ nul # c # B) ! Suc (length A) = c" by (simp add: nth_append)
  let ?p = "p\<lparr>pbuf := A @ nul # c # B, parsePos := length A + 1\<rparr>"
  have "clobber_blanks ?p = (False, ?p)"
    using isalpha_not_sep [OF assms(3)] n by (subst clobber_blanks.simps) simp
  then have "clobber_blanks p = (False, ?p)"
    using u assms(2,4) by (subst clobber_blanks.simps) (simp add: Let_def put_nul_def)
  then show ?thesis
    using isalpha_not_sep [OF assms(3)] n assms(3) by (simp add: st_FindElementEnd_def Let_def)
qed

definition name_ok :: "string \<Rightarrow> bool" where
  "name_ok n \<longleftrightarrow> n \<noteq> [] \<and> isalpha (hd n) \<and> (\<forall>c\<in>set n. \<not> strchr ''= />'' c)"

definition value_ok :: "string \<Rightarrow> bool" where
  "value_ok v \<longleftrightarrow> quot \<notin> set v \<and> nul \<notin> set v"

definition attr_done :: "string \<Rightarrow> string \<Rightarrow> string" where
  "attr_done n v = nul # n @ nul # quot # v @ [nul]"

definition same_elem :: "xparser \<Rightarrow> xparser \<Rightarrow> bool" where
  "same_elem p p' \<longleftrightarrow> inputEnd p' = inputEnd p \<and> starttls p' = starttls p \<and> xp_name p' = xp_name p"

definition seps_ok :: "string \<Rightarrow> char \<Rightarrow> bool" where
  "seps_ok sep c \<longleftrightarrow> sep = [] \<and> c = CHR '' '' \<or> sep = ''/'' \<and> c = CHR ''>''"

lemma quoted_full:
  assumes "pbuf p = A @ v @ quote p # sep @ c # B" and "parsePos p = length A" and "quote p \<notin> set v"
    and "seps_ok sep c" and "length A + length v + 1 + length sep < inputEnd p"
  shows "\<exists>p'. st_FindQuotedArgumentValue p = Again p' \<and> pbuf p' = A @ v @ nul # sep @ c # B \<and>
    parsePos p' = length A + length v + 1 + length sep \<and> attribute p' = attribute p \<and> same_elem p p' \<and>
    parseState p' = FindElementEnd"
proof -
  let ?p = "p\<lparr>pbuf := A @ v @ nul # sep @ c # B, parsePos := length A + length v + 1, parseState := FindElementEnd\<rparr>"
  have 1: "st_FindQuotedArgumentValue p = st_FindArgumentValue ?p"
    by (rule quoted_step [OF assms(1-3)]) (use assms(5) in simp)
  have 2: "st_FindArgumentValue ?p =
      Again (?p\<lparr>parsePos := length (A @ v @ [nul]) + length sep, parseState := FindElementEnd\<rparr>)"
    by (rule argval_step [of _ _ _ c B]) (use assms(4,5) in \<open>auto simp: seps_ok_def\<close>)
  show ?thesis unfolding 1 2 by (simp add: same_elem_def)
qed

lemma argname_full:
  assumes "pbuf p = A @ n @ CHR ''='' # quot # v @ quot # sep @ c # B" and "parsePos p = length A"
    and "name_ok n" and "value_ok v" and "seps_ok sep c"
    and "length A + length n + length v + 3 + length sep < inputEnd p"
  shows "\<exists>p'. st_FindArgumentName p = Again p' \<and> pbuf p' = A @ n @ nul # quot # v @ nul # sep @ c # B \<and>
    parsePos p' = length A + length n + length v + 3 + length sep \<and>
    attribute p' = attribute p @ [(argument p, At (length A + length n + 2))] \<and> same_elem p p' \<and>
    parseState p' = FindElementEnd"
proof -
  let ?p = "p\<lparr>quote := quot, pbuf := A @ n @ nul # quot # v @ quot # sep @ c # B,
       attribute := attribute p @ [(argument p, At (length A + length n + 2))],
       parsePos := length A + length n + 2, parseState := FindQuotedArgumentValue\<rparr>"
  have 1: "st_FindArgumentName p = st_FindQuotedArgumentValue ?p"
    by (rule argname_step [OF assms(1,2)]) (use assms(3,6) in \<open>auto simp: name_ok_def\<close>)
  have "\<exists>p'. st_FindQuotedArgumentValue ?p = Again p' \<and>
      pbuf p' = (A @ n @ nul # [quot]) @ v @ nul # sep @ c # B \<and>
      parsePos p' = length (A @ n @ nul # [quot]) + length v + 1 + length sep \<and> attribute p' = attribute ?p \<and>
      same_elem ?p p' \<and> parseState p' = FindElementEnd"
    by (rule quoted_full) (use assms(4,5,6) in \<open>simp_all add: value_ok_def\<close>)
  then obtain p' where p': "st_FindQuotedArgumentValue ?p = Again p'"
      "pbuf p' = (A @ n @ nul # [quot]) @ v @ nul # sep @ c # B"
      "parsePos p' = length (A @ n @ nul # [quot]) + length v + 1 + length sep" "attribute p' = attribute ?p"
      "same_elem ?p p'" "parseState p' = FindElementEnd" by blast
  then show ?thesis unfolding 1 by (intro exI [of _ p']) (simp add: same_elem_def)
qed

lemma attr_step:
  assumes buf: "pbuf p = A @ Attribute n v @ sep @ c # B" and pos: "parsePos p = length A"
    and n: "name_ok n" and v: "value_ok v" and sep: "seps_ok sep c"
    and e: "length A + length (Attribute n v) + length sep < inputEnd p"
  shows "\<exists>p'. st_FindElementEnd p = Again p' \<and> pbuf p' = A @ attr_done n v @ sep @ c # B \<and>
    parsePos p' = length A + length (Attribute n v) + length sep \<and>
    attribute p' = attribute p @ [(At (length A + 1), At (length A + length n + 3))] \<and>
    same_elem p p' \<and> parseState p' = FindElementEnd"
proof -
  from n obtain h t where h: "n = h # t" "isalpha h" by (cases n) (auto simp: name_ok_def)
  have len: "length (Attribute n v) = length n + length v + 4" by (simp add: Attribute_def)
  let ?C = "v @ quot # sep @ c # B"
  let ?p = "p\<lparr>pbuf := A @ nul # h # t @ CHR ''='' # quot # ?C, parsePos := length A + 1, argument := At (length A + 1),
    parseState := FindArgumentName\<rparr>"
  have 1: "st_FindElementEnd p = st_FindArgumentName ?p"
    by (rule blank_step) (use buf pos h e len in \<open>simp_all add: Attribute_def\<close>)
  have "\<exists>p'. st_FindArgumentName ?p = Again p' \<and> pbuf p' = (A @ [nul]) @ n @ nul # quot # v @ nul # sep @ c # B \<and>
    parsePos p' = length (A @ [nul]) + length n + length v + 3 + length sep \<and>
    attribute p' = attribute ?p @ [(argument ?p, At (length (A @ [nul]) + length n + 2))] \<and> same_elem ?p p' \<and>
    parseState p' = FindElementEnd"
    by (rule argname_full) (use n v sep e len h in \<open>simp_all\<close>)
  then obtain p' where p': "st_FindArgumentName ?p = Again p'"
    "pbuf p' = (A @ [nul]) @ n @ nul # quot # v @ nul # sep @ c # B"
    "parsePos p' = length (A @ [nul]) + length n + length v + 3 + length sep"
    "attribute p' = attribute ?p @ [(argument ?p, At (length (A @ [nul]) + length n + 2))]" "same_elem ?p p'"
    "parseState p' = FindElementEnd" by blast
  then show ?thesis unfolding 1 by (intro exI [of _ p']) (simp add: same_elem_def attr_done_def len)
qed

fun attr_offs :: "nat \<Rightarrow> attrs \<Rightarrow> (aval \<times> aval) list" where
  "attr_offs L [] = []"
| "attr_offs L ((n, v) # as) = (At (L + 1), At (L + length n + 3)) # attr_offs (L + length (Attribute n v)) as"

definition attrs_done :: "attrs \<Rightarrow> string" where
  "attrs_done as = concat (map (\<lambda>(n, v). attr_done n v) as)"

lemma attr_done_length [simp]: "length (attr_done n v) = length (Attribute n v)"
  by (simp add: attr_done_def Attribute_def)

lemma close_step:
  assumes "pbuf p = A @ CHR ''>'' # B" and "parsePos p = length A" and "parseState p = FindElementEnd"
    and "\<not> starttls p" and "length A < inputEnd p" and "inputEnd p \<le> length (pbuf p)"
  shows "XmlParser_next p = (True, (put_nul (length A) p)\<lparr>parsePos := length A + 1, parseState := FindElementStart\<rparr>)"
proof -
  have "cur p = CHR ''>''" by (simp add: assms(1,2))
  then have "clobber_blanks p = (False, p)" by (subst clobber_blanks.simps) simp
  with \<open>cur p = CHR ''>''\<close> assms(2-6) show ?thesis
    by (subst XmlParser_next.simps)
      (simp add: parse_step_def st_FindElementEnd_def Let_def isalpha_def)
qed

lemma attrs_parse:
  assumes "as \<noteq> []" and "\<forall>(n, v)\<in>set as. name_ok n \<and> value_ok v"
    and "pbuf p = A @ attr_text as @ ''/>'' @ B" and "parsePos p = length A" and "parseState p = FindElementEnd"
    and "\<not> starttls p" and "length A + length (attr_text as) + 2 \<le> inputEnd p" and "inputEnd p \<le> length (pbuf p)"
  shows "\<exists>p'. XmlParser_next p = (True, p') \<and> pbuf p' = A @ attrs_done as @ CHR ''/'' # nul # B \<and>
    attribute p' = attribute p @ attr_offs (length A) as \<and> xp_name p' = xp_name p \<and>
    parsePos p' = length A + length (attr_text as) + 2 \<and> parseState p' = FindElementStart"
  using assms
proof (induction as arbitrary: p A rule: list_nonempty_induct)
  case (single x)
  obtain n v where x: "x = (n, v)" by (cases x)
  have at: "attr_text [(n, v)] = Attribute n v" by (simp add: attr_text_def)
  note P = single.prems [unfolded x at]
  have "\<exists>p'. st_FindElementEnd p = Again p' \<and> pbuf p' = A @ attr_done n v @ ''/'' @ CHR ''>'' # B \<and>
    parsePos p' = length A + length (Attribute n v) + length ''/'' \<and>
    attribute p' = attribute p @ [(At (length A + 1), At (length A + length n + 3))] \<and>
    same_elem p p' \<and> parseState p' = FindElementEnd"
    by (rule attr_step) (use P in \<open>simp_all add: seps_ok_def\<close>)
  then obtain p1 where p1: "st_FindElementEnd p = Again p1" "pbuf p1 = A @ attr_done n v @ ''/'' @ CHR ''>'' # B"
    "parsePos p1 = length A + length (Attribute n v) + 1"
    "attribute p1 = attribute p @ [(At (length A + 1), At (length A + length n + 3))]" "same_elem p p1"
    "parseState p1 = FindElementEnd" by auto
  have "XmlParser_next p = XmlParser_next p1"
    using P p1(1) by (subst XmlParser_next.simps) (simp add: parse_step_def)
  also have "\<dots> = (True, (put_nul (length (A @ attr_done n v @ ''/'')) p1)
      \<lparr>parsePos := length (A @ attr_done n v @ ''/'') + 1, parseState := FindElementStart\<rparr>)"
    by (rule close_step [where B = B]) (use p1 P in \<open>simp_all add: same_elem_def\<close>)
  finally show ?case
    using p1 list_update_length [of "A @ attr_done n v @ ''/''" "CHR ''>''" B nul]
    by (simp add: x at put_nul_def attrs_done_def same_elem_def)
next
  case (cons x as)
  obtain n v where x: "x = (n, v)" by (cases x)
  have at: "attr_text ((n, v) # as) = Attribute n v @ attr_text as" by (simp add: attr_text_def)
  note P = cons.prems [unfolded x at]
  from cons.hyps obtain m w as' where as: "as = (m, w) # as'" by (cases as) auto
  obtain B' where hd: "attr_text as @ ''/>'' @ B = CHR '' '' # B'" by (simp add: attr_text_def as Attribute_def)
  have "\<exists>p'. st_FindElementEnd p = Again p' \<and> pbuf p' = A @ attr_done n v @ [] @ CHR '' '' # B' \<and>
    parsePos p' = length A + length (Attribute n v) + length ([] :: string) \<and>
    attribute p' = attribute p @ [(At (length A + 1), At (length A + length n + 3))] \<and>
    same_elem p p' \<and> parseState p' = FindElementEnd"
    by (rule attr_step) (use P hd [symmetric] in \<open>simp_all add: seps_ok_def\<close>)
  then obtain p1 where p1: "st_FindElementEnd p = Again p1"
    "pbuf p1 = (A @ attr_done n v) @ attr_text as @ ''/>'' @ B" "parsePos p1 = length (A @ attr_done n v)"
    "attribute p1 = attribute p @ [(At (length A + 1), At (length A + length n + 3))]" "same_elem p p1"
    "parseState p1 = FindElementEnd" using hd by auto
  have n1: "XmlParser_next p = XmlParser_next p1"
    using P p1(1) by (subst XmlParser_next.simps) (simp add: parse_step_def)
  have "\<exists>p'. XmlParser_next p1 = (True, p') \<and>
    pbuf p' = (A @ attr_done n v) @ attrs_done as @ CHR ''/'' # nul # B \<and>
    attribute p' = attribute p1 @ attr_offs (length (A @ attr_done n v)) as \<and> xp_name p' = xp_name p1 \<and>
    parsePos p' = length (A @ attr_done n v) + length (attr_text as) + 2 \<and> parseState p' = FindElementStart"
    by (rule cons.IH) (use P p1 in \<open>simp_all add: same_elem_def\<close>)
  then show ?case unfolding n1 using p1 by (auto simp: x at attrs_done_def same_elem_def)
qed

text \<open>Reading the strings back from the finished buffer.\<close>

definition attr_strings :: "xparser \<Rightarrow> (string \<times> string option) list" where
  "attr_strings p = map (\<lambda>(a, v). (case a of At o' \<Rightarrow> cstr (pbuf p) o' | _ \<Rightarrow> [], case v of At o' \<Rightarrow> Some (cstr (pbuf p) o') | _ \<Rightarrow> None)) (attribute p)"

lemma cstr_at: "nul \<notin> set s \<Longrightarrow> cstr (A @ s @ nul # B) (length A) = s"
  by (auto simp: cstr_def takeWhile_tail)

lemma name_ok_nul: "name_ok n \<Longrightarrow> nul \<notin> set n"
  by (auto simp: name_ok_def strchr_def)

lemma attr_offs_strings:
  assumes "\<forall>(n, v)\<in>set as. name_ok n \<and> value_ok v"
  shows "map (\<lambda>(a, v). (case a of At o' \<Rightarrow> cstr (A @ attrs_done as @ B) o' | _ \<Rightarrow> [],
      case v of At o' \<Rightarrow> Some (cstr (A @ attrs_done as @ B) o') | _ \<Rightarrow> None)) (attr_offs (length A) as)
    = map (\<lambda>(n, v). (n, Some v)) as"
  using assms
proof (induction as arbitrary: A)
  case (Cons x as)
  obtain n v where x: "x = (n, v)" by (cases x)
  let ?b = "A @ attrs_done (x # as) @ B"
  have d: "attrs_done (x # as) = attr_done n v @ attrs_done as" by (simp add: attrs_done_def x)
  have n: "nul \<notin> set n" "nul \<notin> set v" using Cons.prems name_ok_nul by (auto simp: x value_ok_def)
  have 1: "cstr ?b (length A + 1) = n"
    using cstr_at [OF n(1), of "A @ [nul]" "quot # v @ nul # attrs_done as @ B"] by (simp add: d attr_done_def)
  have 2: "cstr ?b (length A + length n + 3) = v"
    using cstr_at [OF n(2), of "A @ nul # n @ [nul, quot]" "attrs_done as @ B"]
    by (simp add: d attr_done_def eval_nat_numeral)
  have 3: "?b = (A @ attr_done n v) @ attrs_done as @ B" by (simp add: d)
  have "map (\<lambda>(a, v). (case a of At o' \<Rightarrow> cstr ?b o' | _ \<Rightarrow> [], case v of At o' \<Rightarrow> Some (cstr ?b o') | _ \<Rightarrow> None))
      (attr_offs (length (A @ attr_done n v)) as) = map (\<lambda>(n, v). (n, Some v)) as"
    unfolding 3 by (rule Cons.IH) (use Cons.prems in simp)
  then show ?case using 1 2 by (simp add: x)
qed simp

text \<open>The step that finds the element and its name.\<close>

lemma name_step:
  assumes buf: "pbuf p = A @ CHR ''<'' # n @ c # B" and pos: "parsePos p = length A" and st: "parseState p = FindElementStart"
    and n: "name_ok n" and tls: "take 8 n \<noteq> ''starttls''" and c: "c = CHR '' '' \<or> c = CHR ''/''"
    and e: "length A + 1 + length n < inputEnd p"
  shows "\<exists>p'. parse_step p = Again p' \<and> pbuf p' = pbuf p \<and> parsePos p' = length A + 1 + length n \<and>
    attribute p' = [(At (length A + 1), Null)] \<and> inputEnd p' = inputEnd p \<and> \<not> starttls p' \<and>
    xp_name p' = length A + 1 \<and> parseState p' = FindElementEnd"
proof -
  from n obtain h t where h: "n = h # t" "isalpha h" by (cases n) (auto simp: name_ok_def)
  have s: "scan (\<lambda>c. c = CHR ''<'') (pbuf p) (parsePos p) (inputEnd p) = length A"
    using scan_append [of "[]" "\<lambda>c. c = CHR ''<''" "CHR ''<''" A "inputEnd p" "n @ c # B"] buf pos e by simp
  have hd: "pbuf p ! (length A + 1) = h" by (simp add: buf h nth_append)
  let ?p = "p\<lparr>parsePos := length A + 1, xp_name := length A + 1, attribute := [], starttls := False, parseState := FindElementEnd\<rparr>"
  have 1: "parse_step p = st_FindElementEnd ?p"
    using e h hd by (simp add: parse_step_def st st_FindElementStart_def s Let_def)
  have cb: "clobber_blanks ?p = (False, ?p)"
    using isalpha_not_sep [OF h(2)] hd by (subst clobber_blanks.simps) simp
  let ?q = "?p\<lparr>argument := At (length A + 1), parseState := FindArgumentName\<rparr>"
  have 2: "st_FindElementEnd ?p = st_FindArgumentName ?q"
    using isalpha_not_sep [OF h(2)] hd h(2) unfolding st_FindElementEnd_def cb by (simp add: Let_def)
  have 3: "st_FindArgumentName ?q = Again (?q\<lparr>parsePos := length (A @ ''<'') + length n,
       attribute := attribute ?q @ [(argument ?q, Null)],
       starttls := strncmp_eq (cstr (pbuf ?q) (xp_name ?q)) ''starttls'' 8, parseState := FindElementEnd\<rparr>)"
    by (rule flag_step [of _ _ _ c B]) (use n c e buf in \<open>auto simp: name_ok_def\<close>)
  have "\<not> strncmp_eq (cstr (pbuf p) (length A + 1)) ''starttls'' 8"
  proof
    have "cstr (pbuf p) (length A + 1) = n @ takeWhile (\<lambda>c. c \<noteq> nul) (c # B)"
      using name_ok_nul [OF n] by (simp add: cstr_def buf) (auto simp: takeWhile_append)
    moreover assume "strncmp_eq (cstr (pbuf p) (length A + 1)) ''starttls'' 8"
    ultimately have t: "take 8 (n @ takeWhile (\<lambda>c. c \<noteq> nul) (c # B)) = ''starttls''" by (simp add: strncmp_eq_def)
    show False
    proof (cases "8 \<le> length n")
      case True
      with t tls show False by simp
    next
      case False
      have "c \<in> set (take 8 (n @ takeWhile (\<lambda>c. c \<noteq> nul) (c # B)))"
        using c False by (auto simp: nul_def take_Cons')
      with t c show False by auto
    qed
  qed
  then show ?thesis unfolding 1 2 3 by simp
qed

lemma empty_close:
  assumes "pbuf p = A @ CHR ''/'' # CHR ''>'' # B" and "parsePos p = length A" and "parseState p = FindElementEnd"
    and "\<not> starttls p" and "length A + 1 < inputEnd p" and "inputEnd p \<le> length (pbuf p)"
  shows "XmlParser_next p = (True, (put_nul (length A) p)\<lparr>parsePos := length A + 2, parseState := FindElementStart\<rparr>)"
proof -
  have c: "cur p = CHR ''/''" "pbuf p ! Suc (length A) = CHR ''>''" by (simp_all add: assms(1,2) nth_append)
  then have "clobber_blanks p = (False, p)" by (subst clobber_blanks.simps) simp
  with c assms(2-6) show ?thesis
    by (subst XmlParser_next.simps) (simp add: parse_step_def st_FindElementEnd_def Let_def)
qed

lemma element_parse:
  assumes n: "name_ok n" "take 8 n \<noteq> ''starttls''" and as: "\<forall>(n, v)\<in>set as. name_ok n \<and> value_ok v"
    and p: "pbuf p = A @ CHR ''<'' # n @ attr_text as @ ''/>'' @ B" "parsePos p = length A"
      "parseState p = FindElementStart" "length A + length n + length (attr_text as) + 3 \<le> inputEnd p"
      "inputEnd p \<le> length (pbuf p)"
  shows "\<exists>p'. XmlParser_next p = (True, p') \<and> XmlParser_tag p' = n \<and>
    attr_strings p' = (n, None) # map (\<lambda>(n, v). (n, Some v)) as \<and> (\<forall>(a, v)\<in>set (attribute p'). v \<noteq> Wild \<and> v \<noteq> Outside \<and> (\<exists>k. a = At k)) \<and>
    parsePos p' = length A + length n + length (attr_text as) + 3 \<and> parseState p' = FindElementStart"
proof -
  let ?A = "A @ CHR ''<'' # n"
  have run: "parsePos p < inputEnd p" using p by simp
  obtain c C where c: "attr_text as @ ''/>'' @ B = c # C" "c = CHR '' '' \<or> c = CHR ''/''"
    by (cases as) (auto simp: attr_text_def Attribute_def)
  have "\<exists>p'. parse_step p = Again p' \<and> pbuf p' = pbuf p \<and> parsePos p' = length A + 1 + length n \<and>
    attribute p' = [(At (length A + 1), Null)] \<and> inputEnd p' = inputEnd p \<and> \<not> starttls p' \<and>
    xp_name p' = length A + 1 \<and> parseState p' = FindElementEnd"
    by (rule name_step [OF _ p(2,3) n c(2)]) (use p c in auto)
  then obtain p1 where p1: "parse_step p = Again p1" "pbuf p1 = pbuf p" "parsePos p1 = length ?A"
    "attribute p1 = [(At (length A + 1), Null)]" "inputEnd p1 = inputEnd p" "\<not> starttls p1"
    "xp_name p1 = length A + 1" "parseState p1 = FindElementEnd"
    by auto
  have n1: "XmlParser_next p = XmlParser_next p1"
    using run p(5) p1(1) by (subst XmlParser_next.simps) simp
  have tag: "cstr (A @ CHR ''<'' # n @ nul # D) (length A + 1) = n" for D
    using cstr_at [OF name_ok_nul [OF n(1)], of "A @ ''<''" D] by simp
  show ?thesis
  proof (cases "as = []")
    case True
    have "XmlParser_next p1 = (True, (put_nul (length ?A) p1)\<lparr>parsePos := length ?A + 2, parseState := FindElementStart\<rparr>)"
      by (rule empty_close [of _ _ B]) (use p p1 True in \<open>simp_all add: attr_text_def\<close>)
    moreover have "pbuf (put_nul (length ?A) p1) = A @ CHR ''<'' # n @ nul # CHR ''>'' # B"
      using list_update_length [of ?A "CHR ''/''" "CHR ''>'' # B" nul] p(1) p1(2) True
      by (simp add: put_nul_def attr_text_def)
    ultimately show ?thesis
      unfolding n1 using p1 tag True by (simp add: XmlParser_tag_def attr_strings_def put_nul_def attr_text_def)
  next
    case False
    have "\<exists>p'. XmlParser_next p1 = (True, p') \<and> pbuf p' = ?A @ attrs_done as @ CHR ''/'' # nul # B \<and>
      attribute p' = attribute p1 @ attr_offs (length ?A) as \<and> xp_name p' = xp_name p1 \<and>
      parsePos p' = length ?A + length (attr_text as) + 2 \<and> parseState p' = FindElementStart"
      by (rule attrs_parse [OF False as]) (use p p1 in simp_all)
    then obtain p' where p': "XmlParser_next p1 = (True, p')" "pbuf p' = ?A @ attrs_done as @ CHR ''/'' # nul # B"
      "attribute p' = (At (length A + 1), Null) # attr_offs (length ?A) as" "xp_name p' = length A + 1"
      "parsePos p' = length ?A + length (attr_text as) + 2" "parseState p' = FindElementStart"
      using p1 by auto
    obtain D where D: "attrs_done as = nul # D" using False by (cases as) (auto simp: attrs_done_def attr_done_def)
    have t: "cstr (pbuf p') (length A + 1) = n" using tag [of "D @ CHR ''/'' # nul # B"] by (simp add: p'(2) D)
    have w: "\<forall>(a, v)\<in>set (attr_offs L as). v \<noteq> Wild \<and> v \<noteq> Outside \<and> (\<exists>k. a = At k)" for L
      by (induction as arbitrary: L) (force split: prod.splits)+
    have "map (\<lambda>(a, v). (case a of At o' \<Rightarrow> cstr (pbuf p') o' | _ \<Rightarrow> [], case v of At o' \<Rightarrow> Some (cstr (pbuf p') o') | _ \<Rightarrow> None))
        (attr_offs (length ?A) as) = map (\<lambda>(n, v). (n, Some v)) as"
      unfolding p'(2) by (rule attr_offs_strings [OF as])
    with t have "attr_strings p' = (n, None) # map (\<lambda>(n, v). (n, Some v)) as"
      by (simp add: attr_strings_def p'(3))
    with p' t w show ?thesis unfolding n1 by (auto simp: XmlParser_tag_def)
  qed
qed

lemma getString_strings:
  assumes "\<forall>(a, v)\<in>set (attribute p). v \<noteq> Wild \<and> v \<noteq> Outside \<and> (\<exists>k. a = At k)"
  shows "XmlParser_getString n p =
    (case find (\<lambda>(a, v). strcasecmp_eq n a) (attr_strings p) of
       Some (a, Some v) \<Rightarrow> Some (True, unescape v) | _ \<Rightarrow> Some (False, []))"
proof -
  have "(case find_attr b n al of Some (At o') \<Rightarrow> Some (True, unescape (cstr b o')) | Some Wild \<Rightarrow> None | _ \<Rightarrow> Some (False, []))
    = (case find (\<lambda>(a, v). strcasecmp_eq n a)
         (map (\<lambda>(a, v). (case a of At o' \<Rightarrow> cstr b o' | _ \<Rightarrow> [], case v of At o' \<Rightarrow> Some (cstr b o') | _ \<Rightarrow> None)) al) of
       Some (a, Some v) \<Rightarrow> Some (True, unescape v) | _ \<Rightarrow> Some (False, []))"
    if "\<forall>(a, v)\<in>set al. v \<noteq> Wild \<and> v \<noteq> Outside \<and> (\<exists>k. a = At k)" for b al
    using that by (induction al) (auto split: aval.splits)
  from this [OF assms] show ?thesis by (simp add: XmlParser_getString_def XmlParser_find_def attr_strings_def)
qed

text \<open>
  Property C13 (element_roundtrip): an element written by \<open>XmlElement\<close> with escaped attribute values
  is recognised by the parser with its name, its attributes in order and the position right behind
  it, and \<open>getString\<close> returns every value as it was before escaping (names that differ without
  regard to case).
\<close>

theorem element_roundtrip:
  assumes "name_ok n" and "take 8 n \<noteq> ''starttls''"
    and "\<forall>(a, v)\<in>set as. name_ok a \<and> nul \<notin> set v \<and> \<not> strcasecmp_eq a n"
    and "distinct (map (\<lambda>(a, v). map tolower a) as)"
    and "txt = leaf_text n 0 [] (map (\<lambda>(a, v). (a, setEscaped v)) as)"
    and "pbuf p = A @ txt @ B" and "parsePos p = length A" and "parseState p = FindElementStart"
    and "length A + length txt \<le> inputEnd p" and "inputEnd p \<le> length (pbuf p)"
  shows "\<exists>p'. XmlParser_next p = (True, p') \<and> XmlParser_tag p' = n \<and>
    map fst (attr_strings p') = n # map fst as \<and> parsePos p' + 2 = length A + length txt \<and>
    (\<forall>(a, v)\<in>set as. XmlParser_getString a p' = Some (True, v))"
proof -
  let ?as = "map (\<lambda>(a, v). (a, setEscaped v)) as"
  have T: "txt = CHR ''<'' # n @ attr_text ?as @ ''/>'' @ crlf"
    by (simp add: assms(5) leaf_text_def XmlElement_new_def XmlElement_delete_def spaces_def id_attribute_def)
  have nul: "nul \<notin> set (setEscaped v)" if "nul \<notin> set v" for v
    using that by (auto simp: setEscaped_concat esc_char_def entity_def escape_chars_def nul_def split: if_splits)
  have "\<forall>(a, v)\<in>set ?as. name_ok a \<and> value_ok v"
    using assms(3) nul setEscaped_chars by (fastforce simp: value_ok_def)
  from element_parse [OF assms(1,2) this, of p A "crlf @ B"] obtain p' where p': "XmlParser_next p = (True, p')"
    "XmlParser_tag p' = n" "attr_strings p' = (n, None) # map (\<lambda>(n, v). (n, Some v)) ?as"
    "\<forall>(a, v)\<in>set (attribute p'). v \<noteq> Wild \<and> v \<noteq> Outside \<and> (\<exists>k. a = At k)" "parsePos p' = length A + length n + length (attr_text ?as) + 3"
    using assms(6-10) by (auto simp: T crlf_def)
  have "XmlParser_getString a p' = Some (True, v)" if av: "(a, v) \<in> set as" for a v
  proof -
    have "find (\<lambda>(x, y). strcasecmp_eq a x) (map (\<lambda>(n, v). (n, Some v)) (map (\<lambda>(a, v). (a, setEscaped v)) as))
        = Some (a, Some (setEscaped v))"
      using av assms(4)
    proof (induction as)
      case (Cons x xs)
      then show ?case by (cases x) (force simp: strcasecmp_eq_def)
    qed simp
    moreover have "\<not> strcasecmp_eq a n" using assms(3) av by auto
    ultimately show ?thesis by (simp add: getString_strings [OF p'(4)] p'(3) unescape_setEscaped)
  qed
  with p' show ?thesis by (auto simp: T crlf_def o_def case_prod_beta)
qed

theorem element_roundtrip_witness:
  "\<exists>p'. XmlParser_next ((XmlParser_new 1000)\<lparr>pbuf := leaf_text ''broadcast'' 0 [] [(''text'', setEscaped ''a<b'')],
      inputEnd := length (leaf_text ''broadcast'' 0 [] [(''text'', setEscaped ''a<b'')])\<rparr>) = (True, p') \<and>
    XmlParser_tag p' = ''broadcast'' \<and> XmlParser_getString ''text'' p' = Some (True, ''a<b'')"
proof -
  let ?t = "leaf_text ''broadcast'' 0 [] [(''text'', setEscaped ''a<b'')]"
  let ?p = "(XmlParser_new 1000)\<lparr>pbuf := ?t, inputEnd := length ?t\<rparr>"
  have n: "name_ok ''broadcast''" "name_ok ''text''" by (simp_all add: name_ok_def isalpha_def strchr_def nul_def)
  have d: "\<not> strcasecmp_eq ''text'' ''broadcast''" by (simp add: strcasecmp_eq_def)
  show ?thesis
    using element_roundtrip [of "''broadcast''" "[(''text'', ''a<b'')]" ?t ?p "[]" "[]"] n d
    by (auto simp: XmlParser_new_def nul_def)
qed

section \<open>Numbers in lists\<close>

lemma digit_of_digit_char: "d < 10 \<Longrightarrow> digit_of (digit_char d) = d"
  by (simp add: digit_of_def digit_char_def Let_def)

lemma show_nat_all_digits: "\<forall>c\<in>set (show_nat n). digit_of c < 10 \<and> digit_of c = digit_val c \<and> \<not> isspace c \<and> c \<noteq> CHR ''-'' \<and> c \<noteq> CHR ''+''"
  using show_nat_digits [of n]
  by (auto simp: list_all_iff is_digit_def digit_of_def digit_val_def isspace_def Let_def)

lemma digits_value_show:
  assumes "xs = [] \<or> \<not> digit_of (hd xs) < 10"
  shows "takeWhile (\<lambda>c. digit_of c < 10) (show_nat n @ xs) = show_nat n" and "digits_value 10 (show_nat n @ xs) = n"
proof -
  show t: "takeWhile (\<lambda>c. digit_of c < 10) (show_nat n @ xs) = show_nat n"
  proof -
    have a: "\<And>c. c \<in> set (show_nat n) \<Longrightarrow> digit_of c < 10" using show_nat_all_digits [of n] by blast
    have "takeWhile (\<lambda>c. digit_of c < 10) xs = []" using assms by (cases xs) simp_all
    with takeWhile_append2 [of "show_nat n" "\<lambda>c. digit_of c < 10" xs, OF a] show ?thesis by simp
  qed
  have "foldl (\<lambda>v c. 10 * v + digit_of c) a ys = foldl (\<lambda>v c. 10 * v + digit_val c) a ys"
    if "\<forall>c\<in>set ys. digit_of c = digit_val c" for a ys
    using that by (induction ys arbitrary: a) auto
  then have "digits_value 10 (show_nat n @ xs) = dec_value (show_nat n)"
    using show_nat_all_digits [of n] by (simp add: digits_value_def t dec_value_def)
  then show "digits_value 10 (show_nat n @ xs) = n" by simp
qed

lemma read_unsigned_show:
  assumes "xs = [] \<or> \<not> digit_of (hd xs) < 10" and "n < 2 ^ 32"
  shows "read_unsigned (show_nat n @ xs) = Some (of_nat n, xs)"
proof -
  obtain c cs where c: "show_nat n = c # cs" by (cases "show_nat n") auto
  with show_nat_all_digits [of n] have "\<not> isspace c" "c \<noteq> CHR ''-''" "c \<noteq> CHR ''+''" by auto
  then have s: "sign_of (dropWhile isspace (show_nat n @ xs)) = (False, show_nat n @ xs)" by (simp add: c)
  show ?thesis
    unfolding read_unsigned_def s using digits_value_show [OF assms(1), of n] assms(2) by simp
qed

text \<open>
  Property C16 (unsigned_list_roundtrip): \<open>getUnsignedList\<close> reads back every list of 32 bit numbers
  written with commas.
\<close>

theorem unsigned_list_roundtrip:
  assumes "\<forall>n\<in>set ns. n < 2 ^ 32"
  shows "unsigned_list (commas (map show_nat ns)) = map of_nat ns"
  using assms
proof (induction ns)
  case Nil
  show ?case by (subst unsigned_list.simps) (simp add: read_unsigned_def)
next
  case (Cons n ns)
  show ?case
  proof (cases ns)
    case Nil
    with Cons.prems read_unsigned_show [of "[]" n] show ?thesis by (subst unsigned_list.simps) simp
  next
    case (Cons m ms)
    let ?r = "commas (map show_nat ns)"
    have e: "commas (map show_nat (n # ns)) = show_nat n @ '','' @ ?r" by (simp add: Cons)
    have "read_unsigned (show_nat n @ '','' @ ?r) = Some (of_nat n, '','' @ ?r)"
      using Cons.prems by (intro read_unsigned_show) (simp_all add: digit_of_def)
    moreover have "dropWhile isspace ('','' @ ?r) = CHR '','' # ?r" by (simp add: isspace_def)
    ultimately show ?thesis
      unfolding e using Cons.IH Cons.prems by (subst unsigned_list.simps) simp
  qed
qed

theorem unsigned_list_roundtrip_witness:
  "unsigned_list (commas (map show_nat [3, 4294967295, 20])) = [3, 4294967295, 20]"
  using unsigned_list_roundtrip [of "[3, 4294967295, 20]"] by simp

section \<open>Two irregularities\<close>

text \<open>
  An attribute value without quotes right before \<open>/>\<close> keeps the slash, so that
  \<open><xsad sync=1/>\<close> is not true.
\<close>

definition feed :: "string \<Rightarrow> xparser" where
  "feed s = (XmlParser_new 1000)\<lparr>pbuf := s, inputEnd := length s\<rparr>"

lemma unquoted_value_keeps_slash:
  "map_option snd (XmlParser_getString ''b'' (snd (XmlParser_next (feed ''<a b=1/>'')))) = Some ''1/'' \<and>
   XmlParser_isTrue ''b'' (snd (XmlParser_next (feed ''<a b=1/>''))) = Some False \<and>
   XmlParser_isTrue ''b'' (snd (XmlParser_next (feed ''<a b=1>''))) = Some True"
  by code_simp

text \<open>Moving the data turns the null pointer of a flag into a pointer that is not null any more.\<close>

lemma moved_flag_is_wild:
  "(a, Null) \<in> set (attribute p) \<Longrightarrow> (shift_val (xp_name p) a, Wild) \<in> set (attribute (moveData old p))"
  by (force simp: moveData_def Let_def shift_val_def)

end
