(* ===== verification/Directory.thy ===== *)
theory Directory
  imports Msr_Parameter Std_Map Xml_Parser
begin

text \<open>
  \<open>msrproto/DirectoryNode.cpp\<close> and \<open>msrproto/HyperDirNode.cpp\<close>: the tree of names under which parameters and
  channels are found. Nodes point to their parent and to their children, and a node that shares its name
  with another is moved below a new one; so nodes live in a heap, whose free addresses start at
  \<open>dr_next\<close>.
\<close>

section \<open>Nodes\<close>

datatype nkind = DirN | HyperN | ParamN msr_param | ChanN channel

record dnode =
  dn_parent :: nat
  dn_name :: string
  dn_kind :: nkind
  dn_children :: "(string, nat) omap"

record dirs =
  dr_nodes :: "nat \<rightharpoonup> dnode"
  dr_next :: nat

definition children_of :: "dirs \<Rightarrow> nat \<Rightarrow> (string, nat) omap" where
  "children_of d n = (case dr_nodes d n of None \<Rightarrow> [] | Some nd \<Rightarrow> dn_children nd)"

definition child :: "dirs \<Rightarrow> nat \<Rightarrow> string \<Rightarrow> nat option" where
  "child d n nm = om_get (children_of d n) nm"

definition childCount :: "dirs \<Rightarrow> nat \<Rightarrow> nat" where
  "childCount d n = length (children_of d n)"

text \<open>A new node is its own parent until it is adopted.\<close>

definition new_node :: "nkind \<Rightarrow> dirs \<Rightarrow> nat \<times> dirs" where
  "new_node k d =
     (dr_next d, d\<lparr>dr_nodes := (dr_nodes d)(dr_next d \<mapsto> \<lparr>dn_parent = dr_next d, dn_name = [], dn_kind = k, dn_children = []\<rparr>),
                   dr_next := Suc (dr_next d)\<rparr>)"

definition DirectoryNode_rename :: "nat \<Rightarrow> string \<Rightarrow> nat \<Rightarrow> dirs \<Rightarrow> dirs" where
  "DirectoryNode_rename n nm parent d =
     d\<lparr>dr_nodes := (dr_nodes d)(n := map_option (\<lambda>nd. nd\<lparr>dn_parent := parent, dn_name := nm\<rparr>) (dr_nodes d n))\<rparr>"

definition DirectoryNode_adopt :: "nat \<Rightarrow> nat \<Rightarrow> string \<Rightarrow> dirs \<Rightarrow> dirs" where
  "DirectoryNode_adopt n c nm d =
     DirectoryNode_rename c nm n
       (d\<lparr>dr_nodes := (dr_nodes d)(n := map_option (\<lambda>nd. nd\<lparr>dn_children := om_put nm c (dn_children nd)\<rparr>) (dr_nodes d n))\<rparr>)"

definition DirectoryNode_new :: "nkind \<Rightarrow> nat \<Rightarrow> string \<Rightarrow> dirs \<Rightarrow> nat \<times> dirs" where
  "DirectoryNode_new k parent nm d = (let (n, d1) = new_node k d in (n, DirectoryNode_adopt parent n nm d1))"

definition HyperDirNode_insertLeaf :: "nat \<Rightarrow> nat \<Rightarrow> dirs \<Rightarrow> dirs" where
  "HyperDirNode_insertLeaf n c d = DirectoryNode_adopt n c (show_nat (childCount d n)) d"

text \<open>The virtual \<open>insertLeaf\<close>: a node that is not a \<open>HyperDirNode\<close> makes room by putting one in its place.\<close>

definition insertLeaf :: "nat \<Rightarrow> nat \<Rightarrow> dirs \<Rightarrow> dirs" where
  "insertLeaf n c d =
     (case dr_nodes d n of
        None \<Rightarrow> d
      | Some nd \<Rightarrow>
          if dn_kind nd = HyperN then HyperDirNode_insertLeaf n c d
          else let (h, d1) = DirectoryNode_new HyperN (dn_parent nd) (dn_name nd) d
               in HyperDirNode_insertLeaf h c (HyperDirNode_insertLeaf h n d1))"

definition DirectoryNode_create :: "nat \<Rightarrow> string \<Rightarrow> dirs \<Rightarrow> nat \<times> dirs" where
  "DirectoryNode_create n nm d =
     (case child d n nm of Some c \<Rightarrow> (c, d) | None \<Rightarrow> DirectoryNode_new DirN n nm d)"

definition DirectoryNode_insert :: "nat \<Rightarrow> nat \<Rightarrow> string \<Rightarrow> dirs \<Rightarrow> dirs" where
  "DirectoryNode_insert n c nm d =
     (case child d n nm of Some dir \<Rightarrow> insertLeaf dir c d | None \<Rightarrow> DirectoryNode_adopt n c nm d)"

text \<open>The queue of names must not be empty (\<open>None\<close>: \<open>front\<close> of an empty queue).\<close>

fun insertQ :: "nat \<Rightarrow> nat \<Rightarrow> string list \<Rightarrow> dirs \<Rightarrow> dirs option" where
  "insertQ n c [] d = None"
| "insertQ n c [nm] d = Some (DirectoryNode_insert n c nm d)"
| "insertQ n c (nm # nms) d = (let (n', d') = DirectoryNode_create n nm d in insertQ n' c nms d')"

section \<open>Paths\<close>

definition slash :: char where
  "slash = CHR ''/''"

text \<open>\<open>split\<close>: the name up to the next slash, and the text after all slashes that follow (\<open>None\<close>: \<open>npos\<close>).\<close>

definition split_path :: "string \<Rightarrow> string \<times> string option" where
  "split_path s =
     (takeWhile (\<lambda>c. c \<noteq> slash) s,
      if slash \<in> set s then Some (dropWhile (\<lambda>c. c = slash) (dropWhile (\<lambda>c. c \<noteq> slash) s)) else None)"

lemma split_path_shorter: "split_path s = (nm, Some r) \<Longrightarrow> length r < length s"
proof -
  assume a: "split_path s = (nm, Some r)"
  then have i: "slash \<in> set s" and r: "r = dropWhile (\<lambda>c. c = slash) (dropWhile (\<lambda>c. c \<noteq> slash) s)"
    by (auto simp: split_path_def split: if_splits)
  from i obtain xs ys where s: "s = xs @ slash # ys" "slash \<notin> set xs" by (meson split_list_first)
  then have "dropWhile (\<lambda>c. c \<noteq> slash) s = slash # ys" by (auto simp: dropWhile_append3)
  then have "r = dropWhile (\<lambda>c. c = slash) ys" using r by simp
  then show ?thesis using s(1) length_dropWhile_le [of "\<lambda>c. c = slash" ys] by simp
qed

function path_names :: "string option \<Rightarrow> string list" where
  "path_names None = []"
| "path_names (Some s) =
     (let (nm, rest) = split_path s in (if nm \<noteq> [] then [nm] else []) @ path_names rest)"
  by pat_completeness auto
termination
proof (relation "measure (\<lambda>x. case x of None \<Rightarrow> 0 | Some s \<Rightarrow> Suc (length s))")
  fix s :: string and x nm rest
  assume "x = split_path s" "(nm, rest) = x"
  then show "(rest, Some s) \<in> measure (\<lambda>x. case x of None \<Rightarrow> 0 | Some s \<Rightarrow> Suc (length s))"
    by (cases rest) (auto dest: split_path_shorter [OF sym])
qed simp

definition pathInsert :: "nat \<Rightarrow> nat \<Rightarrow> string \<Rightarrow> dirs \<Rightarrow> dirs option" where
  "pathInsert n c path d = insertQ n c (path_names (Some path)) d"

partial_function (option) DirectoryNode_path :: "dirs \<Rightarrow> nat \<Rightarrow> string option" where
  "DirectoryNode_path d n =
     (case dr_nodes d n of
        None \<Rightarrow> None
      | Some nd \<Rightarrow>
          if dn_parent nd = n then Some []
          else Option.bind (DirectoryNode_path d (dn_parent nd)) (\<lambda>s. Some (s @ slash # dn_name nd)))"

function DirectoryNode_find :: "dirs \<Rightarrow> nat \<Rightarrow> string \<Rightarrow> nat option" where
  "DirectoryNode_find d n s =
     (let (nm, rest) = split_path s
      in case child d n nm of
           None \<Rightarrow> None
         | Some c \<Rightarrow> (case rest of None \<Rightarrow> Some c | Some r \<Rightarrow> if r = [] then Some c else DirectoryNode_find d c r))"
  by pat_completeness auto
termination
  by (relation "measure (\<lambda>(d, n, s). length s)") (auto dest: split_path_shorter [OF sym])

declare DirectoryNode_find.simps [simp del] path_names.simps [simp del]

definition Server_find :: "dirs \<Rightarrow> nat \<Rightarrow> string \<Rightarrow> nat option" where
  "Server_find d root p = (if p = [] \<or> hd p \<noteq> slash then None else DirectoryNode_find d root (tl p))"

section \<open>Paths with attributes\<close>

text \<open>
  \<open>traditionalPathInsert\<close>: a name may carry an element such as \<open><hide=1>\<close>. \<open>None\<close>: an attribute whose
  value pointer is wild.
\<close>

definition parse_name :: "string \<Rightarrow> xparser option" where
  "parse_name nm =
     (let (b, p) = XmlParser_next (snd (XmlParser_read nm (XmlParser_new (bufIncrement * 1000)))) in if b then Some p else None)"

definition trim_end :: "string \<Rightarrow> string" where
  "trim_end s = rev (dropWhile ws (rev s))"

definition name_attrs :: "xparser \<Rightarrow> char \<times> char \<Rightarrow> (char \<times> char) option" where
  "name_attrs p hp =
     (case (XmlParser_isTrue ''hide'' p, XmlParser_isTrue ''unhide'' p, XmlParser_isTrue ''persistent'' p) of
        (Some hide, Some unhide, Some pers) \<Rightarrow>
          let h1 = (if hide then CHR 0x01
                    else case XmlParser_find ''hide'' p of
                           Some (At o') \<Rightarrow> (case cstr (pbuf p) o' of [] \<Rightarrow> CHR 0x00 | c # _ \<Rightarrow> c)
                         | _ \<Rightarrow> fst hp);
              h2 = (if unhide then CHR 0x00 else h1);
              pe = (if XmlParser_find ''persistent'' p \<noteq> None then (if pers then CHR 0x01 else CHR 0x00) else snd hp)
          in Some (h2, pe)
      | _ \<Rightarrow> None)"

fun trad_names :: "string list \<Rightarrow> char \<times> char \<Rightarrow> (string list \<times> char \<times> char) option" where
  "trad_names [] hp = Some ([], hp)"
| "trad_names (nm # nms) hp =
     (if CHR ''<'' \<in> set nm
      then case parse_name nm of
             None \<Rightarrow> map_option (\<lambda>(xs, r). (nm # xs, r)) (trad_names nms hp)
           | Some p \<Rightarrow>
               (case name_attrs p hp of
                  None \<Rightarrow> None
                | Some hp' \<Rightarrow>
                    let short = trim_end (takeWhile (\<lambda>c. c \<noteq> CHR ''<'') nm)
                    in map_option (\<lambda>(xs, r). ((if short \<noteq> [] then [short] else []) @ xs, r)) (trad_names nms hp'))
      else map_option (\<lambda>(xs, r). (nm # xs, r)) (trad_names nms hp))"

definition traditionalPathInsert :: "nat \<Rightarrow> nat \<Rightarrow> string \<Rightarrow> char \<Rightarrow> dirs \<Rightarrow> (dirs \<times> char \<times> char) option" where
  "traditionalPathInsert n c path persistent d =
     (case trad_names (path_names (Some path)) (CHR 0x00, persistent) of
        None \<Rightarrow> None
      | Some (nms, hp) \<Rightarrow> map_option (\<lambda>d'. (d', hp)) (insertQ n c nms d))"

section \<open>Listing\<close>

text \<open>
  The children of a node as elements: a visible parameter with its current value, a visible channel,
  or a directory. \<open>vals\<close> gives value and time of a main parameter, \<open>rate\<close> the task and the sample rate of
  a signal.
\<close>

definition list_child ::
  "(ctype \<Rightarrow> u8 list \<Rightarrow> string) \<Rightarrow> (nat \<Rightarrow> u8 list \<times> timespec) \<Rightarrow> (nat \<Rightarrow> nat \<times> nat \<times> string) \<Rightarrow> dirs \<Rightarrow> nat
     \<Rightarrow> string \<times> nat \<Rightarrow> xml_element \<Rightarrow> (xml_element \<times> string) option" where
  "list_child ff vals rate d n ent e =
     (let (x, e') = (\<lambda>nm. let (c, e', t) = createChild nm e in ((c, t), e')) (case map_option dn_kind (dr_nodes d (snd ent)) of
              Some (ParamN p) \<Rightarrow> ''parameter'' | Some (ChanN c) \<Rightarrow> ''channel'' | _ \<Rightarrow> ''dir'')
      in case (dr_nodes d (snd ent), DirectoryNode_path d (snd ent), DirectoryNode_path d n) of
           (Some nd, Some pth, Some here) \<Rightarrow>
             (case dn_kind nd of
                ParamN p \<Rightarrow>
                  if mv_hidden p then Some (e, [])
                  else map_option (\<lambda>(el, t). (e', snd x @ t @ XmlElement_delete el))
                    (Parameter_setXmlAttributes ff p pth (length (dn_children nd)) (Some (fst (vals (mp_main p)))) (snd (vals (mp_main p)))
                       False False (fst x))
              | ChanN c \<Rightarrow>
                  if mv_hidden c then Some (e, [])
                  else map_option (\<lambda>(el, t). (e', snd x @ t @ XmlElement_delete el))
                    (Channel_setXmlAttributes ff c pth (length (dn_children nd)) (fst (rate (ch_signal c)))
                       (fst (snd (rate (ch_signal c)))) (snd (snd (rate (ch_signal c)))) False None None (fst x))
              | _ \<Rightarrow> Some (e', snd x @ Attribute_escaped ''path'' (here @ slash # fst ent) @ XmlElement_delete (fst x)))
         | _ \<Rightarrow> None)"

fun list_children ::
  "(ctype \<Rightarrow> u8 list \<Rightarrow> string) \<Rightarrow> (nat \<Rightarrow> u8 list \<times> timespec) \<Rightarrow> (nat \<Rightarrow> nat \<times> nat \<times> string) \<Rightarrow> dirs \<Rightarrow> nat
     \<Rightarrow> (string, nat) omap \<Rightarrow> xml_element \<Rightarrow> (xml_element \<times> string) option" where
  "list_children ff vals rate d n [] e = Some (e, [])"
| "list_children ff vals rate d n (x # xs) e =
     (case list_child ff vals rate d n x e of
        None \<Rightarrow> None
      | Some (e', t) \<Rightarrow> map_option (\<lambda>(e'', ts). (e'', t @ ts)) (list_children ff vals rate d n xs e'))"

text \<open>\<open>list\<close> descends along the names of the path; an unknown name lists nothing.\<close>

fun list_at :: "dirs \<Rightarrow> nat \<Rightarrow> string list \<Rightarrow> nat option" where
  "list_at d n [] = Some n"
| "list_at d n (nm # nms) = (case child d n nm of None \<Rightarrow> None | Some c \<Rightarrow> list_at d c nms)"

definition DirectoryNode_list ::
  "(ctype \<Rightarrow> u8 list \<Rightarrow> string) \<Rightarrow> (nat \<Rightarrow> u8 list \<times> timespec) \<Rightarrow> (nat \<Rightarrow> nat \<times> nat \<times> string) \<Rightarrow> dirs \<Rightarrow> nat
     \<Rightarrow> string \<Rightarrow> xml_element \<Rightarrow> (xml_element \<times> string) option" where
  "DirectoryNode_list ff vals rate d n path e =
     (case list_at d n (path_names (Some path)) of
        None \<Rightarrow> Some (e, [])
      | Some m \<Rightarrow> list_children ff vals rate d m (children_of d m) e)"

section \<open>Invariant\<close>

definition dname_ok :: "string \<Rightarrow> bool" where
  "dname_ok nm \<longleftrightarrow> nm \<noteq> [] \<and> slash \<notin> set nm"

inductive anchored :: "dirs \<Rightarrow> nat \<Rightarrow> nat \<Rightarrow> bool" for d root where
  root: "anchored d root root"
| step: "dr_nodes d c = Some cd \<Longrightarrow> dn_parent cd \<noteq> c \<Longrightarrow> anchored d root (dn_parent cd) \<Longrightarrow> anchored d root c"

definition dir_inv :: "dirs \<Rightarrow> nat \<Rightarrow> bool" where
  "dir_inv d root \<longleftrightarrow>
     (\<exists>r. dr_nodes d root = Some r \<and> dn_parent r = root)
     \<and> (\<forall>n nm c. child d n nm = Some c \<longrightarrow> c \<noteq> root \<and> c \<noteq> n \<and> dname_ok nm
          \<and> (\<exists>cd. dr_nodes d c = Some cd \<and> dn_parent cd = n \<and> dn_name cd = nm))
     \<and> (\<forall>c cd. dr_nodes d c = Some cd \<longrightarrow> dn_parent cd \<noteq> c \<longrightarrow> child d (dn_parent cd) (dn_name cd) = Some c \<and> anchored d root c)
     \<and> (\<forall>c. dr_next d \<le> c \<longrightarrow> dr_nodes d c = None)"

lemma dir_invD:
  assumes "dir_inv d root"
  shows "\<exists>r. dr_nodes d root = Some r \<and> dn_parent r = root"
    and "child d n nm = Some c \<Longrightarrow> c \<noteq> root \<and> c \<noteq> n \<and> dname_ok nm
          \<and> (\<exists>cd. dr_nodes d c = Some cd \<and> dn_parent cd = n \<and> dn_name cd = nm)"
    and "dr_nodes d c = Some cd \<Longrightarrow> dn_parent cd \<noteq> c \<Longrightarrow> child d (dn_parent cd) (dn_name cd) = Some c \<and> anchored d root c"
    and "dr_next d \<le> c \<Longrightarrow> dr_nodes d c = None"
  using assms unfolding dir_inv_def by blast+

text \<open>A node that was created and not yet adopted.\<close>

definition floating :: "dirs \<Rightarrow> nat \<Rightarrow> nat \<Rightarrow> bool" where
  "floating d root c \<longleftrightarrow> c \<noteq> root \<and> (\<exists>cd. dr_nodes d c = Some cd \<and> dn_parent cd = c \<and> dn_children cd = [])"

lemma child_nodes: "dr_nodes d n = Some nd \<Longrightarrow> child d n nm = om_get (dn_children nd) nm"
  by (simp add: child_def children_of_def)

lemma anchored_node: "dir_inv d root \<Longrightarrow> anchored d root n \<Longrightarrow> \<exists>nd. dr_nodes d n = Some nd"
  by (erule anchored.cases) (auto dest: dir_invD(1))

lemma adopt_nodes:
  assumes "dr_nodes d n = Some nd" and "dr_nodes d c = Some cd" and "n \<noteq> c"
  shows "dr_nodes (DirectoryNode_adopt n c nm d)
    = (dr_nodes d)(n \<mapsto> nd\<lparr>dn_children := om_put nm c (dn_children nd)\<rparr>, c \<mapsto> cd\<lparr>dn_parent := n, dn_name := nm\<rparr>)"
    "dr_next (DirectoryNode_adopt n c nm d) = dr_next d"
  using assms by (auto simp: DirectoryNode_adopt_def DirectoryNode_rename_def fun_eq_iff)

lemma not_floating_anchored: "floating d root c \<Longrightarrow> anchored d root n \<Longrightarrow> n \<noteq> c"
  by (auto simp: floating_def elim: anchored.cases)

lemma attach_inv:
  assumes inv: "dir_inv d root" and n: "anchored d root n" and c: "floating d root c" and nm: "dname_ok nm" "child d n nm = None"
  shows "dir_inv (DirectoryNode_adopt n c nm d) root" and "\<And>x. anchored d root x \<Longrightarrow> anchored (DirectoryNode_adopt n c nm d) root x"
    and "anchored (DirectoryNode_adopt n c nm d) root c"
    and "child (DirectoryNode_adopt n c nm d) k s = (if k = n \<and> s = nm then Some c else child d k s)"
    and "\<And>x. floating d root x \<Longrightarrow> x \<noteq> c \<Longrightarrow> floating (DirectoryNode_adopt n c nm d) root x"
proof -
  let ?d = "DirectoryNode_adopt n c nm d"
  note i = dir_invD [OF inv]
  have nc: "n \<noteq> c" using not_floating_anchored [OF c n] .
  obtain nd where nd: "dr_nodes d n = Some nd" using anchored_node [OF inv n] by blast
  obtain cd where cd: "dr_nodes d c = Some cd" "dn_parent cd = c" "dn_children cd = []" "c \<noteq> root" using c by (auto simp: floating_def)
  note a = adopt_nodes [OF nd cd(1) nc, of nm]
  have ch: "child ?d k s = (if k = n \<and> s = nm then Some c else child d k s)" for k s
    using nd cd nc by (auto simp: child_def children_of_def a)
  then show "child ?d k s = (if k = n \<and> s = nm then Some c else child d k s)" .
  have par: "\<exists>xd'. dr_nodes ?d x = Some xd' \<and> dn_parent xd' = (if x = c then n else dn_parent xd) \<and> dn_name xd' = (if x = c then nm else dn_name xd)"
    if "dr_nodes d x = Some xd" for x xd
    using that nd nc cd by (auto simp: a)
  show anc: "anchored ?d root x" if "anchored d root x" for x
    using that
  proof (induction rule: anchored.induct)
    case root
    then show ?case by (rule anchored.root)
  next
    case (step x xd)
    then have "x \<noteq> c" using cd by auto
    with par [OF step(1)] obtain xd' where "dr_nodes ?d x = Some xd'" "dn_parent xd' = dn_parent xd" by auto
    then show ?case using step by (auto intro: anchored.step)
  qed
  show cn: "anchored ?d root c" using anc [OF n] nc by (intro anchored.step [of _ c]) (auto simp: a)
  show "floating ?d root x" if "floating d root x" "x \<noteq> c" for x
    using that not_floating_anchored [OF that(1) n] by (auto simp: floating_def a)
  have noc: "child d k s \<noteq> Some c" for k s using i(2) [of k s c] cd(1,2) by auto
  show "dir_inv ?d root"
    unfolding dir_inv_def
  proof (intro conjI allI impI)
    show "\<exists>r. dr_nodes ?d root = Some r \<and> dn_parent r = root" using i(1) par cd(4) by fastforce
  next
    fix k s x assume x: "child ?d k s = Some x"
    have "x \<noteq> root \<and> x \<noteq> k \<and> dname_ok s \<and> (\<exists>xd. dr_nodes ?d x = Some xd \<and> dn_parent xd = k \<and> dn_name xd = s)"
    proof (cases "k = n \<and> s = nm")
      case True
      then have "x = c" using x ch by simp
      with True show ?thesis using cd nc nm(1) by (auto simp: a)
    next
      case False
      then have o: "child d k s = Some x" using x ch by (auto split: if_splits)
      from i(2) [OF o] obtain xd where xd: "x \<noteq> root" "x \<noteq> k" "dname_ok s" "dr_nodes d x = Some xd" "dn_parent xd = k" "dn_name xd = s" by blast
      have "x \<noteq> c" using o noc by auto
      with par [OF xd(4)] xd show ?thesis by auto
    qed
    then show "x \<noteq> root" "x \<noteq> k" "dname_ok s" "\<exists>xd. dr_nodes ?d x = Some xd \<and> dn_parent xd = k \<and> dn_name xd = s" by blast+
  next
    fix x xd assume x: "dr_nodes ?d x = Some xd" "dn_parent xd \<noteq> x"
    show "child ?d (dn_parent xd) (dn_name xd) = Some x" "anchored ?d root x"
    proof -
      have "child ?d (dn_parent xd) (dn_name xd) = Some x \<and> anchored ?d root x"
      proof (cases "x = c")
        case True
        then show ?thesis using x(1) cn ch nc by (auto simp: a)
      next
        case False
        then obtain xd0 where x0: "dr_nodes d x = Some xd0" "dn_parent xd0 = dn_parent xd" "dn_name xd0 = dn_name xd"
          using x(1) nd nc by (auto simp: a split: if_splits)
        with i(3) [OF x0(1)] x(2) anc nm(2) ch show ?thesis by auto
      qed
      then show "child ?d (dn_parent xd) (dn_name xd) = Some x" "anchored ?d root x" by auto
    qed
  next
    fix x assume "dr_next ?d \<le> x"
    then show "dr_nodes ?d x = None" using i(4) nd cd by (auto simp: a)
  qed
qed

lemma dname_ok_show_nat [simp]: "dname_ok (show_nat k)"
  using show_nat_digits [of k] by (auto simp: dname_ok_def list_all_iff slash_def is_digit_def)

lemma new_node_inv:
  assumes inv: "dir_inv d root" and "new_node k d = (c, d')"
  shows "dir_inv d' root" and "floating d' root c" and "\<And>x. anchored d root x \<Longrightarrow> anchored d' root x"
    and "child d' n s = child d n s" and "\<And>x. floating d root x \<Longrightarrow> floating d' root x \<and> x \<noteq> c"
    and "dr_nodes d c = None" and "dr_nodes d' = (dr_nodes d)(c \<mapsto> \<lparr>dn_parent = c, dn_name = [], dn_kind = k, dn_children = []\<rparr>)"
    and "dr_next d' = Suc (dr_next d)" and "c = dr_next d"
proof -
  note i = dir_invD [OF inv]
  have c: "c = dr_next d" "d' = d\<lparr>dr_nodes := (dr_nodes d)(c \<mapsto> \<lparr>dn_parent = c, dn_name = [], dn_kind = k, dn_children = []\<rparr>), dr_next := Suc (dr_next d)\<rparr>"
    using assms(2) by (auto simp: new_node_def)
  show fr: "dr_nodes d c = None" using i(4) c by simp
  have ch: "child d' n s = child d n s" for n s using fr c by (simp add: child_def children_of_def)
  show "child d' n s = child d n s" by (rule ch)
  show nodes: "dr_nodes d' = (dr_nodes d)(c \<mapsto> \<lparr>dn_parent = c, dn_name = [], dn_kind = k, dn_children = []\<rparr>)" using c by simp
  show "dr_next d' = Suc (dr_next d)" "c = dr_next d" using c by simp_all
  have rc: "root \<noteq> c" using i(1) fr by auto
  show anc: "anchored d' root x" if "anchored d root x" for x
    using that
  proof (induction rule: anchored.induct)
    case (step x xd)
    then have "x \<noteq> c" using fr by auto
    with step show ?case by (auto intro: anchored.step simp: nodes)
  qed (rule anchored.root)
  show "floating d' root c" using rc by (simp add: floating_def nodes)
  show "floating d' root x \<and> x \<noteq> c" if "floating d root x" for x using that fr by (auto simp: floating_def nodes)
  show "dir_inv d' root"
    unfolding dir_inv_def
  proof (intro conjI allI impI)
    show "\<exists>r. dr_nodes d' root = Some r \<and> dn_parent r = root" using i(1) rc by (simp add: nodes)
  next
    fix n s x assume "child d' n s = Some x"
    then have x: "child d n s = Some x" using ch by simp
    from i(2) [OF x] fr have "x \<noteq> c" by auto
    with i(2) [OF x] show "x \<noteq> root" "x \<noteq> n" "dname_ok s" "\<exists>xd. dr_nodes d' x = Some xd \<and> dn_parent xd = n \<and> dn_name xd = s" by (simp_all add: nodes)
  next
    fix x xd assume "dr_nodes d' x = Some xd" "dn_parent xd \<noteq> x"
    then have x: "dr_nodes d x = Some xd" "dn_parent xd \<noteq> x" by (auto simp: nodes split: if_splits)
    show "child d' (dn_parent xd) (dn_name xd) = Some x" "anchored d' root x" using i(3) [OF x] ch anc by auto
  next
    fix x assume "dr_next d' \<le> x"
    then show "dr_nodes d' x = None" using i(4) c by simp
  qed
qed

text \<open>A hyper node takes the place of \<open>n\<close>, which becomes its first child.\<close>

lemma interpose_inv:
  assumes inv: "dir_inv d root" and n: "dr_nodes d n = Some nd" "dn_parent nd = p" "p \<noteq> n" "dn_name nd = nm"
    and d1: "DirectoryNode_new HyperN p nm d = (h, d1)" and d2: "d2 = HyperDirNode_insertLeaf h n d1"
  shows "dir_inv d2 root" and "\<And>x. anchored d root x \<Longrightarrow> anchored d2 root x" and "anchored d2 root h"
    and "child d2 k s = (if k = h then (if s = show_nat 0 then Some n else None) else if k = p \<and> s = nm then Some h else child d k s)"
    and "childCount d2 h = 1" and "\<And>x. floating d root x \<Longrightarrow> floating d2 root x" and "h \<noteq> p"
proof -
  note i = dir_invD [OF inv]
  obtain d0 where d0: "new_node HyperN d = (h, d0)" "d1 = DirectoryNode_adopt p h nm d0"
    using d1 by (auto simp: DirectoryNode_new_def split: prod.splits)
  note w = new_node_inv [OF inv d0(1)]
  have at: "child d p nm = Some n" "anchored d root n" using i(3) [OF n(1)] n by auto
  then obtain pd where pd: "dr_nodes d p = Some pd" by (auto simp: child_def children_of_def split: option.splits)
  have hp: "h \<noteq> p" "h \<noteq> n" "h \<noteq> root" using w(6) pd n(1) i(1) by auto
  then show "h \<noteq> p" by blast
  have rn: "root \<noteq> n" using i(1) n by auto
  have n1: "dr_nodes d1 = (dr_nodes d)(h \<mapsto> \<lparr>dn_parent = p, dn_name = nm, dn_kind = HyperN, dn_children = []\<rparr>,
      p \<mapsto> pd\<lparr>dn_children := om_put nm h (dn_children pd)\<rparr>)"
    using adopt_nodes(1) [of d0 p pd h _ nm] hp pd by (simp add: d0(2) w(7) fun_upd_twist)
  have x1: "dr_next d1 = Suc (dr_next d)"
    using adopt_nodes(2) [of d0 p pd h _ nm] hp pd by (simp add: d0(2) w(7,8))
  have c0: "childCount d1 h = 0" using hp by (simp add: childCount_def children_of_def n1)
  have n2: "dr_nodes d2 = (dr_nodes d)(h \<mapsto> \<lparr>dn_parent = p, dn_name = nm, dn_kind = HyperN, dn_children = [(show_nat 0, n)]\<rparr>,
      p \<mapsto> pd\<lparr>dn_children := om_put nm h (dn_children pd)\<rparr>, n \<mapsto> nd\<lparr>dn_parent := h, dn_name := show_nat 0\<rparr>)"
    using adopt_nodes(1) [of d1 h _ n nd "show_nat 0"] hp n by (simp add: d2 HyperDirNode_insertLeaf_def c0 n1 fun_upd_twist)
  have x2: "dr_next d2 = Suc (dr_next d)"
    using adopt_nodes(2) [of d1 h _ n nd "show_nat 0"] hp n by (simp add: d2 HyperDirNode_insertLeaf_def c0 n1 x1)
  have hn: "child d h s = None" for s using w(6) by (simp add: child_def children_of_def)
  have ch: "child d2 k s = (if k = h then (if s = show_nat 0 then Some n else None) else if k = p \<and> s = nm then Some h else child d k s)" for k s
    using hp n pd by (auto simp: child_def children_of_def n2 om_get_def [of "[_]"])
  then show "child d2 k s = (if k = h then (if s = show_nat 0 then Some n else None) else if k = p \<and> s = nm then Some h else child d k s)" .
  show "childCount d2 h = 1" using hp by (simp add: childCount_def children_of_def n2)
  have par: "\<exists>xd'. dr_nodes d2 x = Some xd' \<and> dn_parent xd' = (if x = n then h else dn_parent xd) \<and> dn_name xd' = (if x = n then show_nat 0 else dn_name xd)"
    if "dr_nodes d x = Some xd" for x xd
    using that hp n(3) pd w(6) by (auto simp: n2)
  have step_h: "anchored d2 root p \<Longrightarrow> anchored d2 root h"
    using hp n(3) by (intro anchored.step [of _ h]) (auto simp: n2)
  have step_n: "anchored d2 root h \<Longrightarrow> anchored d2 root n"
    using hp by (intro anchored.step [of _ n]) (auto simp: n2)
  show anc: "anchored d2 root x" if "anchored d root x" for x
    using that
  proof (induction rule: anchored.induct)
    case (step x xd)
    show ?case
    proof (cases "x = n")
      case True
      then show ?thesis using step n step_h step_n by auto
    next
      case False
      with par [OF step(1)] obtain xd' where "dr_nodes d2 x = Some xd'" "dn_parent xd' = dn_parent xd" by auto
      then show ?thesis using step by (auto intro: anchored.step)
    qed
  qed (rule anchored.root)
  have "anchored d root p" using at(2) n rn by (auto elim: anchored.cases)
  then show hh: "anchored d2 root h" using anc step_h by blast
  show "floating d2 root x" if "floating d root x" for x
  proof -
    have "x \<noteq> h" "x \<noteq> n" "x \<noteq> p" using that w(5) n not_floating_anchored [OF that \<open>anchored d root p\<close>] by (auto simp: floating_def)
    with that show ?thesis by (simp add: floating_def n2)
  qed
  show "dir_inv d2 root"
    unfolding dir_inv_def
  proof (intro conjI allI impI)
    obtain r where "dr_nodes d root = Some r" "dn_parent r = root" using i(1) by blast
    then show "\<exists>r. dr_nodes d2 root = Some r \<and> dn_parent r = root" using par rn by fastforce
  next
    fix k s x assume x: "child d2 k s = Some x"
    have "x \<noteq> root \<and> x \<noteq> k \<and> dname_ok s \<and> (\<exists>xd. dr_nodes d2 x = Some xd \<and> dn_parent xd = k \<and> dn_name xd = s)"
    proof (cases "k = h")
      case True
      then have "x = n" "s = show_nat 0" using x ch by (auto split: if_splits)
      then show ?thesis using True hp rn by (auto simp: n2)
    next
      case kh: False
      show ?thesis
      proof (cases "k = p \<and> s = nm")
        case True
        then have "x = h" using x ch kh by simp
        then show ?thesis using True hp n(3) i(2) [OF at(1)] by (auto simp: n2)
      next
        case False
        then have o: "child d k s = Some x" using x ch kh by (auto split: if_splits)
        from i(2) [OF o] obtain xd where xd: "x \<noteq> root" "x \<noteq> k" "dname_ok s" "dr_nodes d x = Some xd" "dn_parent xd = k" "dn_name xd = s" by blast
        have "x \<noteq> n" using xd n False by auto
        with par [OF xd(4)] xd show ?thesis by auto
      qed
    qed
    then show "x \<noteq> root" "x \<noteq> k" "dname_ok s" "\<exists>xd. dr_nodes d2 x = Some xd \<and> dn_parent xd = k \<and> dn_name xd = s" by blast+
  next
    fix x xd assume x: "dr_nodes d2 x = Some xd" "dn_parent xd \<noteq> x"
    have "child d2 (dn_parent xd) (dn_name xd) = Some x \<and> anchored d2 root x"
    proof -
      consider "x = h" | "x = n" | "x \<noteq> h" "x \<noteq> n" by blast
      then show ?thesis
      proof cases
        case 1
        then show ?thesis using x(1) ch hh hp n(3) by (auto simp: n2)
      next
        case 2
        then show ?thesis using x(1) ch step_n hh hp by (auto simp: n2)
      next
        case 3
        then obtain xd0 where x0: "dr_nodes d x = Some xd0" "dn_parent xd0 = dn_parent xd" "dn_name xd0 = dn_name xd"
          using x(1) pd by (auto simp: n2 split: if_splits)
        have c: "child d (dn_parent xd) (dn_name xd) = Some x" "anchored d root x" using i(3) [OF x0(1)] x0 x(2) by auto
        have "\<not> (dn_parent xd = p \<and> dn_name xd = nm)" using c(1) at(1) 3 by auto
        moreover have "dn_parent xd \<noteq> h" using c(1) hn by auto
        ultimately show ?thesis using c ch anc by auto
      qed
    qed
    then show "child d2 (dn_parent xd) (dn_name xd) = Some x" "anchored d2 root x" by blast+
  next
    fix x assume "dr_next d2 \<le> x"
    then show "dr_nodes d2 x = None" using i(4) x2 w(9) n(1) pd by (auto simp: n2)
  qed
qed

section \<open>Insertion\<close>

text \<open>
  A hyper node numbers its leaves by counting its children; the number must not be in use as a name.
\<close>

definition leaf_free :: "dirs \<Rightarrow> nat \<Rightarrow> bool" where
  "leaf_free d n \<longleftrightarrow>
     (case dr_nodes d n of Some nd \<Rightarrow> dn_kind nd = HyperN \<longrightarrow> child d n (show_nat (childCount d n)) = None | None \<Rightarrow> True)"

fun slot_free :: "dirs \<Rightarrow> nat \<Rightarrow> string list \<Rightarrow> bool" where
  "slot_free d n [] = True"
| "slot_free d n [nm] = (case child d n nm of Some c \<Rightarrow> leaf_free d c | None \<Rightarrow> True)"
| "slot_free d n (nm # nms) = (case child d n nm of Some c \<Rightarrow> slot_free d c nms | None \<Rightarrow> True)"

definition grows :: "dirs \<Rightarrow> dirs \<Rightarrow> nat \<Rightarrow> nat \<Rightarrow> bool" where
  "grows d d' root c \<longleftrightarrow> dir_inv d' root \<and> (\<forall>x. anchored d root x \<longrightarrow> anchored d' root x) \<and> anchored d' root c"

lemma child_anchored:
  assumes "dir_inv d root" and "child d n nm = Some c"
  shows "anchored d root c" and "\<exists>cd. dr_nodes d c = Some cd \<and> dn_parent cd = n \<and> n \<noteq> c \<and> dn_name cd = nm"
proof -
  from dir_invD(2) [OF assms] obtain cd where cd: "c \<noteq> n" "dr_nodes d c = Some cd" "dn_parent cd = n" "dn_name cd = nm" by blast
  then show "\<exists>cd. dr_nodes d c = Some cd \<and> dn_parent cd = n \<and> n \<noteq> c \<and> dn_name cd = nm" by blast
  show "anchored d root c" using dir_invD(3) [OF assms(1) cd(2)] cd by auto
qed

lemma insert_grows:
  assumes inv: "dir_inv d root" and n: "anchored d root n" and c: "floating d root c" and nm: "dname_ok nm" and free: "slot_free d n [nm]"
  shows "grows d (DirectoryNode_insert n c nm d) root c"
proof (cases "child d n nm")
  case None
  then show ?thesis using attach_inv [OF inv n c nm None] by (simp add: DirectoryNode_insert_def grows_def)
next
  case (Some t)
  obtain td where td: "dr_nodes d t = Some td" "dn_parent td = n" "n \<noteq> t" "dn_name td = nm" and tA: "anchored d root t"
    using child_anchored [OF inv Some] by blast
  show ?thesis
  proof (cases "dn_kind td = HyperN")
    case True
    then have "child d t (show_nat (childCount d t)) = None" using free Some td by (simp add: leaf_free_def)
    from attach_inv [OF inv tA c dname_ok_show_nat this] show ?thesis
      using True td Some by (simp add: DirectoryNode_insert_def insertLeaf_def HyperDirNode_insertLeaf_def grows_def)
  next
    case False
    obtain h d1 where d1: "DirectoryNode_new HyperN n nm d = (h, d1)" by fastforce
    define d2 where "d2 = HyperDirNode_insertLeaf h t d1"
    note p = interpose_inv [OF inv td d1 d2_def]
    have "child d2 h (show_nat (childCount d2 h)) = None" by (simp add: p(4,5))
    from attach_inv [OF p(1) p(3) p(6) [OF c] dname_ok_show_nat this] p(2)
    have "grows d (HyperDirNode_insertLeaf h c d2) root c" by (simp add: grows_def HyperDirNode_insertLeaf_def)
    then show ?thesis using False td Some d1 by (simp add: DirectoryNode_insert_def insertLeaf_def d2_def)
  qed
qed

lemma fresh_slot_free: "children_of d n = [] \<Longrightarrow> slot_free d n nms"
  by (cases "(d, n, nms)" rule: slot_free.cases) (auto simp: child_def)

lemma insertQ_grows:
  assumes "dir_inv d root" and "anchored d root n" and "floating d root c" and "list_all dname_ok nms" and "nms \<noteq> []" and "slot_free d n nms"
  shows "\<exists>d'. insertQ n c nms d = Some d' \<and> grows d d' root c"
  using assms
proof (induction n c nms d rule: insertQ.induct)
  case (2 n c nm d)
  then show ?case using insert_grows [of d root n c nm] by simp
next
  case (3 n c nm nm' nms d)
  show ?case
  proof (cases "child d n nm")
    case (Some t)
    then have "DirectoryNode_create n nm d = (t, d)" by (simp add: DirectoryNode_create_def)
    moreover have "anchored d root t" using child_anchored [OF 3(2) Some] by simp
    ultimately show ?thesis using 3 Some by (auto simp: Let_def)
  next
    case None
    obtain t d0 where d0: "new_node DirN d = (t, d0)" by fastforce
    define d1 where "d1 = DirectoryNode_adopt n t nm d0"
    have cr: "DirectoryNode_create n nm d = (t, d1)" using None d0 by (simp add: DirectoryNode_create_def DirectoryNode_new_def d1_def)
    note w = new_node_inv [OF 3(2) d0]
    have nA: "anchored d0 root n" using w(3) 3(3) by blast
    have nmok: "dname_ok nm" using 3(5) by simp
    have "child d0 n nm = None" using w(4) None by simp
    note a = attach_inv [OF w(1) nA w(2) nmok this, folded d1_def]
    have tn: "n \<noteq> t" using not_floating_anchored [OF w(2) nA] .
    have "children_of d1 t = []"
      using adopt_nodes(1) [of d0 n _ t _ nm] anchored_node [OF w(1) nA] tn w(7) by (auto simp: d1_def children_of_def)
    then have sf: "slot_free d1 t (nm' # nms)" by (rule fresh_slot_free)
    have fc: "floating d1 root c" using a(5) w(5) 3(4) by blast
    have "\<exists>d'. insertQ t c (nm' # nms) d1 = Some d' \<and> grows d1 d' root c"
      by (rule 3(1) [OF cr [symmetric] refl a(1) a(3) fc _ _ sf]) (use 3(5) in auto)
    then show ?thesis using cr w(3) a(2) by (auto simp: grows_def)
  qed
qed simp

section \<open>Paths and lookup\<close>

lemma find_join:
  assumes "list_all dname_ok nms" and "nms \<noteq> []"
  shows "DirectoryNode_find d n (tl (concat (map (\<lambda>nm. slash # nm) nms))) = list_at d n nms"
  using assms
proof (induction nms arbitrary: n)
  case (Cons nm nms)
  have ok: "nm \<noteq> []" "slash \<notin> set nm" using Cons.prems by (auto simp: dname_ok_def)
  then have tw: "takeWhile (\<lambda>c. c \<noteq> slash) nm = nm" "dropWhile (\<lambda>c. c \<noteq> slash) nm = []" by (auto simp: takeWhile_eq_all_conv)
  have sp: "split_path nm = (nm, None)" using ok tw by (simp only: split_path_def if_False)
  show ?case
  proof (cases nms)
    case Nil
    then show ?thesis by (simp add: DirectoryNode_find.simps sp split: option.splits)
  next
    case (Cons nm' nms')
    let ?r = "tl (concat (map (\<lambda>nm. slash # nm) nms))"
    have ok': "nm' \<noteq> []" "slash \<notin> set nm'" using Cons.prems Cons by (auto simp: dname_ok_def)
    have r: "concat (map (\<lambda>nm. slash # nm) nms) = slash # ?r" "?r \<noteq> []" using Cons ok' by auto
    have dr: "dropWhile (\<lambda>c. c = slash) ?r = ?r" using Cons ok' by (cases nm') auto
    have "split_path (nm @ slash # ?r) = (nm, Some ?r)"
      using ok tw dr by (auto simp: split_path_def takeWhile_append dropWhile_append)
    moreover have "tl (concat (map (\<lambda>nm. slash # nm) (nm # nms))) = nm @ slash # ?r" using r by simp
    ultimately show ?thesis using Cons.IH Cons.prems Cons r(2) ok'(1)
      by (subst DirectoryNode_find.simps) (auto split: option.splits)
  qed
qed simp

lemma list_at_append: "list_at d n (xs @ ys) = Option.bind (list_at d n xs) (\<lambda>m. list_at d m ys)"
  by (induction d n xs rule: list_at.induct) (auto split: option.splits)

lemma anchored_path:
  assumes inv: "dir_inv d root" and "anchored d root c"
  shows "\<exists>nms. DirectoryNode_path d c = Some (concat (map (\<lambda>nm. slash # nm) nms)) \<and> list_all dname_ok nms
    \<and> list_at d root nms = Some c \<and> (nms = [] \<longleftrightarrow> c = root)"
  using assms(2)
proof (induction rule: anchored.induct)
  case root
  obtain r where "dr_nodes d root = Some r" "dn_parent r = root" using dir_invD(1) [OF inv] by blast
  then show ?case by (intro exI [of _ "[]"]) (subst DirectoryNode_path.simps, simp)
next
  case (step c cd)
  then obtain nms where p: "DirectoryNode_path d (dn_parent cd) = Some (concat (map (\<lambda>nm. slash # nm) nms))" "list_all dname_ok nms"
      "list_at d root nms = Some (dn_parent cd)" by blast
  have ch: "child d (dn_parent cd) (dn_name cd) = Some c" using dir_invD(3) [OF inv step(1)] step(2) by blast
  from dir_invD(2) [OF inv ch] have "dname_ok (dn_name cd)" "c \<noteq> root" by auto
  then show ?case using p step(1,2) ch
    by (intro exI [of _ "nms @ [dn_name cd]"]) (subst DirectoryNode_path.simps, simp add: list_at_append)
qed

lemma path_found:
  assumes "dir_inv d root" and "anchored d root c" and "c \<noteq> root"
  shows "\<exists>s. DirectoryNode_path d c = Some s \<and> Server_find d root s = Some c"
proof -
  obtain nms where n: "DirectoryNode_path d c = Some (concat (map (\<lambda>nm. slash # nm) nms))" "list_all dname_ok nms"
    "list_at d root nms = Some c" "nms \<noteq> []" using anchored_path [OF assms(1,2)] assms(3) by auto
  then have "Server_find d root (concat (map (\<lambda>nm. slash # nm) nms)) = Some c"
    using find_join [OF n(2,4)] by (cases nms) (auto simp: Server_find_def)
  with n(1) show ?thesis by blast
qed

lemma path_names_ok: "list_all dname_ok (path_names s)"
proof (induction s rule: path_names.induct)
  case (2 s)
  obtain nm rest where s: "split_path s = (nm, rest)" by fastforce
  then have "slash \<notin> set nm" by (auto simp: split_path_def dest: set_takeWhileD)
  then have "nm = [] \<or> dname_ok nm" by (auto simp: dname_ok_def)
  with s 2 [OF s [symmetric] refl] show ?case by (subst path_names.simps) auto
qed (simp add: path_names.simps)

section \<open>Directories that the server builds\<close>

text \<open>
  The server starts with an empty root, creates directories and inserts variables below a directory of
  the tree. \<open>V\<close> collects the variables, \<open>N\<close> the names used, and \<open>ok\<close> says that no insertion so far met an occupied slot: that
  the number a hyper node gave to a new leaf was always free. \<open>hyper_leaf_lost\<close> shows what happens otherwise.
\<close>

inductive dir_reach :: "nat \<Rightarrow> dirs \<Rightarrow> nat set \<Rightarrow> string set \<Rightarrow> bool \<Rightarrow> bool" for root where
  start: "new_node DirN \<lparr>dr_nodes = Map.empty, dr_next = root\<rparr> = (root, d) \<Longrightarrow> dir_reach root d {} {} True"
| directory: "dir_reach root d V N ok \<Longrightarrow> list_at d root nms = Some n \<Longrightarrow> dname_ok nm
    \<Longrightarrow> DirectoryNode_create n nm d = (m, d') \<Longrightarrow> dir_reach root d' V (insert nm N) ok"
| variable: "dir_reach root d V N ok \<Longrightarrow> new_node k d = (c, d1) \<Longrightarrow> list_at d1 root nms = Some n
    \<Longrightarrow> pathInsert n c p d1 = Some d2
    \<Longrightarrow> dir_reach root d2 (insert c V) (set (path_names (Some p)) \<union> N) (ok \<and> slot_free d1 n (path_names (Some p)))"
| traditional: "dir_reach root d V N ok \<Longrightarrow> new_node k d = (c, d1) \<Longrightarrow> list_at d1 root nms = Some n
    \<Longrightarrow> trad_names (path_names (Some p)) (CHR 0x00, pe) = Some (qs, hp) \<Longrightarrow> traditionalPathInsert n c p pe d1 = Some (d2, hp)
    \<Longrightarrow> dir_reach root d2 (insert c V) (set qs \<union> N) (ok \<and> slot_free d1 n qs)"

lemma list_at_anchored: "dir_inv d root \<Longrightarrow> anchored d root n \<Longrightarrow> list_at d n nms = Some m \<Longrightarrow> anchored d root m"
  by (induction d n nms rule: list_at.induct) (auto split: option.splits dest: child_anchored)

lemma trim_end_subset: "set (trim_end s) \<subseteq> set s"
  using set_dropWhileD [of _ ws "rev s"] by (auto simp: trim_end_def)

lemma trad_names_ok: "list_all dname_ok nms \<Longrightarrow> trad_names nms hp = Some (qs, r) \<Longrightarrow> list_all dname_ok qs"
proof (induction nms hp arbitrary: qs r rule: trad_names.induct)
  case (2 nm nms hp)
  have "slash \<notin> set (trim_end (takeWhile (\<lambda>c. c \<noteq> CHR ''<'') nm))"
    using 2(4) trim_end_subset [of "takeWhile (\<lambda>c. c \<noteq> CHR ''<'') nm"] by (auto simp: dname_ok_def dest: set_takeWhileD)
  then have short: "trim_end (takeWhile (\<lambda>c. c \<noteq> CHR ''<'') nm) = [] \<or> dname_ok (trim_end (takeWhile (\<lambda>c. c \<noteq> CHR ''<'') nm))"
    by (auto simp: dname_ok_def)
  have ok: "dname_ok nm" "list_all dname_ok nms" using 2(4) by auto
  consider "CHR ''<'' \<notin> set nm" | "CHR ''<'' \<in> set nm" "parse_name nm = None"
    | p hp' where "CHR ''<'' \<in> set nm" "parse_name nm = Some p" "name_attrs p hp = Some hp'"
    | p where "CHR ''<'' \<in> set nm" "parse_name nm = Some p" "name_attrs p hp = None"
    by (metis option.exhaust)
  then show ?case
  proof cases
    case 1
    then show ?thesis using 2(3) [OF 1 ok(2)] 2(5) ok(1) by auto
  next
    case c: 2
    then show ?thesis using 2(1) [OF c ok(2)] 2(5) ok(1) by auto
  next
    case c: 3
    then show ?thesis using 2(2) [OF c refl ok(2)] 2(5) short by (auto simp: Let_def)
  next
    case 4
    then show ?thesis using 2(5) by auto
  qed
qed simp

lemma insertQ_some: "insertQ n c nms d = Some d' \<Longrightarrow> nms \<noteq> []"
  by (cases nms) auto

lemma create_inv:
  assumes inv: "dir_inv d root" and n: "anchored d root n" and nm: "dname_ok nm" and c: "DirectoryNode_create n nm d = (m, d')"
  shows "dir_inv d' root" and "\<And>x. anchored d root x \<Longrightarrow> anchored d' root x"
proof -
  have "dir_inv d' root \<and> (\<forall>x. anchored d root x \<longrightarrow> anchored d' root x)"
  proof (cases "child d n nm")
    case None
    obtain t d0 where d0: "new_node DirN d = (t, d0)" by fastforce
    then have d': "d' = DirectoryNode_adopt n t nm d0" using None c by (auto simp: DirectoryNode_create_def DirectoryNode_new_def)
    note w = new_node_inv [OF inv d0]
    note a = attach_inv [OF w(1) w(3) [OF n] w(2) nm]
    show ?thesis using a(1,2) w(3,4) None d' by simp
  qed (use c inv in \<open>simp add: DirectoryNode_create_def\<close>)
  then show "dir_inv d' root" and "\<And>x. anchored d root x \<Longrightarrow> anchored d' root x" by blast+
qed

lemma insertQ_keeps:
  assumes "dir_inv d root" and "new_node k d = (c, d1)" and "list_at d1 root nms = Some n"
    and "list_all dname_ok qs" and "slot_free d1 n qs" and "insertQ n c qs d1 = Some d2"
  shows "dir_inv d2 root \<and> (\<forall>x. anchored d root x \<longrightarrow> anchored d2 root x) \<and> anchored d2 root c \<and> c \<noteq> root"
proof -
  note w = new_node_inv [OF assms(1,2)]
  have "anchored d1 root n" using list_at_anchored [OF w(1) anchored.root assms(3)] .
  from insertQ_grows [OF w(1) this w(2) assms(4) insertQ_some [OF assms(6)] assms(5)] assms(6)
  show ?thesis using w(2,3) by (auto simp: grows_def floating_def)
qed

lemma dir_reach_inv: "dir_reach root d V N ok \<Longrightarrow> ok \<Longrightarrow> dir_inv d root \<and> (\<forall>c\<in>V. anchored d root c \<and> c \<noteq> root)"
proof (induction rule: dir_reach.induct)
  case (start d)
  then show ?case by (auto simp: new_node_def dir_inv_def child_def children_of_def split: if_splits)
next
  case (directory d V N ok nms n nm m d')
  then show ?case using create_inv [of d root n nm m d'] list_at_anchored [of d root root nms n] anchored.root by blast
next
  case (variable d V N ok k c d1 nms n p d2)
  then show ?case using insertQ_keeps [of d root k c d1 nms n "path_names (Some p)" d2] path_names_ok by (auto simp: pathInsert_def)
next
  case (traditional d V N ok k c d1 nms n p pe qs hp d2)
  then have "insertQ n c qs d1 = Some d2" by (auto simp: traditionalPathInsert_def)
  with traditional show ?case
    using insertQ_keeps [of d root k c d1 nms n qs d2] trad_names_ok [OF path_names_ok traditional(4)] by auto
qed

section \<open>Names that are no numbers\<close>

text \<open>
  As long as no name consists of digits only, the numbers that name children of a hyper node are below the number of
  its children, so that the next one is free.
\<close>

definition numbered :: "dirs \<Rightarrow> bool" where
  "numbered d \<longleftrightarrow> (\<forall>n nd k. dr_nodes d n = Some nd \<longrightarrow> dn_kind nd = HyperN \<longrightarrow> om_get (dn_children nd) (show_nat k) \<noteq> None
     \<longrightarrow> k < length (dn_children nd))"

definition no_number :: "string \<Rightarrow> bool" where
  "no_number nm \<longleftrightarrow> \<not> list_all is_digit nm"

lemma no_number_show: "no_number nm \<Longrightarrow> nm \<noteq> show_nat k"
  using show_nat_digits by (auto simp: no_number_def)

lemma length_om_put: "length m \<le> length (om_put k v m) \<and> (om_get m k = None \<longrightarrow> length (om_put k v m) = Suc (length m))"
  unfolding om_get_def by (induction k v m rule: om_put.induct) auto

definition name_for :: "dirs \<Rightarrow> nat \<Rightarrow> string \<Rightarrow> bool" where
  "name_for d n nm \<longleftrightarrow> no_number nm \<or> child d n nm \<noteq> None \<or> nm = show_nat (childCount d n)"

lemma rename_numbered: "numbered d \<Longrightarrow> numbered (DirectoryNode_rename n nm par d)"
  by (auto simp: numbered_def DirectoryNode_rename_def split: if_splits)

lemma adopt_numbered:
  assumes "numbered d" and "name_for d n nm"
  shows "numbered (DirectoryNode_adopt n c nm d)"
  unfolding DirectoryNode_adopt_def
proof (rule rename_numbered)
  show "numbered (d\<lparr>dr_nodes := (dr_nodes d)(n := map_option (\<lambda>nd. nd\<lparr>dn_children := om_put nm c (dn_children nd)\<rparr>) (dr_nodes d n))\<rparr>)"
    unfolding numbered_def
  proof (intro allI impI)
    fix x nd k
    assume a: "dr_nodes (d\<lparr>dr_nodes := (dr_nodes d)(n := map_option (\<lambda>nd. nd\<lparr>dn_children := om_put nm c (dn_children nd)\<rparr>) (dr_nodes d n))\<rparr>) x = Some nd"
      "dn_kind nd = HyperN" "om_get (dn_children nd) (show_nat k) \<noteq> None"
    show "k < length (dn_children nd)"
    proof (cases "x = n")
      case False
      with a assms(1) show ?thesis by (auto simp: numbered_def)
    next
      case True
      with a(1) obtain od where od: "dr_nodes d n = Some od" "nd = od\<lparr>dn_children := om_put nm c (dn_children od)\<rparr>" by auto
      have old: "k < length (dn_children od)" if "om_get (dn_children od) (show_nat k) \<noteq> None"
        using assms(1) od a(2) that by (auto simp: numbered_def)
      note len = length_om_put [of "dn_children od" nm c]
      show ?thesis
      proof (cases "om_get (dn_children od) (show_nat k) = None")
        case False
        with old len od(2) show ?thesis by auto
      next
        case True
        with a(3) od(2) have "nm = show_nat k" by (auto split: if_splits)
        with assms(2) True od len show ?thesis
          by (auto simp: name_for_def child_def children_of_def childCount_def dest: no_number_show)
      qed
    qed
  qed
qed

lemma new_node_numbered: "numbered d \<Longrightarrow> new_node k d = (c, d1) \<Longrightarrow> numbered d1"
  by (auto simp: numbered_def new_node_def split: if_splits)

lemma new_node_child: "new_node k d = (c, d1) \<Longrightarrow> n \<noteq> c \<Longrightarrow> child d1 n nm = child d n nm"
  by (auto simp: new_node_def child_def children_of_def)

lemma create_numbered:
  assumes "numbered d" and "no_number nm" and "DirectoryNode_create n nm d = (m, d')"
  shows "numbered d'"
  using assms adopt_numbered [OF new_node_numbered, of d DirN _ _ n nm]
  by (auto simp: DirectoryNode_create_def DirectoryNode_new_def name_for_def split: option.splits prod.splits)

lemma leaf_numbered: "numbered d \<Longrightarrow> numbered (HyperDirNode_insertLeaf n c d)"
  by (simp add: HyperDirNode_insertLeaf_def adopt_numbered name_for_def)

lemma insert_numbered:
  assumes inv: "dir_inv d root" and n: "numbered d" "no_number nm" "anchored d root x"
  shows "numbered (DirectoryNode_insert x c nm d)"
proof (cases "child d x nm")
  case None
  with n show ?thesis by (simp add: DirectoryNode_insert_def adopt_numbered name_for_def)
next
  case (Some t)
  then obtain td where td: "dr_nodes d t = Some td" "dn_parent td = x" "dn_name td = nm"
    using child_anchored [OF inv Some] by blast
  obtain h d0 where h: "new_node HyperN d = (h, d0)" by fastforce
  have "numbered (DirectoryNode_adopt x h nm d0)"
    by (rule adopt_numbered [OF new_node_numbered [OF n(1) h]]) (simp add: name_for_def n(2))
  with Some td h n(1) show ?thesis
    by (simp add: DirectoryNode_insert_def insertLeaf_def DirectoryNode_new_def leaf_numbered)
qed

lemma numbered_slot_free: "numbered d \<Longrightarrow> slot_free d n nms"
proof (induction d n nms rule: slot_free.induct)
  case (2 d n nm)
  have "om_get (dn_children nd) (show_nat (length (dn_children nd))) = None" if "dr_nodes d c = Some nd" "dn_kind nd = HyperN" for c nd
    using 2 that unfolding numbered_def by (metis less_irrefl)
  then have "leaf_free d c" for c by (auto simp: leaf_free_def child_def children_of_def childCount_def split: option.splits)
  then show ?case by (auto split: option.splits)
qed (auto split: option.splits)

lemma insertQ_numbered:
  assumes "dir_inv d root" and "anchored d root n" and "numbered d" and "\<forall>nm\<in>set nms. no_number nm \<and> dname_ok nm" and "insertQ n c nms d = Some d'"
  shows "numbered d'"
  using assms
proof (induction n c nms d rule: insertQ.induct)
  case (2 n c nm d)
  then show ?case using insert_numbered [of d root nm n c] by simp
next
  case (3 n c nm nm' nms d)
  obtain t d1 where t: "DirectoryNode_create n nm d = (t, d1)" by fastforce
  have ok: "dname_ok nm" "no_number nm" using 3(5) by simp_all
  note i = create_inv [OF 3(2,3) ok(1) t]
  have "anchored d1 root t"
  proof (cases "child d n nm")
    case (Some x)
    with t 3(2) child_anchored [OF 3(2) Some] show ?thesis by (simp add: DirectoryNode_create_def)
  next
    case None
    obtain d0 where d0: "new_node DirN d = (t, d0)" "d1 = DirectoryNode_adopt n t nm d0"
      using t None by (auto simp: DirectoryNode_create_def DirectoryNode_new_def split: prod.splits)
    note w = new_node_inv [OF 3(2) d0(1)]
    show ?thesis using attach_inv(3) [OF w(1) w(3) [OF 3(3)] w(2) ok(1)] w(4) None d0(2) by simp
  qed
  then show ?case using 3(1) [OF t [symmetric] refl i(1)] create_numbered [OF 3(4) ok(2) t] 3(5,6) t by simp
qed simp

lemma dir_reach_numbered:
  "dir_reach root d V N ok \<Longrightarrow> \<forall>nm\<in>N. no_number nm \<Longrightarrow> ok \<and> numbered d"
proof (induction rule: dir_reach.induct)
  case (start d)
  then show ?case by (auto simp: new_node_def numbered_def split: if_splits)
next
  case (directory d V N ok nms n nm m d')
  then show ?case using create_numbered [of d nm n m d'] by simp
next
  case (variable d V N ok k c d1 nms n p d2)
  then have n: "ok" "numbered d1" using new_node_numbered by auto
  note w = new_node_inv [OF conjunct1 [OF dir_reach_inv [OF variable(1) n(1)]] variable(2)]
  have "numbered d2"
    using insertQ_numbered [OF w(1) list_at_anchored [OF w(1) anchored.root variable(3)] n(2), of "path_names (Some p)" c d2]
      variable(4,6) path_names_ok [of "Some p"] by (simp add: pathInsert_def list_all_iff)
  with n numbered_slot_free [OF n(2)] show ?case by simp
next
  case (traditional d V N ok k c d1 nms n p pe qs hp d2)
  then have n: "ok" "numbered d1" using new_node_numbered by auto
  note w = new_node_inv [OF conjunct1 [OF dir_reach_inv [OF traditional(1) n(1)]] traditional(2)]
  have "insertQ n c qs d1 = Some d2" using traditional by (auto simp: traditionalPathInsert_def)
  then have "numbered d2"
    using insertQ_numbered [OF w(1) list_at_anchored [OF w(1) anchored.root traditional(3)] n(2), of qs c d2]
      traditional(7) trad_names_ok [OF path_names_ok traditional(4)] by (simp add: list_all_iff)
  with n numbered_slot_free [OF n(2)] show ?case by simp
qed

text \<open>
  Property C30 (inserted_path_found): however directories are created and variables inserted, also several variables under one
  name: if no name used consists of digits only, or more generally if whenever a hyper node numbered a new leaf the number was
  not the name of another child, then every variable has a path, and looking that path up in the server yields this variable.
\<close>

theorem inserted_path_found:
  assumes "dir_reach root d V N ok" and "c \<in> V" and "ok \<or> (\<forall>nm\<in>N. no_number nm)"
  shows "\<exists>s. DirectoryNode_path d c = Some s \<and> Server_find d root s = Some c"
  using path_found dir_reach_inv [OF assms(1)] dir_reach_numbered [OF assms(1)] assms(2,3) by blast

text \<open>
  An insertion under a path that has a name returns (a path without any
  name makes the code read the front of an empty queue).
\<close>

theorem insertion_returns:
  assumes "dir_reach root d V N True" and "new_node k d = (c, d1)"
    and "slot_free d1 root (path_names (Some p))" and "path_names (Some p) \<noteq> []"
  shows "\<exists>d2. pathInsert root c p d1 = Some d2 \<and> dir_reach root d2 (insert c V) (set (path_names (Some p)) \<union> N) True"
proof -
  have inv: "dir_inv d root" using dir_reach_inv [OF assms(1)] by blast
  note w = new_node_inv [OF inv assms(2)]
  obtain d2 where "pathInsert root c p d1 = Some d2"
    using insertQ_grows [OF w(1) anchored.root w(2) path_names_ok assms(4,3)] by (auto simp: pathInsert_def)
  then show ?thesis using dir_reach.variable [OF assms(1,2), of "[]" root p d2] assms(3) by auto
qed

section \<open>Two variables with one name\<close>

definition demo_root :: dirs where
  "demo_root = snd (new_node DirN \<lparr>dr_nodes = Map.empty, dr_next = 0\<rparr>)"

definition demo_var :: nkind where
  "demo_var = ChanN (Channel_new 0 0 0 (PrimaryType C_double) [1] 0 [] [])"

definition demo_add :: "string \<Rightarrow> dirs \<Rightarrow> dirs option" where
  "demo_add p d = (let (c, d1) = new_node demo_var d in pathInsert 0 c p d1)"

lemma names_a [simp]: "path_names (Some ''/a'') = [''a'']" "path_names (Some ''/a/3'') = [''a'', ''3'']"
  by code_simp+

lemma demo_add_reach:
  assumes "dir_reach 0 d V N ok" and "demo_add p d = Some d'"
  shows "\<exists>ok'. dir_reach 0 d' (insert (dr_next d) V) (set (path_names (Some p)) \<union> N) ok'"
proof -
  have n: "new_node demo_var d = (dr_next d, snd (new_node demo_var d))" by (simp add: new_node_def)
  have "list_at (snd (new_node demo_var d)) 0 [] = Some 0" by simp
  from dir_reach.variable [OF assms(1) n this] assms(2) n show ?thesis by (force simp: demo_add_def split: prod.splits)
qed

lemmas demo_defs = demo_root_def demo_add_def new_node_def pathInsert_def DirectoryNode_insert_def DirectoryNode_adopt_def
  DirectoryNode_rename_def child_def children_of_def om_get_def insertLeaf_def DirectoryNode_new_def HyperDirNode_insertLeaf_def
  childCount_def demo_var_def DirectoryNode_create_def leaf_free_def

lemma demo_root_reach: "dir_reach 0 demo_root {} {} True"
  by (rule dir_reach.start) (simp add: demo_root_def new_node_def)

definition demo_two :: dirs where
  "demo_two = the (Option.bind (demo_add ''/a'' demo_root) (demo_add ''/a''))"

lemma demo_two_reach: "\<exists>ok. dir_reach 0 demo_two {1, 2} {''a''} ok"
proof -
  obtain d1 where d1: "demo_add ''/a'' demo_root = Some d1" by (simp add: demo_defs)
  from demo_add_reach [OF demo_root_reach d1] obtain ok1 where r1: "dir_reach 0 d1 {1} {''a''} ok1"
    by (auto simp: demo_root_def new_node_def)
  obtain d2 where d2: "demo_add ''/a'' d1 = Some d2" by (cases "new_node demo_var d1") (simp add: demo_add_def pathInsert_def)
  have n1: "dr_next d1 = 2" using d1 by (auto simp: demo_defs)
  from demo_add_reach [OF r1 d2] n1 show ?thesis using d1 d2 by (auto simp: demo_two_def insert_commute)
qed

theorem inserted_path_found_witness: "\<exists>s. DirectoryNode_path demo_two 1 = Some s \<and> Server_find demo_two 0 s = Some 1"
proof -
  obtain ok where r: "dir_reach 0 demo_two {1, 2} {''a''} ok" using demo_two_reach by blast
  have "\<forall>nm\<in>{''a''}. no_number nm" by (simp add: no_number_def is_digit_def)
  with inserted_path_found [OF r, of 1] show ?thesis by simp
qed

theorem insertion_returns_witness:
  "\<exists>d2. pathInsert 0 1 ''/a'' (snd (new_node demo_var demo_root)) = Some d2 \<and> dir_reach 0 d2 {1} {''a''} True"
proof -
  have n: "new_node demo_var demo_root = (1, snd (new_node demo_var demo_root))" by (simp add: demo_root_def new_node_def)
  have "slot_free (snd (new_node demo_var demo_root)) 0 (path_names (Some ''/a''))" by (simp add: demo_defs)
  from insertion_returns [OF demo_root_reach n this] show ?thesis by simp
qed

text \<open>
  A hyper node numbers a leaf by its number of children. When a child has this number as its name already,
  the new leaf replaces it: the old child keeps its parent and name, and so its path, and the
  lookup of that path finds the new leaf.
\<close>

lemma hyper_leaf_lost:
  assumes "dr_nodes d h = Some hn" "dn_kind hn = HyperN" "child d h (show_nat (childCount d h)) = Some x"
    and "dr_nodes d c = Some cn" "c \<noteq> h" "x \<noteq> c" "x \<noteq> h"
  shows "child (insertLeaf h c d) h (show_nat (childCount d h)) = Some c" and "dr_nodes (insertLeaf h c d) x = dr_nodes d x"
  using assms adopt_nodes(1) [of d h hn c cn "show_nat (childCount d h)"]
  by (simp_all add: insertLeaf_def HyperDirNode_insertLeaf_def child_def children_of_def)

end
