(* ===== verification/Msr_Server.thy ===== *)
theory Msr_Server
  imports Directory
begin

text \<open>
  The traversal of \<open>DataType::Iterator\<close> (\<open>src/DataType.h\<close>) and the part of \<open>msrproto/Server.cpp\<close> that
  enters the signals and parameters of the application in the variable directory: one variable for each
  signal or parameter of a primary type, and, when vectors are split, one for each of its elements.
\<close>

section \<open>The traversal of a type\<close>

text \<open>
  \<open>Iterator<C>\<close>: \<open>nv\<close>, \<open>nd\<close>, \<open>nf\<close> are \<open>newVariable\<close>, \<open>newDimension\<close> and \<open>newField\<close> of the visitor, \<open>cp\<close> its
  copy constructor, which \<open>dispatch\<close> calls as it takes the visitor by value. \<open>None\<close>: a division by zero,
  an extent outside the dimensions, or a failure of \<open>newVariable\<close>.
\<close>

function (sequential) dispatch ::
    "(dtype \<Rightarrow> nat list \<Rightarrow> nat \<Rightarrow> nat \<Rightarrow> nat \<Rightarrow> 'c \<Rightarrow> 's \<Rightarrow> (bool \<times> 'c \<times> 's) option) \<Rightarrow> (nat \<Rightarrow> 'c \<Rightarrow> 'c)
      \<Rightarrow> (string \<Rightarrow> 'c \<Rightarrow> 'c) \<Rightarrow> ('c \<Rightarrow> 'c) \<Rightarrow> dtype \<Rightarrow> nat \<Rightarrow> nat list \<Rightarrow> nat \<Rightarrow> nat \<Rightarrow> 'c \<Rightarrow> nat \<Rightarrow> 's \<Rightarrow> 's option"
  and iterateDims ::
    "(dtype \<Rightarrow> nat list \<Rightarrow> nat \<Rightarrow> nat \<Rightarrow> nat \<Rightarrow> 'c \<Rightarrow> 's \<Rightarrow> (bool \<times> 'c \<times> 's) option) \<Rightarrow> (nat \<Rightarrow> 'c \<Rightarrow> 'c)
      \<Rightarrow> (string \<Rightarrow> 'c \<Rightarrow> 'c) \<Rightarrow> ('c \<Rightarrow> 'c) \<Rightarrow> dtype \<Rightarrow> nat \<Rightarrow> nat list \<Rightarrow> nat \<Rightarrow> 'c \<Rightarrow> nat \<Rightarrow> 's \<Rightarrow> 's option"
  and dims_loop ::
    "(dtype \<Rightarrow> nat list \<Rightarrow> nat \<Rightarrow> nat \<Rightarrow> nat \<Rightarrow> 'c \<Rightarrow> 's \<Rightarrow> (bool \<times> 'c \<times> 's) option) \<Rightarrow> (nat \<Rightarrow> 'c \<Rightarrow> 'c)
      \<Rightarrow> (string \<Rightarrow> 'c \<Rightarrow> 'c) \<Rightarrow> ('c \<Rightarrow> 'c) \<Rightarrow> dtype \<Rightarrow> nat \<Rightarrow> nat list \<Rightarrow> nat \<Rightarrow> nat \<Rightarrow> nat \<Rightarrow> 'c \<Rightarrow> nat \<Rightarrow> 's \<Rightarrow> 's option"
  and iterateFields ::
    "(dtype \<Rightarrow> nat list \<Rightarrow> nat \<Rightarrow> nat \<Rightarrow> nat \<Rightarrow> 'c \<Rightarrow> 's \<Rightarrow> (bool \<times> 'c \<times> 's) option) \<Rightarrow> (nat \<Rightarrow> 'c \<Rightarrow> 'c)
      \<Rightarrow> (string \<Rightarrow> 'c \<Rightarrow> 'c) \<Rightarrow> ('c \<Rightarrow> 'c) \<Rightarrow> field list \<Rightarrow> 'c \<Rightarrow> nat \<Rightarrow> 's \<Rightarrow> 's option" where
  "dispatch nv nd nf cp ty sz dim dimIdx elemIdx c0 off st =
     (let c = cp c0
      in case nv ty dim dimIdx elemIdx off c st of
           None \<Rightarrow> None
         | Some (done, c', st') \<Rightarrow>
             if done then Some st'
             else if \<not> isScalar dim \<and> dimIdx \<noteq> length dim
             then iterateDims nv nd nf cp ty sz dim dimIdx c' off st'
             else case ty of
                    PrimaryType T \<Rightarrow> Some st'
                  | CompoundType nm n fs \<Rightarrow> iterateFields nv nd nf cp fs c' off st')"
| "iterateDims nv nd nf cp ty sz dim dimIdx c off st =
     (if length dim \<le> dimIdx \<or> dim ! dimIdx = 0 then None
      else dims_loop nv nd nf cp ty (sz div dim ! dimIdx) dim (Suc dimIdx) (dim ! dimIdx) 0 c off st)"
| "dims_loop nv nd nf cp ty sz dim dimIdx end i c off st =
     (if \<not> i < end then Some st
      else let c1 = nd i c
           in case dispatch nv nd nf cp ty sz dim dimIdx i c1 off st of
                None \<Rightarrow> None
              | Some st' \<Rightarrow> dims_loop nv nd nf cp ty sz dim dimIdx end (Suc i) c1 (off + sz) st')"
| "iterateFields nv nd nf cp [] c off st = Some st"
| "iterateFields nv nd nf cp (Field nm ty foff dim # fs) c off st =
     (let c1 = nf nm c
      in case dispatch nv nd nf cp ty (dt_size ty) dim 0 0 c1 (off + foff) st of
           None \<Rightarrow> None
         | Some st' \<Rightarrow> iterateFields nv nd nf cp fs c1 off st')"
  by pat_completeness auto
termination
  by (relation "measures
      [\<lambda>x. case x of Inl (Inl (_, _, _, _, ty, _)) \<Rightarrow> 2 * size ty
            | Inl (Inr (_, _, _, _, ty, _)) \<Rightarrow> 2 * size ty
            | Inr (Inl (_, _, _, _, ty, _)) \<Rightarrow> 2 * size ty
            | Inr (Inr (_, _, _, _, fs, _)) \<Rightarrow> 2 * size_list size fs,
       \<lambda>x. case x of Inl (Inl (_, _, _, _, _, _, dim, dimIdx, _)) \<Rightarrow> length dim - dimIdx
            | Inl (Inr (_, _, _, _, _, _, dim, dimIdx, _)) \<Rightarrow> length dim - dimIdx
            | Inr (Inl (_, _, _, _, _, _, dim, dimIdx, _)) \<Rightarrow> length dim - dimIdx
            | Inr (Inr _) \<Rightarrow> 0,
       \<lambda>x. case x of Inl (Inl _) \<Rightarrow> 1 | Inl (Inr _) \<Rightarrow> 0
            | Inr (Inl (_, _, _, _, _, _, _, _, end, i, _)) \<Rightarrow> 2 + (end - i)
            | Inr (Inr _) \<Rightarrow> 0]") auto

declare dispatch.simps [simp del] iterateDims.simps [simp del] dims_loop.simps [simp del]

section \<open>Variables of the application\<close>

text \<open>\<open>PdServ::Variable\<close>, with a number in place of its address.\<close>

record main_var =
  va_id :: nat
  va_path :: string
  va_dtype :: dtype
  va_dim :: "nat list"
  va_memSize :: nat
  va_alias :: string
  va_comment :: string

definition Main_Variable_new :: "nat \<Rightarrow> string \<Rightarrow> dtype \<Rightarrow> nat \<Rightarrow> nat list option \<Rightarrow> main_var" where
  "Main_Variable_new ident path dtype ndims dim =
     (let d = mk_dims ndims dim
      in \<lparr>va_id = ident, va_path = path, va_dtype = dtype, va_dim = d, va_memSize = nelem d * dt_size dtype,
          va_alias = [], va_comment = []\<rparr>)"

section \<open>The server\<close>

text \<open>
  Channels and parameters are addresses of nodes; \<open>sv_kids\<close> holds the list \<open>children\<close> of a parameter.
  \<open>sv_freshSignal\<close> numbers the signal objects that the server creates itself.
\<close>

record msr_server =
  sv_dirs :: dirs
  sv_root :: nat
  sv_insertRoot :: nat
  sv_itemize :: bool
  sv_channels :: "nat list"
  sv_parameters :: "nat list"
  sv_parameterMap :: "nat \<rightharpoonup> nat"
  sv_kids :: "nat \<Rightarrow> nat list"
  sv_maxInput :: nat
  sv_freshSignal :: nat

definition param_at :: "msr_server \<Rightarrow> nat \<Rightarrow> msr_param option" where
  "param_at sv n = (case dr_nodes (sv_dirs sv) n of Some nd \<Rightarrow> (case dn_kind nd of ParamN p \<Rightarrow> Some p | _ \<Rightarrow> None) | None \<Rightarrow> None)"

definition channel_at :: "msr_server \<Rightarrow> nat \<Rightarrow> channel option" where
  "channel_at sv n = (case dr_nodes (sv_dirs sv) n of Some nd \<Rightarrow> (case dn_kind nd of ChanN c \<Rightarrow> Some c | _ \<Rightarrow> None) | None \<Rightarrow> None)"

text \<open>Assignment to the fields of a variable that is in the directory already.\<close>

definition set_node :: "nat \<Rightarrow> nkind \<Rightarrow> dirs \<Rightarrow> dirs" where
  "set_node n k d = d\<lparr>dr_nodes := (dr_nodes d)(n := map_option (\<lambda>nd. nd\<lparr>dn_kind := k\<rparr>) (dr_nodes d n))\<rparr>"

section \<open>The visitor\<close>

text \<open>
  \<open>CreateVariable\<close>: \<open>cv_prefix\<close> is the path of the object it was copied from, or the path of the variable.
\<close>

record cvar =
  cv_prefix :: string
  cv_name :: string
  cv_parent :: "nat option"

definition CreateVariable_new :: "main_var \<Rightarrow> cvar" where
  "CreateVariable_new v = \<lparr>cv_prefix = va_path v, cv_name = [], cv_parent = None\<rparr>"

definition CreateVariable_path :: "cvar \<Rightarrow> string" where
  "CreateVariable_path c = cv_prefix c @ (if cv_name c \<noteq> [] then [slash] else []) @ cv_name c"

definition CreateVariable_copy :: "cvar \<Rightarrow> cvar" where
  "CreateVariable_copy c = \<lparr>cv_prefix = CreateVariable_path c, cv_name = [], cv_parent = cv_parent c\<rparr>"

definition newDimension :: "nat \<Rightarrow> cvar \<Rightarrow> cvar" where
  "newDimension elemIdx c = c\<lparr>cv_name := show_nat elemIdx\<rparr>"

definition newField :: "string \<Rightarrow> cvar \<Rightarrow> cvar" where
  "newField nm c = c\<lparr>cv_name := nm\<rparr>"

type_synonym creator = "dtype \<Rightarrow> nat list \<Rightarrow> nat \<Rightarrow> cvar \<Rightarrow> msr_server \<Rightarrow> (bool \<times> cvar \<times> msr_server) option"

definition newVariable :: "creator \<Rightarrow> dtype \<Rightarrow> nat list \<Rightarrow> nat \<Rightarrow> nat \<Rightarrow> nat \<Rightarrow> cvar \<Rightarrow> msr_server \<Rightarrow> (bool \<times> cvar \<times> msr_server) option" where
  "newVariable createVariable dtype dim dimIdx elemIdx offset c sv =
     (if isPrimary dtype
      then if (dimIdx = 0 \<and> elemIdx = 0) \<or> \<not> sv_itemize sv then createVariable dtype dim offset c sv
           else if dimIdx = length dim then createVariable dtype [1] offset c sv
           else Some (False, c, sv)
      else Some (False, c, sv))"

text \<open>\<open>None\<close>: the insertion in the directory fails.\<close>

definition createVariable_channel :: "nat \<Rightarrow> main_var \<Rightarrow> creator" where
  "createVariable_channel base var dtype dim offset c sv =
     (let ch = Channel_new (dr_next (sv_dirs sv)) (va_id var) (length (sv_channels sv)) dtype dim offset (va_alias var) (va_comment var);
          (n, d) = new_node (ChanN ch) (sv_dirs sv);
          push = (\<lambda>d'. sv\<lparr>sv_dirs := d', sv_channels := sv_channels sv @ [n]\<rparr>)
      in if sv_itemize sv
         then map_option (\<lambda>(d', hidden, persist).
                let h = (hidden = CHR ''c'' \<or> hidden = CHR ''k'' \<or> hidden = CHR 0x01)
                in (h, c, push (set_node n (ChanN (ch\<lparr>mv_hidden := h\<rparr>)) d')))
                (traditionalPathInsert base n (CreateVariable_path c) (CHR 0x00) d)
         else map_option (\<lambda>d'. (True, c, push d')) (pathInsert base n (CreateVariable_path c) d))"

definition createVariable_parameter :: "nat \<Rightarrow> main_var \<Rightarrow> creator" where
  "createVariable_parameter base var dtype dim offset c sv =
     (let p = MsrParameter_new (va_id var) (va_dtype var) (length (sv_parameters sv)) dtype dim offset (va_alias var) (va_comment var)
                (Option.bind (cv_parent c) (param_at sv));
          (n, d) = new_node (ParamN p) (sv_dirs sv);
          sv1 = sv\<lparr>sv_parameters := sv_parameters sv @ [n],
                   sv_kids := (case cv_parent c of None \<Rightarrow> sv_kids sv | Some q \<Rightarrow> (sv_kids sv)(q := sv_kids sv q @ [n])),
                   sv_parameterMap := (if cv_parent c = None then (sv_parameterMap sv)(va_id var \<mapsto> n) else sv_parameterMap sv)\<rparr>;
          c' = c\<lparr>cv_parent := Some n\<rparr>
      in if sv_itemize sv
         then map_option (\<lambda>(d', hidden, persist).
                let h = (hidden = CHR ''p'' \<or> hidden = CHR 0x01)
                in (h, c', sv1\<lparr>sv_dirs := set_node n (ParamN (p\<lparr>mv_hidden := h, mp_persistent := persist \<noteq> CHR 0x00\<rparr>)) d'\<rparr>))
                (traditionalPathInsert base n (CreateVariable_path c) (CHR 0x00) d)
         else map_option (\<lambda>d'. (True, c', sv1\<lparr>sv_dirs := d'\<rparr>)) (pathInsert base n (CreateVariable_path c) d))"

text \<open>The constructor of \<open>Iterator\<close>, for the visitors of the server.\<close>

definition Iterator_run :: "creator \<Rightarrow> main_var \<Rightarrow> msr_server \<Rightarrow> msr_server option" where
  "Iterator_run cr var sv =
     dispatch (newVariable cr) newDimension newField CreateVariable_copy
       (va_dtype var) (dt_size (va_dtype var) * nelem (va_dim var)) (va_dim var) 0 0 (CreateVariable_new var) 0 sv"

section \<open>Filling the directory\<close>

fun create_each :: "(main_var \<Rightarrow> msr_server \<Rightarrow> msr_server option) \<Rightarrow> main_var list \<Rightarrow> msr_server \<Rightarrow> msr_server option" where
  "create_each f [] sv = Some sv"
| "create_each f (v # vs) sv = Option.bind (f v sv) (create_each f vs)"

text \<open>\<open>TimeSignal\<close> and \<open>StatSignal\<close>: a channel that is its own signal, a scalar \<open>double\<close>.\<close>

definition info_channel :: "nat \<Rightarrow> string \<Rightarrow> msr_server \<Rightarrow> msr_server" where
  "info_channel t nm sv =
     (let ch = Channel_new (dr_next (sv_dirs sv)) (sv_freshSignal sv) (length (sv_channels sv)) (PrimaryType C_double) [1] 0 [] [];
          (n, d) = new_node (ChanN ch) (sv_dirs sv)
      in sv\<lparr>sv_dirs := DirectoryNode_insert t n nm d, sv_channels := sv_channels sv @ [n], sv_freshSignal := Suc (sv_freshSignal sv)\<rparr>)"

definition Server_createChannels :: "nat \<Rightarrow> nat \<Rightarrow> main_var list \<Rightarrow> msr_server \<Rightarrow> msr_server option" where
  "Server_createChannels base task sigs sv =
     map_option (\<lambda>sv1.
         let (ti, d1) = DirectoryNode_create (sv_root sv1) ''Taskinfo'' (sv_dirs sv1);
             (t, d2) = DirectoryNode_create ti (show_nat task) d1
         in info_channel t ''Overrun'' (info_channel t ''Period'' (info_channel t ''ExecTime''
              (info_channel t ''TaskTime'' (sv1\<lparr>sv_dirs := d2\<rparr>)))))
       (create_each (\<lambda>v. Iterator_run (createVariable_channel base v) v) sigs sv)"

definition create_parameter :: "nat \<Rightarrow> main_var \<Rightarrow> msr_server \<Rightarrow> msr_server option" where
  "create_parameter base v sv =
     Iterator_run (createVariable_parameter base v) v (sv\<lparr>sv_maxInput := max (sv_maxInput sv) (va_memSize v * 4)\<rparr>)"

definition Server_createParameters :: "nat \<Rightarrow> main_var list \<Rightarrow> msr_server \<Rightarrow> msr_server option" where
  "Server_createParameters base ps sv = create_each (create_parameter base) ps sv"

text \<open>
  The constructor: the tasks with their signals and the parameters of \<open>main\<close>, and the values of the
  configuration (\<open>splitvectors\<close>, \<open>pathprefix\<close>, \<open>parserbufferlimit\<close>).
\<close>

fun create_tasks :: "nat \<Rightarrow> (nat \<times> main_var list) list \<Rightarrow> msr_server \<Rightarrow> msr_server option" where
  "create_tasks base [] sv = Some sv"
| "create_tasks base ((task, sigs) # ts) sv = Option.bind (Server_createChannels base task sigs sv) (create_tasks base ts)"

definition Server_new ::
  "(nat \<times> main_var list) list \<Rightarrow> main_var list \<Rightarrow> bool \<Rightarrow> string option \<Rightarrow> nat \<Rightarrow> nat \<Rightarrow> msr_server option" where
  "Server_new tasks params splitvectors pathprefix bufLimit freshSignal =
     (let (root, d0) = new_node DirN \<lparr>dr_nodes = Map.empty, dr_next = 0\<rparr>;
          (base, d1) = (case pathprefix of None \<Rightarrow> (root, d0) | Some nm \<Rightarrow> DirectoryNode_create root nm d0);
          sv0 = \<lparr>sv_dirs = d1, sv_root = root, sv_insertRoot = base, sv_itemize = splitvectors, sv_channels = [], sv_parameters = [],
                 sv_parameterMap = Map.empty, sv_kids = (\<lambda>_. []), sv_maxInput = 0, sv_freshSignal = freshSignal\<rparr>
      in map_option (\<lambda>sv. sv\<lparr>sv_maxInput := if bufLimit \<noteq> 0 \<and> sv_maxInput sv > bufLimit then bufLimit else sv_maxInput sv\<rparr>)
           (Option.bind (create_tasks base tasks sv0) (Server_createParameters base params)))"

section \<open>Queries\<close>

definition getChannel :: "msr_server \<Rightarrow> nat \<Rightarrow> nat option" where
  "getChannel sv n = (if n < length (sv_channels sv) then Some (sv_channels sv ! n) else None)"

definition getParameter :: "msr_server \<Rightarrow> nat \<Rightarrow> nat option" where
  "getParameter sv n = (if n < length (sv_parameters sv) then Some (sv_parameters sv ! n) else None)"

definition find_parameter :: "msr_server \<Rightarrow> string \<Rightarrow> nat option" where
  "find_parameter sv path = (case Server_find (sv_dirs sv) (sv_root sv) path of
     None \<Rightarrow> None | Some n \<Rightarrow> if param_at sv n = None then None else Some n)"

definition find_channel :: "msr_server \<Rightarrow> string \<Rightarrow> nat option" where
  "find_channel sv path = (case Server_find (sv_dirs sv) (sv_root sv) path of
     None \<Rightarrow> None | Some n \<Rightarrow> if channel_at sv n = None then None else Some n)"

text \<open>
  A parameter with its children as a tree. Children are created after their parent, so they have greater
  addresses, and the filter leaves all of them.
\<close>

function param_tree :: "msr_server \<Rightarrow> nat \<Rightarrow> mpar" where
  "param_tree sv n =
     (case param_at sv n of
        None \<Rightarrow> MPar 0 0 0 []
      | Some p \<Rightarrow> MPar (mv_index p) (mv_offset p) (mv_memSize p)
          (map (param_tree sv) (filter (\<lambda>m. n < m \<and> m < dr_next (sv_dirs sv)) (sv_kids sv n))))"
  by pat_completeness auto
termination
  by (relation "measure (\<lambda>(sv, n). dr_next (sv_dirs sv) - n)") auto

declare param_tree.simps [simp del]

text \<open>
  \<open>Server::parameterChanged\<close>: the indices announced to a session. \<open>None\<close>: the parameter is not in
  \<open>parameterMap\<close> and the end iterator is dereferenced.
\<close>

definition Server_parameterChanged :: "msr_server \<Rightarrow> nat \<Rightarrow> nat \<Rightarrow> nat \<Rightarrow> nat list option" where
  "Server_parameterChanged sv main offset count =
     map_option (\<lambda>n. snd (inform offset (offset + count) (param_tree sv n))) (sv_parameterMap sv main)"

section \<open>Insertion keeps the variables of the directory\<close>

definition dkind :: "dirs \<Rightarrow> nat \<Rightarrow> nkind option" where
  "dkind d x = map_option dn_kind (dr_nodes d x)"

definition fresh_dirs :: "dirs \<Rightarrow> bool" where
  "fresh_dirs d \<longleftrightarrow> (\<forall>x\<ge>dr_next d. dr_nodes d x = None)"

text \<open>\<open>d'\<close> has the variables of \<open>d\<close> and further directories.\<close>

definition adds_dirs :: "dirs \<Rightarrow> dirs \<Rightarrow> bool" where
  "adds_dirs d d' \<longleftrightarrow> fresh_dirs d' \<and> dr_next d \<le> dr_next d' \<and>
     (\<forall>x. dkind d' x = dkind d x \<or> dr_next d \<le> x \<and> dkind d' x \<in> {Some DirN, Some HyperN})"

lemma adds_dirs_refl [simp]: "adds_dirs d d \<longleftrightarrow> fresh_dirs d"
  by (simp add: adds_dirs_def)

lemma adds_dirs_trans: "adds_dirs d d1 \<Longrightarrow> adds_dirs d1 d2 \<Longrightarrow> adds_dirs d d2"
  unfolding adds_dirs_def by (metis le_trans)

lemma adopt_adds: "fresh_dirs d \<Longrightarrow> adds_dirs d (DirectoryNode_adopt n c nm d)"
  by (auto simp: adds_dirs_def fresh_dirs_def dkind_def DirectoryNode_adopt_def DirectoryNode_rename_def option.map_comp o_def
      intro: option.map_cong)

lemma new_adds: "fresh_dirs d \<Longrightarrow> k \<in> {DirN, HyperN} \<Longrightarrow> DirectoryNode_new k p nm d = (n, d') \<Longrightarrow> adds_dirs d d'"
proof -
  assume f: "fresh_dirs d" and k: "k \<in> {DirN, HyperN}" and "DirectoryNode_new k p nm d = (n, d')"
  then have d': "d' = DirectoryNode_adopt p n nm (snd (new_node k d))" by (auto simp: DirectoryNode_new_def split: prod.splits)
  have a: "adds_dirs d (snd (new_node k d))" using f k by (auto simp: new_node_def adds_dirs_def fresh_dirs_def dkind_def)
  then have "fresh_dirs (snd (new_node k d))" by (simp add: adds_dirs_def)
  from adds_dirs_trans [OF a adopt_adds [OF this]] show ?thesis by (simp add: d')
qed

lemma create_adds: "fresh_dirs d \<Longrightarrow> DirectoryNode_create n nm d = (m, d') \<Longrightarrow> adds_dirs d d'"
  by (auto simp: DirectoryNode_create_def split: option.splits intro: new_adds)

lemma adds_fresh: "adds_dirs d d' \<Longrightarrow> fresh_dirs d'"
  by (simp add: adds_dirs_def)

lemma hyper_adds: "fresh_dirs d \<Longrightarrow> adds_dirs d (HyperDirNode_insertLeaf n c d)"
  unfolding HyperDirNode_insertLeaf_def by (rule adopt_adds)

lemma insertLeaf_adds: "fresh_dirs d \<Longrightarrow> adds_dirs d (insertLeaf n c d)"
proof (cases "dr_nodes d n")
  case (Some nd)
  assume f: "fresh_dirs d"
  obtain h d1 where d1: "DirectoryNode_new HyperN (dn_parent nd) (dn_name nd) d = (h, d1)" by fastforce
  then have a: "adds_dirs d d1" using new_adds [OF f _ d1] by simp
  have "adds_dirs d1 (HyperDirNode_insertLeaf h n d1)" using hyper_adds [OF adds_fresh [OF a]] .
  then have "adds_dirs d1 (HyperDirNode_insertLeaf h c (HyperDirNode_insertLeaf h n d1))"
    using hyper_adds [OF adds_fresh] adds_dirs_trans by blast
  with a have "adds_dirs d (HyperDirNode_insertLeaf h c (HyperDirNode_insertLeaf h n d1))" by (rule adds_dirs_trans)
  then show ?thesis using Some d1 hyper_adds [OF f] by (simp add: insertLeaf_def)
qed (simp add: insertLeaf_def)

lemma insert_adds: "fresh_dirs d \<Longrightarrow> adds_dirs d (DirectoryNode_insert n c nm d)"
  by (auto simp: DirectoryNode_insert_def split: option.splits intro: adopt_adds insertLeaf_adds)

lemma insertQ_adds: "fresh_dirs d \<Longrightarrow> nms \<noteq> [] \<Longrightarrow> \<exists>d'. insertQ n c nms d = Some d' \<and> adds_dirs d d'"
proof (induction n c nms d rule: insertQ.induct)
  case (3 n c nm nm' nms d)
  obtain m d1 where c: "DirectoryNode_create n nm d = (m, d1)" by fastforce
  with 3(2) have a: "adds_dirs d d1" by (rule create_adds)
  from 3(1) [OF c [symmetric] refl adds_fresh [OF a]] a c show ?case by (auto intro: adds_dirs_trans)
qed (simp_all add: insert_adds)

section \<open>Paths without attributes\<close>

definition path_ok :: "string \<Rightarrow> bool" where
  "path_ok s \<longleftrightarrow> CHR ''<'' \<notin> set s \<and> (\<exists>c\<in>set s. c \<noteq> slash)"

lemma path_names_set: "x \<in> set (path_names s) \<Longrightarrow> set x \<subseteq> (case s of None \<Rightarrow> {} | Some t \<Rightarrow> set t)"
proof (induction s rule: path_names.induct)
  case (2 s)
  obtain nm rest where s: "split_path s = (nm, rest)" by fastforce
  have nm: "set nm \<subseteq> set s" using s by (auto simp: split_path_def dest: set_takeWhileD)
  have rs: "set r \<subseteq> set s" if "rest = Some r" for r
    using s that by (auto simp: split_path_def split: if_splits dest!: set_dropWhileD)
  show ?case
  proof (cases "x \<in> set (path_names rest)")
    case True
    from 2(1) [OF s [symmetric] refl True] rs show ?thesis by (cases rest) auto
  next
    case False
    with 2(2) s have "x = nm" by (auto simp: path_names.simps split: if_splits)
    then show ?thesis using nm by simp
  qed
qed (simp add: path_names.simps)

lemma path_names_nonempty: "\<exists>c\<in>set t. c \<noteq> slash \<Longrightarrow> path_names (Some t) \<noteq> []"
proof -
  assume t: "\<exists>c\<in>set t. c \<noteq> slash"
  have step: "takeWhile (\<lambda>c. c \<noteq> slash) t \<noteq> [] \<Longrightarrow> path_names (Some t) \<noteq> []" for t
    by (simp add: path_names.simps split_path_def)
  show ?thesis
  proof (cases t)
    case (Cons x u)
    show ?thesis
    proof (cases "x = slash")
      case True
      define v where "v = dropWhile (\<lambda>c. c = slash) u"
      have v: "v \<noteq> []" using t True Cons by (auto simp: v_def)
      then have "hd v \<noteq> slash" unfolding v_def by (rule hd_dropWhile)
      then have "takeWhile (\<lambda>c. c \<noteq> slash) v \<noteq> []" using v by (cases v) auto
      then have "path_names (Some v) \<noteq> []" by (rule step)
      moreover have "split_path t = ([], Some v)" using Cons True by (simp add: split_path_def v_def)
      ultimately show ?thesis by (simp add: path_names.simps(2) [of t])
    qed (use step [of t] Cons in simp)
  qed (use t in simp)
qed

lemma trad_names_plain: "\<forall>x\<in>set nms. CHR ''<'' \<notin> set x \<Longrightarrow> trad_names nms hp = Some (nms, hp)"
  by (induction nms) auto

lemma traditional_plain:
  assumes "path_ok p" and "fresh_dirs d"
  shows "\<exists>d'. traditionalPathInsert n c p pe d = Some (d', CHR 0x00, pe) \<and> adds_dirs d d'"
proof -
  have "\<forall>x\<in>set (path_names (Some p)). CHR ''<'' \<notin> set x"
    using path_names_set [of _ "Some p"] assms(1) by (fastforce simp: path_ok_def)
  moreover obtain d' where "insertQ n c (path_names (Some p)) d = Some d'" "adds_dirs d d'"
    using insertQ_adds [OF assms(2), of "path_names (Some p)"] path_names_nonempty [of p] assms(1) by (auto simp: path_ok_def)
  ultimately show ?thesis by (simp add: traditionalPathInsert_def trad_names_plain)
qed

section \<open>The parameters created for an array\<close>

abbreviation sv_next :: "msr_server \<Rightarrow> nat" where
  "sv_next sv \<equiv> dr_next (sv_dirs sv)"

definition sv_fresh :: "msr_server \<Rightarrow> bool" where
  "sv_fresh sv \<longleftrightarrow> sv_itemize sv \<and> fresh_dirs (sv_dirs sv) \<and> (\<forall>x\<ge>sv_next sv. sv_kids sv x = [])"

lemma param_at_dkind: "param_at sv n = (case dkind (sv_dirs sv) n of Some (ParamN p) \<Rightarrow> Some p | _ \<Rightarrow> None)"
  by (simp add: param_at_def dkind_def split: option.splits)

lemma dkind_set_node: "dkind (set_node n k d) x = (if x = n \<and> dkind d n \<noteq> None then Some k else dkind d x)"
  by (auto simp: dkind_def set_node_def option.map_comp o_def)

lemma fresh_set_node: "fresh_dirs d \<Longrightarrow> fresh_dirs (set_node n k d)"
  by (simp add: fresh_dirs_def set_node_def)

lemma adds_old: "adds_dirs d d' \<Longrightarrow> x < dr_next d \<Longrightarrow> dkind d' x = dkind d x"
  by (auto simp: adds_dirs_def)

text \<open>One parameter is created, with a path that has no attributes.\<close>

definition one_param :: "nat option \<Rightarrow> nat \<Rightarrow> nat \<Rightarrow> nat \<Rightarrow> msr_server \<Rightarrow> msr_server \<Rightarrow> bool" where
  "one_param par v s off sv sv' \<longleftrightarrow>
     sv_fresh sv' \<and> sv_next sv < sv_next sv' \<and> sv_parameters sv' = sv_parameters sv @ [sv_next sv]
     \<and> sv_kids sv' = (case par of None \<Rightarrow> sv_kids sv | Some r \<Rightarrow> (sv_kids sv)(r := sv_kids sv r @ [sv_next sv]))
     \<and> sv_parameterMap sv' = (if par = None then (sv_parameterMap sv)(v \<mapsto> sv_next sv) else sv_parameterMap sv)
     \<and> (\<forall>x < sv_next sv. param_at sv' x = param_at sv x)
     \<and> (\<exists>p. param_at sv' (sv_next sv) = Some p \<and> mv_index p = length (sv_parameters sv) \<and> mv_offset p = off \<and> mv_memSize p = s)"

lemma create_one:
  assumes f: "sv_fresh sv" and path: "path_ok (CreateVariable_path c)"
    and q: "\<forall>r. cv_parent c = Some r \<longrightarrow> r < sv_next sv"
  shows "\<exists>sv'. createVariable_parameter base v (PrimaryType T) dim off c sv = Some (False, c\<lparr>cv_parent := Some (sv_next sv)\<rparr>, sv')
    \<and> one_param (cv_parent c) (va_id v) (sizeof T * nelem dim) off sv sv'"
proof -
  let ?n = "sv_next sv"
  define p where "p = MsrParameter_new (va_id v) (va_dtype v) (length (sv_parameters sv)) (PrimaryType T) dim off (va_alias v) (va_comment v)
                (Option.bind (cv_parent c) (param_at sv))"
  define d where "d = snd (new_node (ParamN p) (sv_dirs sv))"
  define p' where "p' = p\<lparr>mv_hidden := False, mp_persistent := False\<rparr>"
  have d: "new_node (ParamN p) (sv_dirs sv) = (?n, d)" by (simp add: d_def new_node_def)
  have fd: "fresh_dirs d" using f by (auto simp: d_def new_node_def fresh_dirs_def sv_fresh_def)
  have kd: "dkind d x = (if x = ?n then Some (ParamN p) else dkind (sv_dirs sv) x)" for x by (simp add: d_def new_node_def dkind_def)
  have nd: "dr_next d = Suc ?n" by (simp add: d_def new_node_def)
  obtain d' where d': "traditionalPathInsert base ?n (CreateVariable_path c) (CHR 0x00) d = Some (d', CHR 0x00, CHR 0x00)" "adds_dirs d d'"
    using traditional_plain [OF path fd] by blast
  define sv' where "sv' = sv\<lparr>sv_parameters := sv_parameters sv @ [?n],
                   sv_kids := (case cv_parent c of None \<Rightarrow> sv_kids sv | Some q \<Rightarrow> (sv_kids sv)(q := sv_kids sv q @ [?n])),
                   sv_parameterMap := (if cv_parent c = None then (sv_parameterMap sv)(va_id v \<mapsto> ?n) else sv_parameterMap sv),
                   sv_dirs := set_node ?n (ParamN p') d'\<rparr>"
  have nx: "sv_next sv' = dr_next d'" by (simp add: sv'_def set_node_def)
  have le: "Suc ?n \<le> dr_next d'" using d'(2) nd by (simp add: adds_dirs_def)
  have k': "dkind (sv_dirs sv') x = (if x = ?n then Some (ParamN p') else dkind (sv_dirs sv) x)" if "x \<le> ?n" for x
    using adds_old [OF d'(2), of x] that nd by (auto simp: sv'_def dkind_set_node kd)
  have "createVariable_parameter base v (PrimaryType T) dim off c sv = Some (False, c\<lparr>cv_parent := Some ?n\<rparr>, sv')"
    using f d d'(1) by (simp add: createVariable_parameter_def sv_fresh_def p_def [symmetric] Let_def sv'_def p'_def)
  moreover have "sv_fresh sv'" using f q adds_fresh [OF d'(2)] le nx
    by (auto simp: sv_fresh_def sv'_def fresh_set_node split: option.splits)
  moreover have "\<forall>x < sv_next sv. param_at sv' x = param_at sv x" using k' by (simp add: param_at_dkind)
  moreover have "param_at sv' ?n = Some p'" using k' [of ?n] by (simp add: param_at_dkind)
  moreover have "mv_index p' = length (sv_parameters sv) \<and> mv_offset p' = off \<and> mv_memSize p' = sizeof T * nelem dim"
    by (simp add: p'_def p_def MsrParameter_new_def Variable_new_def Let_def msr_var.defs split: option.splits)
  ultimately show ?thesis using le nx by (intro exI [of _ sv']) (simp add: one_param_def, simp add: sv'_def)
qed

definition leaf_ext :: "nat \<Rightarrow> nat \<Rightarrow> nat \<Rightarrow> nat \<Rightarrow> msr_server \<Rightarrow> msr_server \<Rightarrow> bool" where
  "leaf_ext r s cnt off sv sv' \<longleftrightarrow> sv_fresh sv' \<and> sv_next sv \<le> sv_next sv' \<and> sv_parameterMap sv' = sv_parameterMap sv
     \<and> (\<forall>x < sv_next sv. param_at sv' x = param_at sv x)
     \<and> (\<exists>ns. length ns = cnt \<and> sv_parameters sv' = sv_parameters sv @ ns \<and> sv_kids sv' = (sv_kids sv)(r := sv_kids sv r @ ns)
          \<and> (\<forall>k<cnt. sv_next sv \<le> ns ! k \<and> ns ! k < sv_next sv' \<and> (\<exists>p. param_at sv' (ns ! k) = Some p
               \<and> mv_index p = length (sv_parameters sv) + k \<and> mv_offset p = off + k * s \<and> mv_memSize p = s)))"

lemma leaf_ext_none: "sv_fresh sv \<Longrightarrow> leaf_ext r s 0 off sv sv"
  by (simp add: leaf_ext_def)

lemma leaf_ext_append:
  assumes "leaf_ext r s a off sv sv1" and "leaf_ext r s b (off + a * s) sv1 sv2"
  shows "leaf_ext r s (a + b) off sv sv2"
proof -
  from assms(1) obtain ns where n: "sv_next sv \<le> sv_next sv1" "sv_parameterMap sv1 = sv_parameterMap sv"
      "\<forall>x < sv_next sv. param_at sv1 x = param_at sv x" "length ns = a" "sv_parameters sv1 = sv_parameters sv @ ns"
      "sv_kids sv1 = (sv_kids sv)(r := sv_kids sv r @ ns)"
      "\<forall>k<a. sv_next sv \<le> ns ! k \<and> ns ! k < sv_next sv1 \<and> (\<exists>p. param_at sv1 (ns ! k) = Some p
               \<and> mv_index p = length (sv_parameters sv) + k \<and> mv_offset p = off + k * s \<and> mv_memSize p = s)"
    unfolding leaf_ext_def by blast
  from assms(2) obtain ms where m: "sv_fresh sv2" "sv_next sv1 \<le> sv_next sv2" "sv_parameterMap sv2 = sv_parameterMap sv1"
      "\<forall>x < sv_next sv1. param_at sv2 x = param_at sv1 x" "length ms = b" "sv_parameters sv2 = sv_parameters sv1 @ ms"
      "sv_kids sv2 = (sv_kids sv1)(r := sv_kids sv1 r @ ms)"
      "\<forall>k<b. sv_next sv1 \<le> ms ! k \<and> ms ! k < sv_next sv2 \<and> (\<exists>p. param_at sv2 (ms ! k) = Some p
               \<and> mv_index p = length (sv_parameters sv1) + k \<and> mv_offset p = off + a * s + k * s \<and> mv_memSize p = s)"
    unfolding leaf_ext_def by blast
  have at: "sv_next sv \<le> (ns @ ms) ! k \<and> (ns @ ms) ! k < sv_next sv2 \<and> (\<exists>p. param_at sv2 ((ns @ ms) ! k) = Some p
               \<and> mv_index p = length (sv_parameters sv) + k \<and> mv_offset p = off + k * s \<and> mv_memSize p = s)"
    if k: "k < a + b" for k
  proof (cases "k < a")
    case True
    from n(7) [rule_format, OF True] obtain p where p: "sv_next sv \<le> ns ! k" "ns ! k < sv_next sv1" "param_at sv1 (ns ! k) = Some p"
      "mv_index p = length (sv_parameters sv) + k" "mv_offset p = off + k * s" "mv_memSize p = s" by blast
    with m(4) have "param_at sv2 (ns ! k) = Some p" by simp
    then show ?thesis using p m(2) True n(4) by (simp add: nth_append)
  next
    case False
    then obtain j where j: "k = a + j" "j < b" using k by (metis add_less_cancel_left le_add_diff_inverse not_le)
    from m(8) [rule_format, OF j(2)] obtain p where p: "sv_next sv1 \<le> ms ! j" "ms ! j < sv_next sv2" "param_at sv2 (ms ! j) = Some p"
      "mv_index p = length (sv_parameters sv1) + j" "mv_offset p = off + a * s + j * s" "mv_memSize p = s" by blast
    then show ?thesis using j n(1,4,5) by (simp add: nth_append add_mult_distrib)
  qed
  show ?thesis
    unfolding leaf_ext_def
    using m(1) n(1) m(2) n(2) m(3) n(3) m(4) n(4) m(5) n(5) m(6) n(6) m(7) at
    by (intro conjI exI [of _ "ns @ ms"]) (auto simp: fun_eq_iff)
qed

abbreviation create_dispatch where
  "create_dispatch base v \<equiv> dispatch (newVariable (createVariable_parameter base v)) newDimension newField CreateVariable_copy"

abbreviation create_loop where
  "create_loop base v \<equiv> dims_loop (newVariable (createVariable_parameter base v)) newDimension newField CreateVariable_copy"

lemma path_ok_copy [simp]: "CreateVariable_path (CreateVariable_copy c) = CreateVariable_path c" "cv_parent (CreateVariable_copy c) = cv_parent c"
  by (simp_all add: CreateVariable_copy_def CreateVariable_path_def)

definition prefix_ok :: "cvar \<Rightarrow> bool" where
  "prefix_ok c \<longleftrightarrow> path_ok (cv_prefix c) \<and> CHR ''<'' \<notin> set (cv_name c)"

lemma prefix_ok_path: "prefix_ok c \<Longrightarrow> path_ok (CreateVariable_path c)"
  by (auto simp: prefix_ok_def path_ok_def CreateVariable_path_def slash_def)

lemma prefix_ok_copy: "prefix_ok c \<Longrightarrow> prefix_ok (CreateVariable_copy c)"
  using prefix_ok_path [of c] by (simp add: prefix_ok_def CreateVariable_copy_def)

lemma prefix_ok_dim: "prefix_ok c \<Longrightarrow> prefix_ok (newDimension i c)"
  using show_nat_digits [of i] by (auto simp: prefix_ok_def newDimension_def list_all_iff is_digit_def)

lemma primary_is [simp]: "isPrimary (PrimaryType T)"
  by (cases T) (simp_all add: isPrimary_def)

lemma leaf_dispatch:
  assumes f: "sv_fresh sv" and c: "prefix_ok c" "cv_parent c = Some r" "r < sv_next sv" and dim: "0 < length dim"
  shows "\<exists>sv'. create_dispatch base v (PrimaryType T) s dim (length dim) i c off sv = Some sv' \<and> leaf_ext r (sizeof T) 1 off sv sv'"
proof -
  let ?c = "CreateVariable_copy c"
  obtain sv' where w: "createVariable_parameter base v (PrimaryType T) [1] off ?c sv = Some (False, ?c\<lparr>cv_parent := Some (sv_next sv)\<rparr>, sv')"
    "one_param (cv_parent ?c) (va_id v) (sizeof T * nelem [1]) off sv sv'"
    using create_one [OF f, of ?c base v T "[1]" off] prefix_ok_path [OF c(1)] c by auto
  then have "leaf_ext r (sizeof T) 1 off sv sv'"
    unfolding leaf_ext_def one_param_def using c(2) by (intro conjI exI [of _ "[sv_next sv]"]) (auto simp: nelem_def)
  moreover have "create_dispatch base v (PrimaryType T) s dim (length dim) i c off sv = Some sv'"
    using w(1) dim f by (subst dispatch.simps) (simp add: newVariable_def Let_def sv_fresh_def)
  ultimately show ?thesis by blast
qed

lemma leaf_ext_fresh: "leaf_ext r s n off sv sv' \<Longrightarrow> sv_fresh sv' \<and> sv_next sv \<le> sv_next sv'"
  by (simp add: leaf_ext_def)

lemma loop_leaves:
  assumes "\<And>c i off sv. sv_fresh sv \<Longrightarrow> prefix_ok c \<Longrightarrow> cv_parent c = Some r \<Longrightarrow> r < sv_next sv \<Longrightarrow>
      \<exists>sv'. create_dispatch base v (PrimaryType T) (sizeof T * P) dim dimIdx i c off sv = Some sv' \<and> leaf_ext r (sizeof T) P off sv sv'"
    and "sv_fresh sv" and "prefix_ok c" "cv_parent c = Some r" "r < sv_next sv"
  shows "\<exists>sv'. create_loop base v (PrimaryType T) (sizeof T * P) dim dimIdx end i c off sv = Some sv'
    \<and> leaf_ext r (sizeof T) ((end - i) * P) off sv sv'"
  using assms(2-)
proof (induction "end - i" arbitrary: i c off sv)
  case 0
  then show ?case by (subst dims_loop.simps) (simp add: leaf_ext_none)
next
  case (Suc n)
  have i: "i < end" "n = end - Suc i" using Suc.hyps(2) by linarith+
  let ?c = "newDimension i c"
  have c: "prefix_ok ?c" "cv_parent ?c = Some r" using Suc.prems prefix_ok_dim [of c i] by (simp_all add: newDimension_def)
  obtain sv1 where w: "create_dispatch base v (PrimaryType T) (sizeof T * P) dim dimIdx i ?c off sv = Some sv1" "leaf_ext r (sizeof T) P off sv sv1"
    using assms(1) [OF Suc.prems(1) c Suc.prems(4)] by blast
  have f: "sv_fresh sv1" "r < sv_next sv1" using leaf_ext_fresh [OF w(2)] Suc.prems(4) by auto
  obtain sv2 where z: "create_loop base v (PrimaryType T) (sizeof T * P) dim dimIdx end (Suc i) ?c (off + sizeof T * P) sv1 = Some sv2"
      "leaf_ext r (sizeof T) ((end - Suc i) * P) (off + P * sizeof T) sv1 sv2"
    using Suc.hyps(1) [OF i(2) f(1) c f(2), of "off + sizeof T * P"] by (auto simp: mult.commute)
  have "leaf_ext r (sizeof T) (P + (end - Suc i) * P) off sv sv2" using leaf_ext_append [OF w(2) z(2)] .
  moreover have "P + (end - Suc i) * P = (end - i) * P" using i(1) by (simp add: Suc_diff_Suc flip: mult_Suc)
  ultimately show ?case using i(1) w(1) z(1) by (subst dims_loop.simps) (auto simp: Let_def)
qed

lemma dispatch_leaves:
  assumes "\<forall>x\<in>set dim. 0 < x" and "\<not> isScalar dim" and "0 < dimIdx" "dimIdx \<le> length dim"
    and "sv_fresh sv" "prefix_ok c" "cv_parent c = Some r" "r < sv_next sv"
  shows "\<exists>sv'. create_dispatch base v (PrimaryType T) (sizeof T * prod_list (drop dimIdx dim)) dim dimIdx i c off sv = Some sv'
    \<and> leaf_ext r (sizeof T) (prod_list (drop dimIdx dim)) off sv sv'"
  using assms(3-)
proof (induction "length dim - dimIdx" arbitrary: dimIdx i c off sv)
  case 0
  then show ?case using leaf_dispatch [of sv c r dim] by auto
next
  case (Suc n)
  have lt: "dimIdx < length dim" "n = length dim - Suc dimIdx" using Suc.hyps(2) by linarith+
  let ?P = "prod_list (drop (Suc dimIdx) dim)" and ?d = "dim ! dimIdx"
  have d: "drop dimIdx dim = ?d # drop (Suc dimIdx) dim" "0 < ?d" using lt(1) assms(1) by (simp_all add: Cons_nth_drop_Suc)
  have IH: "\<exists>sv'. create_dispatch base v (PrimaryType T) (sizeof T * ?P) dim (Suc dimIdx) i c off sv = Some sv' \<and> leaf_ext r (sizeof T) ?P off sv sv'"
    if "sv_fresh sv" "prefix_ok c" "cv_parent c = Some r" "r < sv_next sv" for c i off sv
    using Suc.hyps(1) [OF lt(2) _ _ that] lt(1) by simp
  have c: "prefix_ok (CreateVariable_copy c)" "cv_parent (CreateVariable_copy c) = Some r" using Suc.prems prefix_ok_copy by auto
  have "sizeof T * (?d * ?P) div ?d = sizeof T * ?P" using d(2) by (simp add: mult.left_commute)
  then have sz: "sizeof T * prod_list (drop dimIdx dim) div ?d = sizeof T * ?P" by (simp only: d(1) prod_list.Cons)
  have "newVariable (createVariable_parameter base v) (PrimaryType T) dim dimIdx i off (CreateVariable_copy c) sv = Some (False, CreateVariable_copy c, sv)"
    using Suc.prems(1,3) lt(1) by (simp add: newVariable_def sv_fresh_def)
  then have "create_dispatch base v (PrimaryType T) (sizeof T * prod_list (drop dimIdx dim)) dim dimIdx i c off sv
      = create_loop base v (PrimaryType T) (sizeof T * ?P) dim (Suc dimIdx) ?d 0 (CreateVariable_copy c) off sv"
    using lt(1) d(2) assms(2) by (subst dispatch.simps) (simp add: iterateDims.simps sz)
  with loop_leaves [OF IH Suc.prems(3) c Suc.prems(6), of ?d 0 off] show ?case by (simp only: d(1) prod_list.Cons diff_zero)
qed

definition array_tree :: "nat \<Rightarrow> nat \<Rightarrow> nat \<Rightarrow> mpar" where
  "array_tree idx s n = MPar idx 0 (s * n) (map (\<lambda>k. MPar (Suc (idx + k)) (k * s) s []) [0..<n])"

lemma root_dispatch:
  assumes f: "sv_fresh sv" and c: "prefix_ok c" "cv_parent c = None" and dim: "\<forall>x\<in>set dim. 0 < x" "prod_list dim < 2 ^ 32" "1 < prod_list dim"
  shows "\<exists>sv1 sv'. create_dispatch base v (PrimaryType T) (sizeof T * nelem dim) dim 0 0 c 0 sv = Some sv'
    \<and> one_param None (va_id v) (sizeof T * nelem dim) 0 sv sv1 \<and> leaf_ext (sv_next sv) (sizeof T) (prod_list dim) 0 sv1 sv'"
proof -
  have n: "nelem dim = prod_list dim" by (rule nelem_exact [OF dim(2)])
  obtain d ds where ds: "dim = d # ds" using dim(3) by (cases dim) auto
  have ns: "\<not> isScalar dim" using n dim(3) by (simp add: isScalar_def)
  let ?c = "CreateVariable_copy c" and ?P = "prod_list ds"
  obtain sv1 where w: "createVariable_parameter base v (PrimaryType T) dim 0 ?c sv = Some (False, ?c\<lparr>cv_parent := Some (sv_next sv)\<rparr>, sv1)"
    "one_param None (va_id v) (sizeof T * nelem dim) 0 sv sv1"
    using create_one [OF f, of ?c base v T dim 0] prefix_ok_path [OF c(1)] c by auto
  let ?c1 = "?c\<lparr>cv_parent := Some (sv_next sv)\<rparr>"
  have c1: "prefix_ok ?c1" "cv_parent ?c1 = Some (sv_next sv)" using prefix_ok_copy [OF c(1)] by (simp_all add: prefix_ok_def)
  have f1: "sv_fresh sv1" "sv_next sv < sv_next sv1" using w(2) by (simp_all add: one_param_def)
  have leaves: "\<exists>sv'. create_dispatch base v (PrimaryType T) (sizeof T * ?P) dim (Suc 0) i c off sv = Some sv'
      \<and> leaf_ext r (sizeof T) ?P off sv sv'"
    if "sv_fresh sv" "prefix_ok c" "cv_parent c = Some r" "r < sv_next sv" for c i off sv r
    using dispatch_leaves [OF dim(1) ns _ _ that, of "Suc 0" base v T i off] ds by auto
  have "sizeof T * (d * ?P) div d = sizeof T * ?P" using dim(1) ds by (simp add: mult.left_commute)
  then have sz: "sizeof T * nelem dim div d = sizeof T * ?P" unfolding n unfolding ds prod_list.Cons .
  have "newVariable (createVariable_parameter base v) (PrimaryType T) dim 0 0 0 ?c sv = Some (False, ?c1, sv1)"
    using w(1) by (simp add: newVariable_def)
  then have "create_dispatch base v (PrimaryType T) (sizeof T * nelem dim) dim 0 0 c 0 sv
      = create_loop base v (PrimaryType T) (sizeof T * nelem dim div d) dim (Suc 0) d 0 ?c1 0 sv1"
    using ns dim(1) by (subst dispatch.simps) (simp add: iterateDims.simps ds)
  moreover obtain sv' where "create_loop base v (PrimaryType T) (sizeof T * ?P) dim (Suc 0) d 0 ?c1 0 sv1 = Some sv'"
      "leaf_ext (sv_next sv) (sizeof T) ((d - 0) * ?P) 0 sv1 sv'"
    using loop_leaves [OF leaves f1(1) c1 f1(2), of d 0 0] by blast
  ultimately show ?thesis using w(2) sz ds by auto
qed

lemma tree_of_leaves:
  assumes one: "one_param None v (s * n) 0 sv sv1" and ext: "leaf_ext (sv_next sv) s n 0 sv1 sv'" and f: "sv_fresh sv"
  shows "param_tree sv' (sv_next sv) = array_tree (length (sv_parameters sv)) s n"
proof -
  let ?r = "sv_next sv" and ?i = "length (sv_parameters sv)"
  from one obtain p where o: "sv_next sv < sv_next sv1" "sv_parameters sv1 = sv_parameters sv @ [?r]" "sv_kids sv1 = sv_kids sv"
      "param_at sv1 ?r = Some p" "mv_index p = ?i" "mv_offset p = 0" "mv_memSize p = s * n"
    by (auto simp: one_param_def)
  from ext obtain ns where e: "sv_fresh sv'" "sv_next sv1 \<le> sv_next sv'" "\<forall>x < sv_next sv1. param_at sv' x = param_at sv1 x" "length ns = n"
      "sv_kids sv' = (sv_kids sv1)(?r := sv_kids sv1 ?r @ ns)"
      "\<forall>k<n. sv_next sv1 \<le> ns ! k \<and> ns ! k < sv_next sv' \<and> (\<exists>p. param_at sv' (ns ! k) = Some p
               \<and> mv_index p = length (sv_parameters sv1) + k \<and> mv_offset p = 0 + k * s \<and> mv_memSize p = s)"
    unfolding leaf_ext_def by blast
  have none: "sv_kids sv x = []" if "?r \<le> x" for x using f that by (simp add: sv_fresh_def)
  then have kids: "sv_kids sv' ?r = ns" "\<And>x. ?r < x \<Longrightarrow> sv_kids sv' x = []" using e(5) o(3) by auto
  have leaf: "param_tree sv' (ns ! k) = MPar (Suc (?i + k)) (k * s) s []" if "k < n" for k
  proof -
    from e(6) that obtain p where "sv_next sv1 \<le> ns ! k" "param_at sv' (ns ! k) = Some p" "mv_index p = Suc (?i + k)" "mv_offset p = k * s" "mv_memSize p = s"
      using o(2) by auto
    then show ?thesis using kids(2) [of "ns ! k"] o(1) by (subst param_tree.simps) simp
  qed
  have "filter (\<lambda>m. ?r < m \<and> m < sv_next sv') ns = ns"
    using e(6) o(1) by (auto simp: filter_id_conv in_set_conv_nth e(4)) (meson less_le_trans)
  moreover have "map (param_tree sv') ns = map (\<lambda>k. MPar (Suc (?i + k)) (k * s) s []) [0..<n]"
    by (rule nth_equalityI) (simp_all add: e(4) leaf)
  moreover have "param_at sv' ?r = Some p" using e(3) o(1,4) by simp
  ultimately show ?thesis using kids(1) o(5-7) by (subst param_tree.simps) (simp add: array_tree_def)
qed

lemma tree_ok_array: "tree_ok (array_tree idx s n)"
proof -
  have "k * s + s \<le> s * n" if "k < n" for k using mult_le_mono1 [of "Suc k" n s] that by (simp add: mult.commute)
  moreover have "sorted (map (\<lambda>k. k * s) [0..<n])" by (intro sorted_map_mono) (auto intro!: monotone_onI)
  ultimately show ?thesis by (auto simp: array_tree_def comp_def)
qed

lemma array_announced:
  assumes "e \<le> s * n" "b < e"
  shows "snd (inform b e (array_tree idx s n)) = idx # map (\<lambda>k. Suc (idx + k)) (filter (\<lambda>k. b < k * s + s \<and> k * s < e) [0..<n])"
proof -
  have "concat (map preorder (map (\<lambda>k. MPar (Suc (idx + k)) (k * s) s []) [0..<n])) = map (\<lambda>k. MPar (Suc (idx + k)) (k * s) s []) [0..<n]"
    by (induction n) auto
  then show ?thesis using inform_equiv(1) [OF tree_ok_array, of b e idx s n] assms
    by (auto simp: array_tree_def overlaps_def filter_map comp_def)
qed

text \<open>
  Property C31 (array_change_announced): with split vectors, a parameter of a primary type whose extents are
  positive, whose number of elements is below \<open>2 ^ 32\<close> and whose path has no attributes is entered in
  the server together with one parameter per element, and afterwards a change of the bytes from
  \<open>b\<close> up to \<open>b + cnt\<close> is announced for the parameter and for exactly the elements that overlap them.
\<close>

theorem array_change_announced:
  assumes "va_dtype v = PrimaryType T" and "\<forall>x\<in>set (va_dim v). 0 < x" and "1 < prod_list (va_dim v)" and "prod_list (va_dim v) < 2 ^ 32"
    and "path_ok (va_path v)" and "sv_fresh sv" and "0 < cnt" and "b + cnt \<le> sizeof T * prod_list (va_dim v)"
  shows "\<exists>sv'. create_parameter base v sv = Some sv' \<and>
    Server_parameterChanged sv' (va_id v) b cnt
    = Some (length (sv_parameters sv) # map (\<lambda>k. Suc (length (sv_parameters sv) + k))
        (filter (\<lambda>k. b < k * sizeof T + sizeof T \<and> k * sizeof T < b + cnt) [0..<prod_list (va_dim v)]))"
proof -
  let ?sv = "sv\<lparr>sv_maxInput := max (sv_maxInput sv) (va_memSize v * 4)\<rparr>"
  have n: "nelem (va_dim v) = prod_list (va_dim v)" using assms(4) by (rule nelem_exact)
  have f: "sv_fresh ?sv" using assms(6) by (simp add: sv_fresh_def)
  have c: "prefix_ok (CreateVariable_new v)" "cv_parent (CreateVariable_new v) = None"
    using assms(5) by (simp_all add: prefix_ok_def CreateVariable_new_def)
  obtain sv1 sv' where w: "create_dispatch base v (PrimaryType T) (sizeof T * nelem (va_dim v)) (va_dim v) 0 0 (CreateVariable_new v) 0 ?sv = Some sv'"
      "one_param None (va_id v) (sizeof T * nelem (va_dim v)) 0 ?sv sv1" "leaf_ext (sv_next ?sv) (sizeof T) (prod_list (va_dim v)) 0 sv1 sv'"
    using root_dispatch [OF f c assms(2,4,3), of base v T] by blast
  have "create_parameter base v sv = Some sv'" using w(1) assms(1) by (simp add: create_parameter_def Iterator_run_def)
  moreover have "sv_parameterMap sv' (va_id v) = Some (sv_next ?sv)" using w(2,3) by (simp add: one_param_def leaf_ext_def)
  moreover have "param_tree sv' (sv_next ?sv) = array_tree (length (sv_parameters sv)) (sizeof T) (prod_list (va_dim v))"
    using tree_of_leaves [OF w(2) [unfolded n] w(3) f] by simp
  ultimately show ?thesis using array_announced [OF assms(8)] assms(7) by (simp add: Server_parameterChanged_def)
qed

definition demo_server :: msr_server where
  "demo_server = the (Server_new [] [] True None 0 0)"

theorem array_change_announced_witness:
  "\<exists>sv'. create_parameter 0 (Main_Variable_new 7 ''/a'' (PrimaryType C_int32) 2 (Some [2, 3])) demo_server = Some sv'
     \<and> Server_parameterChanged sv' 7 10 6 = Some [0, 3, 4]"
proof -
  let ?v = "Main_Variable_new 7 ''/a'' (PrimaryType C_int32) 2 (Some [2, 3])"
  have v: "va_dtype ?v = PrimaryType C_int32" "va_dim ?v = [2, 3]" "va_path ?v = ''/a''" "va_id ?v = 7"
    by (simp_all add: Main_Variable_new_def mk_dims_def Let_def)
  have s: "sv_fresh demo_server" "sv_parameters demo_server = []"
    by (simp_all add: demo_server_def Server_new_def new_node_def Server_createParameters_def sv_fresh_def fresh_dirs_def)
  have p: "path_ok (va_path ?v)" by (simp add: v path_ok_def slash_def)
  have "filter (\<lambda>k. (10 :: nat) < k * 4 + 4 \<and> k * 4 < 10 + 6) [0..<6] = [2, 3]" by (simp add: upt_rec)
  then show ?thesis
    using array_change_announced [OF v(1) _ _ _ p s(1), of 6 10 0] by (simp add: v s(2))
qed

section \<open>Elements that are not reached\<close>

text \<open>
  The sizes that \<open>iterateFields\<close> hands to \<open>dispatch\<close> leave out the number of elements of the field. For a
  field of two 32 bit integers the second element is looked for at the offset 2.
\<close>

definition offsets_visitor :: "dtype \<Rightarrow> nat list \<Rightarrow> nat \<Rightarrow> nat \<Rightarrow> nat \<Rightarrow> unit \<Rightarrow> nat list \<Rightarrow> (bool \<times> unit \<times> nat list) option" where
  "offsets_visitor ty dim dimIdx elemIdx off c st =
     Some (False, c, if isPrimary ty \<and> dimIdx = length dim then st @ [off] else st)"

lemma array_field_offsets:
  "dispatch offsets_visitor (\<lambda>i c. c) (\<lambda>s c. c) (\<lambda>c. c) (CompoundType ''t'' 8 [Field ''x'' (PrimaryType C_int32) 0 [2]]) 8 [1] 0 0 () 0 []
   = Some [0, 2]"
  by (simp add: dispatch.simps iterateDims.simps dims_loop.simps offsets_visitor_def isScalar_def nelem_def isPrimary_def)

text \<open>
  The fields of a compound become parameters without a common parent, and \<open>parameterMap\<close> keeps the last
  of them: a change of the first field is announced to nobody.
\<close>

lemma scalar_dispatch:
  assumes "sv_fresh sv" and "prefix_ok c" "cv_parent c = None"
  shows "\<exists>sv'. create_dispatch base v (PrimaryType T) s [1] 0 0 c off sv = Some sv' \<and> one_param None (va_id v) (sizeof T) off sv sv'"
proof -
  let ?c = "CreateVariable_copy c"
  obtain sv' where w: "createVariable_parameter base v (PrimaryType T) [1] off ?c sv = Some (False, ?c\<lparr>cv_parent := Some (sv_next sv)\<rparr>, sv')"
    "one_param None (va_id v) (sizeof T * nelem [1]) off sv sv'"
    using create_one [OF assms(1), of ?c base v T "[1]" off] prefix_ok_path [OF assms(2)] assms by auto
  moreover have "nelem [1] = 1" by (simp add: nelem_def)
  ultimately show ?thesis by (intro exI [of _ sv']) (simp add: dispatch.simps newVariable_def isScalar_def)
qed

lemma compound_change_unannounced:
  assumes v: "va_dtype v = CompoundType nm sz [Field x (PrimaryType T) 0 [1], Field y (PrimaryType U) off [1]]" "va_dim v = [1]"
    and "path_ok (va_path v)" "CHR ''<'' \<notin> set x" "CHR ''<'' \<notin> set y" "sv_fresh sv" "sizeof T \<le> off"
  shows "\<exists>sv'. create_parameter base v sv = Some sv' \<and> Server_parameterChanged sv' (va_id v) 0 (sizeof T) = Some []"
proof -
  let ?sv = "sv\<lparr>sv_maxInput := max (sv_maxInput sv) (va_memSize v * 4)\<rparr>" and ?c = "CreateVariable_copy (CreateVariable_new v)"
  have f: "sv_fresh ?sv" using assms(6) by (simp add: sv_fresh_def)
  have c: "prefix_ok ?c" "cv_parent ?c = None"
    using assms(3) prefix_ok_copy [of "CreateVariable_new v"] by (simp_all add: prefix_ok_def CreateVariable_new_def)
  have c1: "prefix_ok (newField x ?c)" "prefix_ok (newField y (newField x ?c))" using c(1) assms(4,5) by (simp_all add: prefix_ok_def newField_def)
  have c2: "cv_parent (newField x ?c) = None" "cv_parent (newField y (newField x ?c)) = None" using c(2) by (simp_all add: newField_def)
  obtain sv1 where w1: "create_dispatch base v (PrimaryType T) (sizeof T) [1] 0 0 (newField x ?c) 0 ?sv = Some sv1"
    "one_param None (va_id v) (sizeof T) 0 ?sv sv1" using scalar_dispatch [OF f c1(1) c2(1)] by blast
  have f1: "sv_fresh sv1" using w1(2) by (simp add: one_param_def)
  obtain sv2 where w2: "create_dispatch base v (PrimaryType U) (sizeof U) [1] 0 0 (newField y (newField x ?c)) off sv1 = Some sv2"
    "one_param None (va_id v) (sizeof U) off sv1 sv2" using scalar_dispatch [OF f1 c1(2) c2(2)] by blast
  have sc: "isScalar [1]" by (simp add: isScalar_def nelem_def)
  have "newVariable (createVariable_parameter base v) (va_dtype v) [1] 0 0 0 ?c ?sv = Some (False, ?c, ?sv)"
    by (simp add: newVariable_def isPrimary_def v)
  then have "create_dispatch base v (va_dtype v) s [1] 0 0 (CreateVariable_new v) 0 ?sv = Some sv2" for s
    using w1(1) w2(1) sc by (subst dispatch.simps) (simp add: v)
  then have "create_parameter base v sv = Some sv2" by (simp add: create_parameter_def Iterator_run_def v)
  moreover obtain p where p: "sv_parameterMap sv2 (va_id v) = Some (sv_next sv1)" "param_at sv2 (sv_next sv1) = Some p" "mv_offset p = off" "mv_memSize p = sizeof U"
    using w2(2) by (auto simp: one_param_def)
  moreover have "snd (inform 0 (sizeof T) (param_tree sv2 (sv_next sv1))) = []"
    using p assms(7) by (subst param_tree.simps) simp
  ultimately show ?thesis by (simp add: Server_parameterChanged_def)
qed

end
