(* ===== verification/Persistence.thy ===== *)
theory Persistence
  imports Msr_Server
begin

text \<open>
  \<open>src/Database.cpp\<close> and the persistent parameters of \<open>src/Main.cpp\<close>: values that are written to a
  database when they change and restored when the application starts. The database itself is a key and
  value store of another library; \<open>get\<close>, \<open>put\<close>, \<open>del\<close> and \<open>keys\<close> stand for its operations. Log messages are left out.
\<close>

section \<open>Records of the database\<close>

fun le_bytes :: "nat \<Rightarrow> nat \<Rightarrow> u8 list" where
  "le_bytes 0 v = []"
| "le_bytes (Suc n) v = of_nat v # le_bytes n (v div 256)"

definition i64_bytes :: "int \<Rightarrow> u8 list" where
  "i64_bytes i = le_bytes 8 (nat (i mod 2 ^ 64))"

fun primary_id :: "primary \<Rightarrow> u8" where
  "primary_id compound_T = 0"
| "primary_id boolean_T = 1"
| "primary_id uint8_T = 2"
| "primary_id int8_T = 3"
| "primary_id uint16_T = 4"
| "primary_id int16_T = 5"
| "primary_id uint32_T = 6"
| "primary_id int32_T = 7"
| "primary_id uint64_T = 8"
| "primary_id int64_T = 9"
| "primary_id double_T = 10"
| "primary_id single_T = 11"

text \<open>
  \<open>struct pdata\<close>: two bytes, six bytes of padding (\<open>pad\<close>, never initialised), the number of elements, seconds
  and nanoseconds in eight bytes each, then the value.
\<close>

definition sizeof_pdata :: nat where
  "sizeof_pdata = 32"

definition pdata_bytes :: "u8 list \<Rightarrow> main_var \<Rightarrow> u8 list \<Rightarrow> timespec \<Rightarrow> u8 list" where
  "pdata_bytes pad p buf mtime =
     [1, primary_id (primary_of (va_dtype p))] @ pad @ le_bytes 8 (nelem (va_dim p))
     @ i64_bytes (fst mtime) @ i64_bytes (snd mtime) @ take (va_memSize p) buf"

text \<open>The handle is \<open>None\<close> when the database could not be opened.\<close>

definition Database_save :: "(string \<Rightarrow> u8 list \<Rightarrow> 'db \<Rightarrow> 'db) \<Rightarrow> u8 list \<Rightarrow> main_var \<Rightarrow> u8 list \<Rightarrow> timespec \<Rightarrow> 'db option \<Rightarrow> 'db option" where
  "Database_save put pad p buf mtime db = map_option (put (va_path p) (pdata_bytes pad p buf mtime)) db"

definition Database_read :: "(string \<Rightarrow> 'db \<Rightarrow> u8 list option) \<Rightarrow> main_var \<Rightarrow> 'db option \<Rightarrow> (u8 list \<times> timespec) option" where
  "Database_read get p db =
     (case db of
        None \<Rightarrow> None
      | Some d \<Rightarrow>
          (case get (va_path p) d of
             None \<Rightarrow> None
           | Some v \<Rightarrow>
               if length v < sizeof_pdata then None
               else if v ! 0 = 1 then
                 if length v < sizeof_pdata + va_memSize p then None
                 else if v ! 1 \<noteq> primary_id (primary_of (va_dtype p)) then None
                 else if le_nat (slice 8 8 v) \<noteq> nelem (va_dim p) then None
                 else Some (slice sizeof_pdata (va_memSize p) v, le_int (slice 16 8 v), le_int (slice 24 8 v))
               else None))"

text \<open>The loop over the cursor: keys that are not wanted are deleted.\<close>

fun check_loop :: "(string \<Rightarrow> 'db \<Rightarrow> 'db) \<Rightarrow> string set \<Rightarrow> string list \<Rightarrow> 'db \<Rightarrow> 'db" where
  "check_loop del keySet [] d = d"
| "check_loop del keySet (k # ks) d = check_loop del keySet ks (if k \<in> keySet then d else del k d)"

definition Database_checkKeys :: "('db \<Rightarrow> string list) \<Rightarrow> (string \<Rightarrow> 'db \<Rightarrow> 'db) \<Rightarrow> string set \<Rightarrow> 'db option \<Rightarrow> 'db option" where
  "Database_checkKeys keys del keySet db = map_option (\<lambda>d. check_loop del keySet (keys d) d) db"

section \<open>Persistent parameters\<close>

text \<open>
  \<open>persistentMap\<close>: the parameter and the signal coupled to it. \<open>initializeParameter\<close> and \<open>makePersistent\<close> are calls of the
  derived class, kept in \<open>pe_init\<close>.
\<close>

record 'db persist =
  pe_map :: "(nat, main_var \<times> main_var option) omap"
  pe_db :: "'db option"
  pe_init :: "(main_var \<times> (u8 list \<times> timespec) option \<times> main_var option) list"

text \<open>
  An entry of the configuration: the path of a parameter and, for a mapping with a signal, the path of the
  signal. \<open>same_type\<close> compares the addresses of two data types.
\<close>

definition find_path :: "main_var list \<Rightarrow> string \<Rightarrow> main_var option" where
  "find_path vs path = List.find (\<lambda>v. va_path v = path) vs"

text \<open>\<open>signalMap[path] = signal\<close> for all signals of all tasks: the last one counts.\<close>

definition signal_map :: "main_var list \<Rightarrow> string \<Rightarrow> main_var option" where
  "signal_map sigs path = find_path (rev sigs) path"

datatype coupling = NoSignal | Coupled main_var | Refused

definition couple :: "(main_var \<Rightarrow> main_var \<Rightarrow> bool) \<Rightarrow> main_var list \<Rightarrow> main_var \<Rightarrow> string option \<Rightarrow> coupling" where
  "couple same_type sigs param item =
     (case item of
        None \<Rightarrow> NoSignal
      | Some path \<Rightarrow>
          if path = [] then NoSignal
          else (case signal_map sigs path of
                  None \<Rightarrow> Refused
                | Some s \<Rightarrow> if \<not> same_type s param then Refused
                            else if va_dim s \<noteq> va_dim param then Refused else Coupled s))"

definition setup_item ::
  "(string \<Rightarrow> 'db \<Rightarrow> u8 list option) \<Rightarrow> (main_var \<Rightarrow> main_var \<Rightarrow> bool) \<Rightarrow> main_var list \<Rightarrow> main_var list
     \<Rightarrow> string \<times> string option \<Rightarrow> string set \<times> 'db persist \<Rightarrow> string set \<times> 'db persist" where
  "setup_item get same_type params sigs item st =
     (let (keys, pe) = st
      in case find_path params (fst item) of
           None \<Rightarrow> st
         | Some param \<Rightarrow>
             if om_get (pe_map pe) (va_id param) \<noteq> None then st
             else
               (case couple same_type sigs param (snd item) of
                  Refused \<Rightarrow> st
                | cp \<Rightarrow>
                    let signal = (case cp of Coupled s \<Rightarrow> Some s | _ \<Rightarrow> None);
                        pe1 = pe\<lparr>pe_map := om_put (va_id param) (param, signal) (pe_map pe)\<rparr>
                    in (insert (va_path param) keys,
                        case Database_read get param (pe_db pe) of
                          Some val \<Rightarrow> pe1\<lparr>pe_init := pe_init pe @ [(param, Some val, signal)]\<rparr>
                        | None \<Rightarrow> if signal \<noteq> None then pe1\<lparr>pe_init := pe_init pe @ [(param, None, signal)]\<rparr> else pe1)))"

text \<open>\<open>setupPersistent\<close>, for a configuration that names a database and at least one variable.\<close>

definition setupPersistent ::
  "(string \<Rightarrow> 'db \<Rightarrow> u8 list option) \<Rightarrow> ('db \<Rightarrow> string list) \<Rightarrow> (string \<Rightarrow> 'db \<Rightarrow> 'db) \<Rightarrow> (main_var \<Rightarrow> main_var \<Rightarrow> bool)
     \<Rightarrow> main_var list \<Rightarrow> main_var list \<Rightarrow> bool \<Rightarrow> (string \<times> string option) list \<Rightarrow> 'db persist \<Rightarrow> 'db persist" where
  "setupPersistent get keys del same_type params sigs cleanup items pe =
     (let (ks, pe1) = fold (setup_item get same_type params sigs) items ({}, pe)
      in if cleanup then pe1\<lparr>pe_db := Database_checkKeys keys del ks (pe_db pe1)\<rparr> else pe1)"

text \<open>The part of \<open>Main::setValue\<close> that saves a changed parameter; \<open>value\<close> is the result of \<open>copyValue\<close>.\<close>

definition save_changed :: "(string \<Rightarrow> u8 list \<Rightarrow> 'db \<Rightarrow> 'db) \<Rightarrow> u8 list \<Rightarrow> nat \<Rightarrow> u8 list \<times> timespec \<Rightarrow> 'db persist \<Rightarrow> 'db persist" where
  "save_changed put pad ident val pe =
     (case om_get (pe_map pe) ident of
        None \<Rightarrow> pe
      | Some (p, s) \<Rightarrow>
          pe\<lparr>pe_db := Database_save put pad p (fst val) (snd val) (pe_db pe),
             pe_map := (if s \<noteq> None then om_put ident (p, None) (pe_map pe) else pe_map pe)\<rparr>)"

text \<open>\<open>savePersistent\<close>: only pairs are saved; \<open>sigval\<close> is \<open>getPersistentSignalValue\<close>.\<close>

fun save_pairs ::
  "(string \<Rightarrow> u8 list \<Rightarrow> 'db \<Rightarrow> 'db) \<Rightarrow> u8 list \<Rightarrow> (main_var \<Rightarrow> (u8 list \<times> timespec) option)
     \<Rightarrow> (nat, main_var \<times> main_var option) omap \<Rightarrow> 'db option \<Rightarrow> 'db option" where
  "save_pairs put pad sigval [] db = db"
| "save_pairs put pad sigval ((i, p, s) # m) db =
     save_pairs put pad sigval m
       (case s of
          None \<Rightarrow> db
        | Some sig \<Rightarrow> (case sigval sig of None \<Rightarrow> db | Some (buf, t) \<Rightarrow> Database_save put pad p buf t db))"

definition savePersistent ::
  "(string \<Rightarrow> u8 list \<Rightarrow> 'db \<Rightarrow> 'db) \<Rightarrow> u8 list \<Rightarrow> (main_var \<Rightarrow> (u8 list \<times> timespec) option) \<Rightarrow> 'db persist \<Rightarrow> 'db persist" where
  "savePersistent put pad sigval pe =
     (if pe_map pe = [] \<or> pe_db pe = None then pe
      else pe\<lparr>pe_db := save_pairs put pad sigval (pe_map pe) (pe_db pe)\<rparr>)"

section \<open>A record reads back\<close>

lemma length_le_bytes [simp]: "length (le_bytes n v) = n"
  by (induction n v rule: le_bytes.induct) auto

lemma le_nat_bytes: "v < 256 ^ n \<Longrightarrow> le_nat (le_bytes n v) = v"
proof (induction n v rule: le_bytes.induct)
  case (2 n v)
  have "v div 256 < 256 ^ n" using 2(2) by (simp add: less_mult_imp_div_less mult.commute)
  then have "le_nat (le_bytes n (v div 256)) = v div 256" by (rule 2(1))
  moreover have "unat (of_nat v :: u8) = v mod 256" by (simp add: unat_of_nat)
  ultimately show ?case by simp
qed simp

lemma le_int_bytes:
  assumes "- (2 ^ 63) \<le> i" and "i < 2 ^ 63"
  shows "le_int (i64_bytes i) = i"
proof -
  have m: "0 \<le> i mod 2 ^ 64" "i mod 2 ^ 64 < 2 ^ 64" by simp_all
  then have "nat (i mod 2 ^ 64) < 256 ^ 8" by (simp add: nat_less_iff)
  then have v: "le_nat (i64_bytes i) = nat (i mod 2 ^ 64)" unfolding i64_bytes_def by (rule le_nat_bytes)
  have l: "length (i64_bytes i) = 8" by (simp add: i64_bytes_def)
  show ?thesis
  proof (cases "0 \<le> i")
    case True
    then have "i mod 2 ^ 64 = i" using assms(2) by (intro mod_pos_pos_trivial) auto
    then show ?thesis using v l True assms(2) by (simp add: le_int_def)
  next
    case False
    have "i mod 2 ^ 64 = (i + 2 ^ 64) mod 2 ^ 64" by simp
    also have "\<dots> = i + 2 ^ 64" using False assms(1) by (intro mod_pos_pos_trivial) auto
    finally have "i mod 2 ^ 64 = i + 2 ^ 64" .
    then show ?thesis using v l False assms(1) by (simp add: le_int_def)
  qed
qed

lemma pdata_parts:
  assumes "length pad = 6"
  shows "pdata_bytes pad p buf m ! 0 = 1" and "pdata_bytes pad p buf m ! Suc 0 = primary_id (primary_of (va_dtype p))"
    and "slice 8 8 (pdata_bytes pad p buf m) = le_bytes 8 (nelem (va_dim p))"
    and "slice 16 8 (pdata_bytes pad p buf m) = i64_bytes (fst m)"
    and "slice 24 8 (pdata_bytes pad p buf m) = i64_bytes (snd m)"
    and "slice 32 n (pdata_bytes pad p buf m) = take n (take (va_memSize p) buf)"
    and "length (pdata_bytes pad p buf m) = 32 + min (length buf) (va_memSize p)"
  using assms by (simp_all add: pdata_bytes_def slice_def i64_bytes_def)

lemma saved_value_reads_back:
  assumes kv: "get (va_path p) (put (va_path p) (pdata_bytes pad p buf m) d) = Some (pdata_bytes pad p buf m)"
    and pad: "length pad = 6" and buf: "length buf = va_memSize p"
    and m: "- (2 ^ 63) \<le> fst m" "fst m < 2 ^ 63" "- (2 ^ 63) \<le> snd m" "snd m < 2 ^ 63" and q: "va_path q = va_path p"
  shows "Database_read get q (Database_save put pad p buf m (Some d))
    = (if primary_id (primary_of (va_dtype q)) = primary_id (primary_of (va_dtype p)) \<and> nelem (va_dim q) = nelem (va_dim p)
          \<and> va_memSize q \<le> va_memSize p
       then Some (take (va_memSize q) buf, m) else None)"
proof -
  have "nelem (va_dim p) < 2 ^ 32" by (simp add: nelem_prod_list)
  then have n: "le_nat (le_bytes 8 (nelem (va_dim p))) = nelem (va_dim p)" by (intro le_nat_bytes) simp
  show ?thesis
    using le_int_bytes [OF m(1,2)] le_int_bytes [OF m(3,4)] buf
    by (auto simp: Database_read_def Database_save_def q kv sizeof_pdata_def pdata_parts [OF pad] n)
qed

section \<open>Starting\<close>

abbreviation inits_of :: "main_var \<Rightarrow> 'db persist \<Rightarrow> (main_var \<times> (u8 list \<times> timespec) option \<times> main_var option) list" where
  "inits_of p pe \<equiv> filter (\<lambda>x. fst x = p) (pe_init pe)"

definition signal_of :: "coupling \<Rightarrow> main_var option" where
  "signal_of c = (case c of Coupled s \<Rightarrow> Some s | _ \<Rightarrow> None)"

text \<open>The calls of \<open>initializeParameter\<close> for a parameter with a stored value, or none, and a signal, or none.\<close>

definition init_calls :: "main_var \<Rightarrow> (u8 list \<times> timespec) option \<Rightarrow> main_var option
    \<Rightarrow> (main_var \<times> (u8 list \<times> timespec) option \<times> main_var option) list" where
  "init_calls p val sg = (if val = None \<and> sg = None then [] else [(p, val, sg)])"

lemma setup_item_eq:
  "setup_item get same params sigs item st =
     (case find_path params (fst item) of
        None \<Rightarrow> st
      | Some q \<Rightarrow>
          if om_get (pe_map (snd st)) (va_id q) \<noteq> None \<or> couple same sigs q (snd item) = Refused then st
          else let sg = signal_of (couple same sigs q (snd item))
            in (insert (va_path q) (fst st), (snd st)\<lparr>pe_map := om_put (va_id q) (q, sg) (pe_map (snd st)),
                 pe_init := pe_init (snd st) @ init_calls q (Database_read get q (pe_db (snd st))) sg\<rparr>))"
  by (cases st) (auto simp: setup_item_def signal_of_def init_calls_def Let_def split: option.splits coupling.splits)

lemma find_path_in: "find_path vs path = Some v \<Longrightarrow> v \<in> set vs \<and> va_path v = path"
  by (auto simp: find_path_def find_Some_iff)

lemma setup_item_db: "pe_db (snd (setup_item get same params sigs item st)) = pe_db (snd st)"
  by (auto simp: setup_item_eq Let_def split: option.splits)

lemma setup_fold_db: "pe_db (snd (fold (setup_item get same params sigs) items st)) = pe_db (snd st)"
  by (induction items arbitrary: st) (simp_all add: setup_item_db)

text \<open>The map holds the first parameter of each path, under its own key; its path is among the keys.\<close>

definition map_inv :: "main_var list \<Rightarrow> (nat, main_var \<times> main_var option) omap \<Rightarrow> bool" where
  "map_inv params m \<longleftrightarrow> om_ok m \<and> (\<forall>i q s. om_get m i = Some (q, s) \<longrightarrow> i = va_id q \<and> find_path params (va_path q) = Some q)"

lemma map_inv_put: "map_inv params m \<Longrightarrow> find_path params (va_path q) = Some q \<Longrightarrow> map_inv params (om_put (va_id q) (q, s) m)"
  by (auto simp: map_inv_def)

definition keys_inv :: "string set \<times> 'db persist \<Rightarrow> bool" where
  "keys_inv st \<longleftrightarrow> (\<forall>i q s. om_get (pe_map (snd st)) i = Some (q, s) \<longrightarrow> va_path q \<in> fst st)"

lemma setup_item_inv:
  assumes "map_inv params (pe_map (snd st))" and "keys_inv st"
  shows "map_inv params (pe_map (snd (setup_item get same params sigs item st))) \<and> keys_inv (setup_item get same params sigs item st)"
proof (cases "find_path params (fst item)")
  case (Some q)
  then have "find_path params (va_path q) = Some q" using find_path_in [OF Some] by simp
  with Some assms map_inv_put show ?thesis by (auto simp: setup_item_eq Let_def keys_inv_def)
qed (use assms in \<open>simp add: setup_item_eq\<close>)

lemma setup_fold_inv:
  "map_inv params (pe_map (snd st)) \<Longrightarrow> keys_inv st \<Longrightarrow>
   map_inv params (pe_map (snd (fold (setup_item get same params sigs) items st))) \<and> keys_inv (fold (setup_item get same params sigs) items st)"
  by (induction items arbitrary: st) (simp_all add: setup_item_inv)

lemma setup_item_other:
  assumes "inj_on va_id (set params)" and "p \<in> set params"
    and "fst item \<noteq> va_path p \<or> om_get (pe_map (snd st)) (va_id p) \<noteq> None"
  shows "om_get (pe_map (snd (setup_item get same params sigs item st))) (va_id p) = om_get (pe_map (snd st)) (va_id p)
    \<and> inits_of p (snd (setup_item get same params sigs item st)) = inits_of p (snd st)"
proof (cases "find_path params (fst item)")
  case (Some q)
  note q = find_path_in [OF Some]
  show ?thesis
  proof (cases "q = p")
    case True
    with Some q assms(3) show ?thesis by (auto simp: setup_item_eq)
  next
    case False
    with assms(1,2) q have "va_id p \<noteq> va_id q" by (auto dest: inj_onD)
    with False Some show ?thesis by (simp add: setup_item_eq Let_def init_calls_def)
  qed
qed (simp add: setup_item_eq)

lemma setup_fold_done:
  assumes "inj_on va_id (set params)" and "p \<in> set params"
  shows "om_get (pe_map (snd st)) (va_id p) \<noteq> None \<Longrightarrow>
    om_get (pe_map (snd (fold (setup_item get same params sigs) items st))) (va_id p) = om_get (pe_map (snd st)) (va_id p)
    \<and> inits_of p (snd (fold (setup_item get same params sigs) items st)) = inits_of p (snd st)"
proof (induction items arbitrary: st)
  case (Cons i items)
  with setup_item_other [OF assms, of i st get same sigs] show ?case by simp
qed simp

lemma setup_fold_hit:
  assumes ids: "inj_on va_id (set params)" and p: "find_path params (va_path p) = Some p"
    and cp: "couple same sigs p x \<noteq> Refused" "sg = signal_of (couple same sigs p x)"
    and "om_get (pe_map (snd st)) (va_id p) = None" and "(va_path p, x) \<in> set items" and "\<forall>i\<in>set items. fst i = va_path p \<longrightarrow> snd i = x"
  shows "om_get (pe_map (snd (fold (setup_item get same params sigs) items st))) (va_id p) = Some (p, sg)
    \<and> inits_of p (snd (fold (setup_item get same params sigs) items st)) = inits_of p (snd st) @ init_calls p (Database_read get p (pe_db (snd st))) sg"
  using assms(5-)
proof (induction items arbitrary: st)
  case (Cons i items)
  let ?st = "setup_item get same params sigs i st"
  have pin: "p \<in> set params" using find_path_in [OF p] by simp
  show ?case
  proof (cases "fst i = va_path p")
    case True
    then have i: "i = (va_path p, x)" using Cons.prems(3) by (cases i) auto
    have h: "om_get (pe_map (snd ?st)) (va_id p) = Some (p, sg)"
      "inits_of p (snd ?st) = inits_of p (snd st) @ init_calls p (Database_read get p (pe_db (snd st))) sg"
      using Cons.prems(1) cp by (simp_all add: setup_item_eq i p Let_def init_calls_def)
    with setup_fold_done [OF ids pin, of ?st get same sigs items] show ?thesis by simp
  next
    case False
    with Cons.prems setup_item_other [OF ids pin, of i st get same sigs] Cons.IH [of ?st] show ?thesis
      by (auto simp: setup_item_db)
  qed
qed simp

section \<open>The database\<close>

text \<open>What the code relies on: a key has the value that was put under it last, other keys keep theirs when one is put or deleted.\<close>

definition store_laws :: "(string \<Rightarrow> 'db \<Rightarrow> u8 list option) \<Rightarrow> (string \<Rightarrow> u8 list \<Rightarrow> 'db \<Rightarrow> 'db) \<Rightarrow> (string \<Rightarrow> 'db \<Rightarrow> 'db) \<Rightarrow> bool" where
  "store_laws get put del \<longleftrightarrow> (\<forall>k v d. get k (put k v d) = Some v) \<and> (\<forall>j k v d. j \<noteq> k \<longrightarrow> get k (put j v d) = get k d)
     \<and> (\<forall>j k d. j \<noteq> k \<longrightarrow> get k (del j d) = get k d)"

lemma store_lawsD:
  assumes "store_laws get put del"
  shows "get k (put k v d) = Some v" and "j \<noteq> k \<Longrightarrow> get k (put j v d) = get k d" and "j \<noteq> k \<Longrightarrow> get k (del j d) = get k d"
  using assms by (auto simp: store_laws_def)

lemma read_cong: "get (va_path p) d' = get (va_path p) d \<Longrightarrow> Database_read get p (Some d') = Database_read get p (Some d)"
  by (simp add: Database_read_def)

lemma check_loop_get:
  "store_laws get put del \<Longrightarrow> k \<in> keySet \<Longrightarrow> get k (check_loop del keySet ks d) = get k d"
proof (induction ks arbitrary: d)
  case (Cons a ks)
  have "get k (if a \<in> keySet then d else del a d) = get k d"
    using Cons.prems(2) store_lawsD(3) [OF Cons.prems(1), of a k d] by auto
  then show ?case using Cons.IH [OF Cons.prems] by simp
qed simp

definition saved_ok :: "main_var \<Rightarrow> u8 list \<times> timespec \<Rightarrow> bool" where
  "saved_ok p v \<longleftrightarrow> length (fst v) = va_memSize p \<and> - (2 ^ 63) \<le> fst (snd v) \<and> fst (snd v) < 2 ^ 63
     \<and> - (2 ^ 63) \<le> snd (snd v) \<and> snd (snd v) < 2 ^ 63"

lemma read_saved:
  assumes "store_laws get put del" and "length pad = 6" and "saved_ok p v"
  shows "Database_read get p (Database_save put pad p (fst v) (snd v) (Some d)) = Some v"
  using saved_value_reads_back [of get p put pad "fst v" "snd v" d p, OF store_lawsD(1) [OF assms(1)]] assms(2,3)
  by (simp add: saved_ok_def)

lemma read_saved_other:
  assumes "store_laws get put del" and "va_path q \<noteq> va_path p"
  shows "Database_read get p (Database_save put pad q buf m (Some d)) = Database_read get p (Some d)"
  unfolding Database_save_def option.map by (rule read_cong) (rule store_lawsD(2) [OF assms])

section \<open>A run of the server\<close>

text \<open>
  What reaches the database while the server runs: changes by clients, with the value that \<open>copyValue\<close> returns, and saves of the
  coupled signals, periodically and when the server stops, with what \<open>getPersistentSignalValue\<close> returns.
\<close>

datatype pop = Changed "u8 list" nat "u8 list \<times> timespec" | Saved "u8 list" "main_var \<Rightarrow> (u8 list \<times> timespec) option"

fun pop_step :: "(string \<Rightarrow> u8 list \<Rightarrow> 'db \<Rightarrow> 'db) \<Rightarrow> pop \<Rightarrow> 'db persist \<Rightarrow> 'db persist" where
  "pop_step put (Changed pad ident val) pe = save_changed put pad ident val pe"
| "pop_step put (Saved pad sigval) pe = savePersistent put pad sigval pe"

text \<open>The latest value of a parameter, with the signal it is coupled to; a change by a client ends the coupling.\<close>

fun latest :: "main_var \<Rightarrow> pop \<Rightarrow> main_var option \<times> (u8 list \<times> timespec) option \<Rightarrow> main_var option \<times> (u8 list \<times> timespec) option" where
  "latest p (Changed pad ident val) (sg, kept) = (if ident = va_id p then (None, Some val) else (sg, kept))"
| "latest p (Saved pad sigval) (sg, kept) =
     (sg, case Option.bind sg sigval of None \<Rightarrow> kept | Some val \<Rightarrow> Some val)"

fun pop_ok :: "main_var \<Rightarrow> main_var option \<Rightarrow> pop \<Rightarrow> bool" where
  "pop_ok p sg (Changed pad ident val) = (length pad = 6 \<and> (if ident = va_id p then saved_ok p val else True))"
| "pop_ok p sg (Saved pad sigval) = (length pad = 6 \<and> (case Option.bind sg sigval of None \<Rightarrow> True | Some val \<Rightarrow> saved_ok p val))"

definition run_inv :: "(string \<Rightarrow> 'db \<Rightarrow> u8 list option) \<Rightarrow> main_var list \<Rightarrow> main_var \<Rightarrow> 'db persist
    \<Rightarrow> main_var option \<times> (u8 list \<times> timespec) option \<Rightarrow> bool" where
  "run_inv get params p pe k \<longleftrightarrow> map_inv params (pe_map pe) \<and> om_get (pe_map pe) (va_id p) = Some (p, fst k)
     \<and> pe_db pe \<noteq> None \<and> Database_read get p (pe_db pe) = snd k"

lemma map_inv_paths:
  "map_inv params m \<Longrightarrow> om_get m i = Some (q, s) \<Longrightarrow> find_path params (va_path p) = Some p \<Longrightarrow> i \<noteq> va_id p \<Longrightarrow> va_path q \<noteq> va_path p"
  unfolding map_inv_def by (metis option.inject)

lemma save_pairs_read:
  assumes laws: "store_laws get put del" and pad: "length pad = 6"
  shows "distinct (map fst m) \<Longrightarrow> \<forall>(i, q, s)\<in>set m. i \<noteq> va_id p \<longrightarrow> va_path q \<noteq> va_path p
    \<Longrightarrow> (\<forall>q s. (va_id p, q, s) \<in> set m \<longrightarrow> q = p \<and> (\<forall>v. Option.bind s sigval = Some v \<longrightarrow> saved_ok p v))
    \<Longrightarrow> \<exists>d'. save_pairs put pad sigval m (Some d) = Some d' \<and> Database_read get p (Some d') =
        (case Option.bind (map_of m (va_id p)) (\<lambda>(q, s). Option.bind s sigval) of None \<Rightarrow> Database_read get p (Some d) | Some v \<Rightarrow> Some v)"
proof (induction m arbitrary: d)
  case (Cons e m)
  obtain i q s where e: "e = (i, q, s)" by (cases e) auto
  show ?case
  proof (cases "Option.bind s sigval")
    case None
    then have eq: "save_pairs put pad sigval (e # m) (Some d) = save_pairs put pad sigval m (Some d)"
      by (cases s) (simp_all add: e)
    have "map_of m (va_id p) = None" if "i = va_id p" using Cons.prems(1) that by (simp add: e map_of_eq_None_iff)
    with None Cons.IH [of d] Cons.prems eq show ?thesis by (auto simp: e)
  next
    case (Some v)
    obtain d1 where d1: "Database_save put pad q (fst v) (snd v) (Some d) = Some d1" by (simp add: Database_save_def)
    have eq: "save_pairs put pad sigval (e # m) (Some d) = save_pairs put pad sigval m (Some d1)"
      using Some d1 by (cases s; cases v) (simp_all add: e)
    from Cons obtain d' where d': "save_pairs put pad sigval m (Some d1) = Some d'" "Database_read get p (Some d') =
        (case Option.bind (map_of m (va_id p)) (\<lambda>(q, s). Option.bind s sigval) of None \<Rightarrow> Database_read get p (Some d1) | Some v \<Rightarrow> Some v)"
      by force
    show ?thesis
    proof (cases "i = va_id p")
      case True
      have "map_of m (va_id p) = None" using Cons.prems(1) True by (simp add: e map_of_eq_None_iff)
      moreover have "(va_id p, q, s) \<in> set (e # m)" by (simp add: e True)
      then have "q = p" "saved_ok p v" using Cons.prems(3) Some by blast+
      ultimately have "map_of m (va_id p) = None" "q = p" "saved_ok p v" by blast+
      with d' eq True Some read_saved [OF laws pad, of p v d] d1 show ?thesis by (simp add: e)
    next
      case False
      with Cons.prems(2) have "va_path q \<noteq> va_path p" by (simp add: e)
      with d' eq False read_saved_other [OF laws this, of pad "fst v" "snd v" d] d1 show ?thesis
        by (simp add: e cong: option.case_cong)
    qed
  qed
qed simp

lemma pop_step_inv:
  assumes laws: "store_laws get put del" and p: "find_path params (va_path p) = Some p"
    and i: "run_inv get params p pe k" and ok: "pop_ok p (fst k) x"
  shows "run_inv get params p (pop_step put x pe) (latest p x k)"
proof -
  obtain sg kept where k: "k = (sg, kept)" by fastforce
  from i obtain d where d: "pe_db pe = Some d" and m: "map_inv params (pe_map pe)" "om_get (pe_map pe) (va_id p) = Some (p, sg)"
    and r: "Database_read get p (Some d) = kept" by (auto simp: run_inv_def k)
  show ?thesis
  proof (cases x)
    case (Changed pad ident val)
    show ?thesis
    proof (cases "om_get (pe_map pe) ident")
      case None
      with m(2) have "ident \<noteq> va_id p" by auto
      with None i show ?thesis by (simp add: Changed save_changed_def k)
    next
      case (Some e)
      obtain q s where e: "e = (q, s)" by fastforce
      have q: "ident = va_id q" "find_path params (va_path q) = Some q" using m(1) Some by (auto simp: map_inv_def e)
      have m': "map_inv params (if s \<noteq> None then om_put ident (q, None) (pe_map pe) else pe_map pe)"
        using map_inv_put [OF m(1) q(2), of None] m(1) by (simp add: q(1))
      show ?thesis
      proof (cases "ident = va_id p")
        case True
        with m(2) Some e have "q = p" "s = sg" by auto
        with True Some e m(2) m' d ok read_saved [OF laws, of pad p val d] show ?thesis
          by (auto simp: Changed save_changed_def run_inv_def k Database_save_def)
      next
        case False
        with map_inv_paths [OF m(1), of ident q s p] Some e p have "va_path q \<noteq> va_path p" by simp
        with False Some e m' d m(2) r read_saved_other [OF laws this, of pad "fst val" "snd val" d] show ?thesis
          by (auto simp: Changed save_changed_def run_inv_def k Database_save_def)
      qed
    qed
  next
    case (Saved pad sigval)
    have ne: "pe_map pe \<noteq> []" using m(2) by auto
    have om: "om_ok (pe_map pe)" using m(1) by (simp add: map_inv_def)
    have mo: "map_of (pe_map pe) (va_id p) = Some (p, sg)" using m(2) by (simp add: om_get_def)
    have inm: "om_get (pe_map pe) j = Some (q, s)" if "(j, q, s) \<in> set (pe_map pe)" for j q s
      using om_get_iff [OF om] that by simp
    have "\<exists>d'. save_pairs put pad sigval (pe_map pe) (Some d) = Some d' \<and> Database_read get p (Some d') =
        (case Option.bind (map_of (pe_map pe) (va_id p)) (\<lambda>(q, s). Option.bind s sigval) of None \<Rightarrow> Database_read get p (Some d) | Some v \<Rightarrow> Some v)"
    proof (rule save_pairs_read [OF laws])
      show "length pad = 6" using ok by (simp add: Saved)
      show "distinct (map fst (pe_map pe))" by (rule om_ok_distinct [OF om])
      show "\<forall>(i, q, s)\<in>set (pe_map pe). i \<noteq> va_id p \<longrightarrow> va_path q \<noteq> va_path p"
        using map_inv_paths [OF m(1) _ p] inm by blast
      show "\<forall>q s. (va_id p, q, s) \<in> set (pe_map pe) \<longrightarrow> q = p \<and> (\<forall>v. Option.bind s sigval = Some v \<longrightarrow> saved_ok p v)"
        using inm m(2) ok by (auto simp: Saved k)
    qed
    then obtain d' where d': "save_pairs put pad sigval (pe_map pe) (Some d) = Some d'"
      "Database_read get p (Some d') = (case Option.bind sg sigval of None \<Rightarrow> kept | Some v \<Rightarrow> Some v)"
      using r by (auto simp: mo)
    have "savePersistent put pad sigval pe = pe\<lparr>pe_db := Some d'\<rparr>"
      using ne d d'(1) by (simp add: savePersistent_def)
    with m d'(2) show ?thesis by (simp add: Saved run_inv_def k)
  qed
qed

lemma latest_coupling: "fst (latest p x k) = fst k \<or> fst (latest p x k) = None"
  by (cases k; cases x) auto

lemma pop_ok_uncoupled: "pop_ok p sg x \<Longrightarrow> pop_ok p None x"
  by (cases x) auto

lemma run_inv_fold:
  assumes laws: "store_laws get put del" and p: "find_path params (va_path p) = Some p"
  shows "run_inv get params p pe k \<Longrightarrow> list_all (pop_ok p (fst k)) ops \<Longrightarrow>
    run_inv get params p (fold (pop_step put) ops pe) (fold (latest p) ops k)"
proof (induction ops arbitrary: pe k)
  case (Cons x ops)
  have "list_all (pop_ok p (fst (latest p x k))) ops"
    using Cons.prems(2) latest_coupling [of p x k] pop_ok_uncoupled by (auto simp: list_all_iff)
  with Cons pop_step_inv [OF laws p, of pe k x] show ?case by simp
qed simp

definition start_persistent ::
  "(string \<Rightarrow> 'db \<Rightarrow> u8 list option) \<Rightarrow> ('db \<Rightarrow> string list) \<Rightarrow> (string \<Rightarrow> 'db \<Rightarrow> 'db) \<Rightarrow> (main_var \<Rightarrow> main_var \<Rightarrow> bool)
     \<Rightarrow> main_var list \<Rightarrow> main_var list \<Rightarrow> bool \<Rightarrow> (string \<times> string option) list \<Rightarrow> 'db option \<Rightarrow> 'db persist" where
  "start_persistent get keys del same params sigs cleanup items db =
     setupPersistent get keys del same params sigs cleanup items \<lparr>pe_map = [], pe_db = db, pe_init = []\<rparr>"

lemma start_run:
  assumes laws: "store_laws get put del"
    and conf: "inj_on va_id (set params)" "find_path params (va_path p) = Some p" "(va_path p, x) \<in> set items"
      "\<forall>i\<in>set items. fst i = va_path p \<longrightarrow> snd i = x" "couple same sigs p x \<noteq> Refused" "sg = signal_of (couple same sigs p x)"
  shows "run_inv get params p (start_persistent get keys del same params sigs cleanup items (Some d)) (sg, Database_read get p (Some d))
    \<and> inits_of p (start_persistent get keys del same params sigs cleanup items (Some d)) = init_calls p (Database_read get p (Some d)) sg"
proof -
  let ?st = "({}, \<lparr>pe_map = [], pe_db = Some d, pe_init = []\<rparr>)"
  obtain ks pe where f: "fold (setup_item get same params sigs) items ?st = (ks, pe)" by fastforce
  have h: "om_get (pe_map pe) (va_id p) = Some (p, sg)" "inits_of p pe = init_calls p (Database_read get p (Some d)) sg"
    using setup_fold_hit [OF conf(1,2,5,6), of ?st items get] conf(3,4) f by simp_all
  have i: "map_inv params (pe_map pe)" "keys_inv (ks, pe)"
    using setup_fold_inv [of params ?st get same sigs items] f by (simp_all add: map_inv_def keys_inv_def)
  have db: "pe_db pe = Some d" using setup_fold_db [of get same params sigs items ?st] f by simp
  have "va_path p \<in> ks" using i(2) h(1) by (auto simp: keys_inv_def)
  then have "Database_read get p (Database_checkKeys keys del ks (Some d)) = Database_read get p (Some d)"
    unfolding Database_checkKeys_def option.map by (intro read_cong check_loop_get [OF laws])
  with h(1) i(1) db have "run_inv get params p (if cleanup then pe\<lparr>pe_db := Database_checkKeys keys del ks (pe_db pe)\<rparr> else pe)
      (sg, Database_read get p (Some d))"
    by (simp add: run_inv_def) (simp add: Database_checkKeys_def)
  moreover have "start_persistent get keys del same params sigs cleanup items (Some d) =
      (if cleanup then pe\<lparr>pe_db := Database_checkKeys keys del ks (pe_db pe)\<rparr> else pe)"
    by (simp add: start_persistent_def setupPersistent_def f)
  ultimately show ?thesis using h(2) by simp
qed

text \<open>
  Property C32 (persistent_value_restored): the database opens at every start and returns what was put under a key last. A
  parameter that the configuration makes persistent, alone or paired with a signal of its type, starts, after any run of the
  server (changes of any parameters by clients and periodic saves, in any order, then the save of \<open>stopServers\<close>), with its latest
  saved value: that of the last change by a client or of the last save of its signal while it was coupled, whichever came later,
  else the one stored before the run; it is initialised exactly once, with this value and its time, and with its signal.
\<close>

theorem persistent_value_restored:
  assumes "store_laws get put del"
    and "inj_on va_id (set params)" "find_path params (va_path p) = Some p" "(va_path p, x) \<in> set items"
      "\<forall>i\<in>set items. fst i = va_path p \<longrightarrow> snd i = x" "couple same sigs p x \<noteq> Refused" "sg = signal_of (couple same sigs p x)"
    and "list_all (pop_ok p sg) (ops @ [Saved pad sigval])"
    and "pe = fold (pop_step put) (ops @ [Saved pad sigval]) (start_persistent get keys del same params sigs cleanup items (Some d))"
  shows "inits_of p (start_persistent get keys del same params sigs cleanup items (pe_db pe)) =
    init_calls p (snd (fold (latest p) (ops @ [Saved pad sigval]) (sg, Database_read get p (Some d)))) sg"
proof -
  let ?ops = "ops @ [Saved pad sigval]"
  note start = start_run [OF assms(1-7)]
  have "run_inv get params p pe (fold (latest p) ?ops (sg, Database_read get p (Some d)))"
    unfolding assms(9) by (rule run_inv_fold [OF assms(1,3) conjunct1 [OF start]]) (use assms(8) in simp)
  then obtain d' where "pe_db pe = Some d'" "Database_read get p (Some d') = snd (fold (latest p) ?ops (sg, Database_read get p (Some d)))"
    by (auto simp: run_inv_def)
  with start [of keys cleanup d'] show ?thesis by simp
qed

definition demo_param :: main_var where
  "demo_param = Main_Variable_new 7 ''/a'' (PrimaryType C_int16) 2 None"

definition demo_signal :: main_var where
  "demo_signal = Main_Variable_new 3 ''/s'' (PrimaryType C_int16) 2 None"

theorem persistent_value_restored_witness:
  "inits_of demo_param (start_persistent (\<lambda>k d. d k) (\<lambda>d. [''/a'']) (\<lambda>k d. d(k := None)) (\<lambda>a b. True) [demo_param] [demo_signal] True
      [(''/a'', Some ''/s'')] (pe_db (fold (pop_step (\<lambda>k v d. d(k \<mapsto> v)))
        ([Saved [0, 0, 0, 0, 0, 0] (\<lambda>s. Some ([9, 9, 9, 9], (1, 0))), Changed [1, 1, 1, 1, 1, 1] 7 ([1, 2, 3, 4], (10, 20))]
          @ [Saved [0, 0, 0, 0, 0, 0] (\<lambda>s. Some ([8, 8, 8, 8], (30, 0)))])
        (start_persistent (\<lambda>k d. d k) (\<lambda>d. [''/a'']) (\<lambda>k d. d(k := None)) (\<lambda>a b. True) [demo_param] [demo_signal] True
          [(''/a'', Some ''/s'')] (Some Map.empty)))))
    = [(demo_param, Some ([1, 2, 3, 4], (10, 20)), Some demo_signal)]"
proof -
  have v: "va_id demo_param = 7" "va_path demo_param = ''/a''" "va_memSize demo_param = 4" "va_path demo_signal = ''/s''"
    "va_dim demo_signal = va_dim demo_param"
    by (simp_all add: demo_param_def demo_signal_def Main_Variable_new_def mk_dims_def Let_def nelem_def)
  have l: "store_laws (\<lambda>k d. d k) (\<lambda>k v d. d(k \<mapsto> v)) (\<lambda>k d. d(k := None))" by (simp add: store_laws_def)
  have c: "couple (\<lambda>a b. True) [demo_signal] demo_param (Some ''/s'') = Coupled demo_signal"
    by (simp add: couple_def signal_map_def find_path_def v)
  have f: "find_path [demo_param] (va_path demo_param) = Some demo_param" "inj_on va_id (set [demo_param])" by (simp_all add: find_path_def)
  have i: "(va_path demo_param, Some ''/s'') \<in> set [(''/a'', Some ''/s'')]"
    "\<forall>i\<in>set [(''/a'', Some ''/s'')]. fst i = va_path demo_param \<longrightarrow> snd i = Some ''/s''" by (simp_all add: v)
  have s: "couple (\<lambda>a b. True) [demo_signal] demo_param (Some ''/s'') \<noteq> Refused"
    "Some demo_signal = signal_of (couple (\<lambda>a b. True) [demo_signal] demo_param (Some ''/s''))" by (simp_all add: c signal_of_def)
  have o: "list_all (pop_ok demo_param (Some demo_signal))
      ([Saved [0, 0, 0, 0, 0, 0] (\<lambda>s. Some ([9, 9, 9, 9], (1, 0))), Changed [1, 1, 1, 1, 1, 1] 7 ([1, 2, 3, 4], (10, 20))]
          @ [Saved [0, 0, 0, 0, 0, 0] (\<lambda>s. Some ([8, 8, 8, 8], (30, 0)))])"
    by (simp add: saved_ok_def v)
  show ?thesis
    unfolding persistent_value_restored [OF l f(2,1) i s o refl]
    by (simp add: v init_calls_def)
qed

end
