(* ===== verification/Subscriptions.thy ===== *)
theory Subscriptions
  imports Msr_Variable Std_Map
begin

text \<open>
  \<open>msrproto/Subscription.cpp\<close> and \<open>msrproto/SubscriptionManager.cpp\<close>: what a client asked to see
  of a task, sorted by group, decimation and block size, and the \<open><data>\<close> elements written for
  every received frame. Subscriptions are shared between two maps through pointers, so they live in
  a heap; the address of a new one is an argument. Accesses outside an array, through a
  dangling pointer or to a cell never written are values of \<open>fault\<close>.
\<close>

section \<open>One subscription\<close>

record subscription =
  sb_channel :: channel
  sb_decimation :: nat
  sb_blocksize :: nat
  sb_bufferOffset :: nat
  sb_trigger_start :: nat
  sb_trigger :: nat
  sb_nblocks :: nat
  sb_precision :: nat
  sb_base64 :: bool
  sb_data :: "u8 list"
  sb_pptr :: nat

definition cells :: "nat \<Rightarrow> nat" where
  "cells blocksize = (if blocksize = 0 then 1 else blocksize)"

definition Subscription_new :: "channel \<Rightarrow> nat \<Rightarrow> nat \<Rightarrow> bool \<Rightarrow> nat \<Rightarrow> subscription" where
  "Subscription_new channel decimation blocksize enc64 precision =
     \<lparr>sb_channel = channel,
      sb_decimation = (if blocksize \<noteq> 0 then decimation else 1),
      sb_blocksize = blocksize,
      sb_bufferOffset = mv_offset channel,
      sb_trigger_start = decimation,
      sb_trigger = 0,
      sb_nblocks = 0,
      sb_precision = precision,
      sb_base64 = enc64,
      sb_data = replicate (cells blocksize * mv_memSize channel) 0,
      sb_pptr = 0\<rparr>"

definition put_bytes :: "'a list \<Rightarrow> nat \<Rightarrow> 'a list \<Rightarrow> 'a list" where
  "put_bytes data p v = take p data @ v @ drop (p + length v) data"

definition Subscription_newValue :: "subscription \<Rightarrow> u8 list \<Rightarrow> fault + (bool \<times> subscription)" where
  "Subscription_newValue s buf =
     (let n = mv_memSize (sb_channel s);
          trig = (if sb_trigger s \<noteq> 0 then sb_trigger s - 1 else 0)
      in if sb_blocksize s = 0 \<and> trig \<noteq> 0 then Inr (False, s\<lparr>sb_trigger := trig\<rparr>)
         else if length buf < sb_bufferOffset s + n then Inl Overrun
         else
           let v = slice (sb_bufferOffset s) n buf
           in if sb_blocksize s = 0 \<and> v = take n (sb_data s) then Inr (False, s\<lparr>sb_trigger := trig\<rparr>)
              else if length (sb_data s) < sb_pptr s + n then Inl Overrun
              else Inr (True, s\<lparr>sb_trigger := (if sb_blocksize s = 0 then sb_trigger_start s else sb_trigger s),
                                sb_data := put_bytes (sb_data s) (sb_pptr s) v,
                                sb_pptr := sb_pptr s + n,
                                sb_nblocks := sb_nblocks s + 1\<rparr>))"

definition Subscription_reset :: "subscription \<Rightarrow> subscription" where
  "Subscription_reset s = s\<lparr>sb_pptr := 0, sb_nblocks := 0\<rparr>"

definition buf_mem :: "u8 list \<Rightarrow> nat \<Rightarrow> u8" where
  "buf_mem data a = (if a < length data then data ! a else 0)"

type_synonym float_fmt = "nat \<Rightarrow> ctype \<Rightarrow> u8 list \<Rightarrow> string"

definition datum_text :: "float_fmt \<Rightarrow> subscription \<Rightarrow> fault + string" where
  "datum_text ff s =
     (let ch = sb_channel s; len = sb_nblocks s * mv_memSize ch
      in if length (sb_data s) < len then Inl Overrun
         else if sb_base64 s then Inr (base64 (take len (sb_data s)))
         else case csv (ff (sb_precision s)) (buf_mem (sb_data s)) (mv_dtype ch) (mv_memSize ch) 0 (sb_nblocks s) False of
                None \<Rightarrow> Inl Hangs
              | Some t \<Rightarrow> Inr t)"

definition Subscription_print :: "float_fmt \<Rightarrow> subscription \<Rightarrow> fault + (subscription \<times> (string \<times> attrs) list)" where
  "Subscription_print ff s =
     (if sb_nblocks s \<ge> sb_blocksize s
      then case datum_text ff s of
             Inl e \<Rightarrow> Inl e
           | Inr t \<Rightarrow> Inr (Subscription_reset s,
               [(if sb_blocksize s \<noteq> 0 then ''F'' else ''E'',
                 [(''c'', show_nat (mv_index (sb_channel s))), (''d'', t)])])
      else Inr (Subscription_reset s, []))"

section \<open>State of the manager\<close>

record sset =
  ss_subs :: "nat list"
  ss_time :: "u64 option list"
  ss_timePtr :: nat

record bgroup =
  bg_counter :: nat
  bg_map :: "(nat, sset) omap"

type_synonym dgroup = "(nat, bgroup) omap"
type_synonym sub_heap = "nat \<rightharpoonup> subscription"

record manager =
  sm_map :: "(nat, (nat, (nat, nat) omap) omap) omap"
  sm_active :: "(nat, dgroup) omap"
  sm_heap :: sub_heap
  sm_taskTime :: "int \<times> int"

definition empty_sset :: sset where
  "empty_sset = \<lparr>ss_subs = [], ss_time = [], ss_timePtr = 0\<rparr>"

definition empty_bgroup :: bgroup where
  "empty_bgroup = \<lparr>bg_counter = 0, bg_map = []\<rparr>"

text \<open>The calls the manager makes on \<open>PdServ::Signal\<close>.\<close>

datatype sig_call = Signal_subscribe nat | Signal_unsubscribe nat

definition SubscriptionManager_new :: manager where
  "SubscriptionManager_new = \<lparr>sm_map = [], sm_active = [], sm_heap = Map.empty, sm_taskTime = (0, 0)\<rparr>"

text \<open>\<open>DecimationCounter::busy\<close>: \<open>size_t\<close> arithmetic.\<close>

definition DecimationCounter_busy :: "nat \<Rightarrow> nat \<Rightarrow> bool \<times> nat" where
  "DecimationCounter_busy counter start =
     (let c = (if counter = 0 then start else counter);
          c' = (if c = 0 then 2 ^ 64 - 1 else c - 1)
      in (c' \<noteq> 0, c'))"

section \<open>Subscribing\<close>

definition SubscriptionManager_remove :: "nat \<Rightarrow> nat \<Rightarrow> manager \<Rightarrow> fault + manager" where
  "SubscriptionManager_remove a grp m =
     (case om_get (sm_active m) grp of
        None \<Rightarrow> Inr m
      | Some dg \<Rightarrow>
          (case sm_heap m a of
             None \<Rightarrow> Inl Dangling
           | Some s \<Rightarrow>
               (case om_get dg (sb_decimation s) of
                  None \<Rightarrow> Inr m
                | Some bg \<Rightarrow>
                    (case om_get (bg_map bg) (sb_blocksize s) of
                       None \<Rightarrow> Inr m
                     | Some ss \<Rightarrow>
                         let ss' = ss\<lparr>ss_subs := os_erase a (ss_subs ss)\<rparr>;
                             bm = om_prune (\<lambda>ss. ss_subs ss = []) (sb_blocksize s) ss' (bg_map bg);
                             dg' = om_prune (\<lambda>bg. bg_map bg = []) (sb_decimation s) (bg\<lparr>bg_map := bm\<rparr>) dg;
                             act = om_prune (\<lambda>dg. dg = []) grp dg' (sm_active m)
                         in Inr (m\<lparr>sm_heap := (sm_heap m)(a := None), sm_active := act\<rparr>)))))"

definition slot :: "(nat, (nat, (nat, nat) omap) omap) omap \<Rightarrow> nat \<Rightarrow> nat \<Rightarrow> nat \<Rightarrow> nat option" where
  "slot mp sig ch grp = om_get (om_at [] (om_at [] mp sig) ch) grp"

definition set_slot ::
  "nat \<Rightarrow> nat \<Rightarrow> nat \<Rightarrow> nat \<Rightarrow> (nat, (nat, (nat, nat) omap) omap) omap \<Rightarrow> (nat, (nat, (nat, nat) omap) omap) omap" where
  "set_slot sig ch grp a mp =
     (let cm = om_at [] mp sig; gm = om_at [] cm ch
      in om_put sig (om_put ch (om_put grp a gm) cm) mp)"

definition SubscriptionManager_subscribe ::
  "channel \<Rightarrow> nat \<Rightarrow> nat \<Rightarrow> nat \<Rightarrow> bool \<Rightarrow> nat \<Rightarrow> nat \<Rightarrow> manager \<Rightarrow> fault + (manager \<times> sig_call list)" where
  "SubscriptionManager_subscribe c grp decimation blocksize enc64 precision addr m =
     (case (case slot (sm_map m) (ch_signal c) (ch_ptr c) grp of
              None \<Rightarrow> Inr m
            | Some a \<Rightarrow> SubscriptionManager_remove a grp m) of
        Inl e \<Rightarrow> Inl e
      | Inr m' \<Rightarrow>
          Inr (m'\<lparr>sm_heap := (sm_heap m')(addr \<mapsto> Subscription_new c decimation blocksize enc64 precision),
                  sm_map := set_slot (ch_signal c) (ch_ptr c) grp addr (sm_map m')\<rparr>,
               [Signal_subscribe (ch_signal c)]))"

definition SubscriptionManager_unsubscribe ::
  "channel \<Rightarrow> nat \<Rightarrow> manager \<Rightarrow> fault + (manager \<times> sig_call list)" where
  "SubscriptionManager_unsubscribe c grp m =
     (case om_get (sm_map m) (ch_signal c) of
        None \<Rightarrow> Inr (m, [])
      | Some cm \<Rightarrow>
          (case om_get cm (ch_ptr c) of
             None \<Rightarrow> Inr (m, [])
           | Some gm \<Rightarrow>
               (case om_get gm grp of
                  None \<Rightarrow> Inr (m, [])
                | Some a \<Rightarrow>
                    (case SubscriptionManager_remove a grp m of
                       Inl e \<Rightarrow> Inl e
                     | Inr m' \<Rightarrow>
                         let gm' = om_del grp gm;
                             cm' = om_prune (\<lambda>gm. gm = []) (ch_ptr c) gm' cm;
                             mp' = om_prune (\<lambda>cm. cm = []) (ch_signal c) cm' (sm_map m')
                         in Inr (m'\<lparr>sm_map := mp'\<rparr>,
                                 if cm' = [] then [Signal_unsubscribe (ch_signal c)] else [])))))"

text \<open>\<open>newSignal\<close>: all subscriptions of a signal that is now transferred become active.\<close>

definition activate :: "sub_heap \<Rightarrow> nat \<times> nat \<Rightarrow> (nat, dgroup) omap \<Rightarrow> fault + (nat, dgroup) omap" where
  "activate h e act =
     (case h (snd e) of
        None \<Rightarrow> Inl Dangling
      | Some s \<Rightarrow>
          let dg = om_at [] act (fst e);
              bg = om_at empty_bgroup dg (sb_decimation s);
              ss = om_at empty_sset (bg_map bg) (sb_blocksize s);
              ss1 = (if ss_subs ss = []
                     then ss\<lparr>ss_time := replicate (cells (sb_blocksize s)) None, ss_timePtr := 0\<rparr> else ss);
              ss2 = ss1\<lparr>ss_subs := insort_insert (snd e) (ss_subs ss1)\<rparr>
          in Inr (om_put (fst e)
               (om_put (sb_decimation s) (bg\<lparr>bg_map := om_put (sb_blocksize s) ss2 (bg_map bg)\<rparr>) dg) act))"

fun activate_all :: "sub_heap \<Rightarrow> (nat \<times> nat) list \<Rightarrow> (nat, dgroup) omap \<Rightarrow> fault + (nat, dgroup) omap" where
  "activate_all h [] act = Inr act"
| "activate_all h (e # es) act = (case activate h e act of Inl f \<Rightarrow> Inl f | Inr act' \<Rightarrow> activate_all h es act')"

definition SubscriptionManager_newSignal :: "nat \<Rightarrow> manager \<Rightarrow> fault + manager" where
  "SubscriptionManager_newSignal sig m =
     (case om_get (sm_map m) sig of
        None \<Rightarrow> Inr m
      | Some cm \<Rightarrow>
          (case activate_all (sm_heap m) (concat (map snd cm)) (sm_active m) of
             Inl e \<Rightarrow> Inl e
           | Inr act \<Rightarrow> Inr (m\<lparr>sm_active := act\<rparr>)))"

definition all_slots :: "(nat, (nat, (nat, nat) omap) omap) omap \<Rightarrow> nat list" where
  "all_slots mp = concat (map (\<lambda>e. concat (map (\<lambda>f. map snd (snd f)) (snd e))) mp)"

definition SubscriptionManager_clear :: "manager \<Rightarrow> manager \<times> sig_call list" where
  "SubscriptionManager_clear m =
     (m\<lparr>sm_active := [],
        sm_heap := (\<lambda>a. if a \<in> set (all_slots (sm_map m)) then None else sm_heap m a),
        sm_map := []\<rparr>,
      concat (map (\<lambda>e. map (\<lambda>f. Signal_unsubscribe (fst e)) (snd e)) (sm_map m)))"

section \<open>Received frames\<close>

type_synonym data_element = "attrs \<times> (string \<times> attrs) list"

definition value_body :: "(nat \<Rightarrow> u8 list) \<Rightarrow> nat \<Rightarrow> bool \<Rightarrow> nat \<Rightarrow> sub_heap \<Rightarrow> fault + (nat \<times> sub_heap \<times> nat list)" where
  "value_body vals bs print a h =
     (case h a of
        None \<Rightarrow> Inl Dangling
      | Some s \<Rightarrow>
          (case Subscription_newValue s (vals (ch_signal (sb_channel s))) of
             Inl e \<Rightarrow> Inl e
           | Inr (new, s') \<Rightarrow> Inr (a, h(a \<mapsto> s'), if (new \<and> bs = 0) \<or> print then [a] else [])))"

definition print_body :: "float_fmt \<Rightarrow> nat \<Rightarrow> sub_heap \<Rightarrow> fault + (nat \<times> sub_heap \<times> (string \<times> attrs) list)" where
  "print_body ff a h =
     (case h a of
        None \<Rightarrow> Inl Dangling
      | Some s \<Rightarrow>
          (case Subscription_print ff s of Inl e \<Rightarrow> Inl e | Inr (s', cs) \<Rightarrow> Inr (a, h(a \<mapsto> s'), cs)))"

definition time_stamp :: "int \<times> int \<Rightarrow> u64" where
  "time_stamp t = 1000000000 * of_int (fst t) + of_int (snd t)"

definition u64_bytes :: "u64 \<Rightarrow> u8 list" where
  "u64_bytes w = map (\<lambda>k. ucast (drop_bit (8 * k) w)) [0..<8]"

definition data_tag :: "nat \<Rightarrow> int \<times> int \<Rightarrow> u64 list \<Rightarrow> (string \<times> attrs) list \<Rightarrow> data_element" where
  "data_tag grp t stamps cs =
     ((if grp \<noteq> 0 then [(''group'', show_nat grp)] else []) @ [(''level'', ''0''), (''time'', time_text t)],
      (''time'', [(''d'', base64 (concat (map u64_bytes stamps)))]) # cs)"

definition set_body ::
  "float_fmt \<Rightarrow> int \<times> int \<Rightarrow> (nat \<Rightarrow> u8 list) \<Rightarrow> nat \<Rightarrow> nat \<times> sset \<Rightarrow> sub_heap
     \<Rightarrow> fault + ((nat \<times> sset) \<times> sub_heap \<times> data_element list)" where
  "set_body ff t vals grp e h =
     (let bs = fst e; ss = snd e
      in if length (ss_time ss) \<le> ss_timePtr ss then Inl Overrun
         else
           let time = (ss_time ss)[ss_timePtr ss := Some (time_stamp t)];
               ptr = (if bs \<noteq> 0 then ss_timePtr ss + 1 else ss_timePtr ss);
               print = (bs \<noteq> 0 \<and> bs = ptr)
           in case loopE (value_body vals bs print) (ss_subs ss) h of
                Inl f \<Rightarrow> Inl f
              | Inr (_, h1, printQ) \<Rightarrow>
                  if printQ = [] then Inr ((bs, ss\<lparr>ss_time := time, ss_timePtr := ptr\<rparr>), h1, [])
                  else if length time < cells bs then Inl Overrun
                  else if None \<in> set (take (cells bs) time) then Inl Uninitialised
                  else case loopE (print_body ff) printQ h1 of
                         Inl f \<Rightarrow> Inl f
                       | Inr (_, h2, cs) \<Rightarrow>
                           Inr ((bs, ss\<lparr>ss_time := time, ss_timePtr := 0\<rparr>), h2,
                                [data_tag grp t (map the (take (cells bs) time)) cs]))"

definition bgroup_body ::
  "float_fmt \<Rightarrow> int \<times> int \<Rightarrow> (nat \<Rightarrow> u8 list) \<Rightarrow> nat \<Rightarrow> nat \<times> bgroup \<Rightarrow> sub_heap
     \<Rightarrow> fault + ((nat \<times> bgroup) \<times> sub_heap \<times> data_element list)" where
  "bgroup_body ff t vals grp e h =
     (let (busy, c) = DecimationCounter_busy (bg_counter (snd e)) (fst e)
      in if busy then Inr ((fst e, (snd e)\<lparr>bg_counter := c\<rparr>), h, [])
         else case loopE (set_body ff t vals grp) (bg_map (snd e)) h of
                Inl f \<Rightarrow> Inl f
              | Inr (bm, h', out) \<Rightarrow> Inr ((fst e, (snd e)\<lparr>bg_counter := c, bg_map := bm\<rparr>), h', out))"

definition group_body ::
  "float_fmt \<Rightarrow> int \<times> int \<Rightarrow> (nat \<Rightarrow> u8 list) \<Rightarrow> nat \<times> dgroup \<Rightarrow> sub_heap
     \<Rightarrow> fault + ((nat \<times> dgroup) \<times> sub_heap \<times> data_element list)" where
  "group_body ff t vals e h =
     (case loopE (bgroup_body ff t vals (fst e)) (snd e) h of
        Inl f \<Rightarrow> Inl f
      | Inr (dg, h', out) \<Rightarrow> Inr ((fst e, dg), h', out))"

definition frame :: "float_fmt \<Rightarrow> int \<times> int \<Rightarrow> (nat \<Rightarrow> u8 list) \<Rightarrow> manager \<Rightarrow> fault + (manager \<times> data_element list)" where
  "frame ff t vals m =
     (case loopE (group_body ff t vals) (sm_active m) (sm_heap m) of
        Inl f \<Rightarrow> Inl f
      | Inr (act, h, out) \<Rightarrow> Inr (m\<lparr>sm_active := act, sm_heap := h\<rparr>, out))"

text \<open>
  What \<open>task->rxPdo\<close> reports until there is no more data: signals that start to be transferred
  (it calls \<open>newSignal\<close>) and frames with the time and the values of the signals.
\<close>

datatype rx_event = RxSignal nat | RxFrame "int \<times> int" "nat \<Rightarrow> u8 list"

fun SubscriptionManager_rxPdo ::
  "float_fmt \<Rightarrow> bool \<Rightarrow> rx_event list \<Rightarrow> manager \<Rightarrow> fault + (manager \<times> data_element list)" where
  "SubscriptionManager_rxPdo ff quiet [] m = Inr (m, [])"
| "SubscriptionManager_rxPdo ff quiet (RxSignal sig # es) m =
     (case SubscriptionManager_newSignal sig m of
        Inl f \<Rightarrow> Inl f
      | Inr m' \<Rightarrow> SubscriptionManager_rxPdo ff quiet es m')"
| "SubscriptionManager_rxPdo ff quiet (RxFrame t vals # es) m =
     (let m1 = m\<lparr>sm_taskTime := t\<rparr>
      in if quiet then SubscriptionManager_rxPdo ff quiet es m1
         else case frame ff t vals m1 of
                Inl f \<Rightarrow> Inl f
              | Inr (m2, out) \<Rightarrow>
                  (case SubscriptionManager_rxPdo ff quiet es m2 of
                     Inl f \<Rightarrow> Inl f
                   | Inr (m3, outs) \<Rightarrow> Inr (m3, out @ outs)))"

section \<open>Synchronisation\<close>

definition reset_body :: "nat \<Rightarrow> sub_heap \<Rightarrow> fault + (nat \<times> sub_heap \<times> unit list)" where
  "reset_body a h =
     (case h a of None \<Rightarrow> Inl Dangling | Some s \<Rightarrow> Inr (a, h(a \<mapsto> Subscription_reset s), []))"

definition sync_set :: "nat \<times> sset \<Rightarrow> sub_heap \<Rightarrow> fault + ((nat \<times> sset) \<times> sub_heap \<times> unit list)" where
  "sync_set e h =
     (case loopE reset_body (ss_subs (snd e)) h of
        Inl f \<Rightarrow> Inl f
      | Inr (_, h', out) \<Rightarrow> Inr ((fst e, (snd e)\<lparr>ss_timePtr := 0\<rparr>), h', out))"

definition sync_bgroup :: "nat \<times> bgroup \<Rightarrow> sub_heap \<Rightarrow> fault + ((nat \<times> bgroup) \<times> sub_heap \<times> unit list)" where
  "sync_bgroup e h =
     (case loopE sync_set (bg_map (snd e)) h of
        Inl f \<Rightarrow> Inl f
      | Inr (bm, h', out) \<Rightarrow> Inr ((fst e, (snd e)\<lparr>bg_map := bm\<rparr>), h', out))"

definition sync_group :: "nat \<times> dgroup \<Rightarrow> sub_heap \<Rightarrow> fault + ((nat \<times> dgroup) \<times> sub_heap \<times> unit list)" where
  "sync_group e h =
     (case loopE sync_bgroup (snd e) h of
        Inl f \<Rightarrow> Inl f
      | Inr (dg, h', out) \<Rightarrow> Inr ((fst e, dg), h', out))"

definition SubscriptionManager_sync :: "manager \<Rightarrow> fault + manager" where
  "SubscriptionManager_sync m =
     (case loopE sync_group (sm_active m) (sm_heap m) of
        Inl f \<Rightarrow> Inl f
      | Inr (act, h, _) \<Rightarrow> Inr (m\<lparr>sm_active := act, sm_heap := h\<rparr>))"

end
