(* ===== verification/Subscription_Safety.thy ===== *)
theory Subscription_Safety
  imports Subscriptions
begin

text \<open>
  The invariant of the subscription manager and its consequences: whatever the order in which a client
  subscribes and unsubscribes, signals become active and frames arrive, no subscription is used
  after it was deleted, no buffer is overrun and no time stamp is printed that was not captured.
  The four nested loops of \<open>rxPdo\<close> and of \<open>sync\<close> are instances of \<open>loop_frame\<close>.
\<close>

section \<open>Invariant\<close>

text \<open>\<open>sz sig\<close> is the size of the memory of a signal.\<close>

definition sub_ok :: "(nat \<Rightarrow> nat) \<Rightarrow> subscription \<Rightarrow> bool" where
  "sub_ok sz s \<longleftrightarrow>
     length (sb_data s) = cells (sb_blocksize s) * mv_memSize (sb_channel s)
     \<and> sb_pptr s = sb_nblocks s * mv_memSize (sb_channel s)
     \<and> sb_bufferOffset s + mv_memSize (sb_channel s) \<le> sz (ch_signal (sb_channel s))
     \<and> sized (mv_dtype (sb_channel s))"

definition member_ok :: "(nat \<Rightarrow> nat) \<Rightarrow> nat \<Rightarrow> nat \<Rightarrow> nat \<Rightarrow> nat \<Rightarrow> sub_heap \<Rightarrow> bool" where
  "member_ok sz d b n a h \<longleftrightarrow>
     (\<exists>s. h a = Some s \<and> sub_ok sz s \<and> sb_decimation s = d \<and> sb_blocksize s = b \<and> sb_nblocks s \<le> n)"

definition set_ok :: "(nat \<Rightarrow> nat) \<Rightarrow> (nat \<Rightarrow> bool) \<Rightarrow> nat \<Rightarrow> nat \<times> sset \<Rightarrow> sub_heap \<Rightarrow> bool" where
  "set_ok sz W d e h \<longleftrightarrow>
     (let b = fst e; ss = snd e
      in ss_subs ss \<noteq> [] \<and> distinct (ss_subs ss) \<and> length (ss_time ss) = cells b \<and> ss_timePtr ss < cells b
         \<and> (\<forall>i < ss_timePtr ss. ss_time ss ! i \<noteq> None)
         \<and> (\<forall>a\<in>set (ss_subs ss). W a \<and> member_ok sz d b (ss_timePtr ss) a h))"

definition bgroup_ok :: "(nat \<Rightarrow> nat) \<Rightarrow> (nat \<Rightarrow> bool) \<Rightarrow> nat \<times> bgroup \<Rightarrow> sub_heap \<Rightarrow> bool" where
  "bgroup_ok sz W e h \<longleftrightarrow>
     bg_map (snd e) \<noteq> [] \<and> om_ok (bg_map (snd e)) \<and> (\<forall>x\<in>set (bg_map (snd e)). set_ok sz W (fst e) x h)"

definition group_ok :: "(nat \<Rightarrow> nat) \<Rightarrow> (nat \<Rightarrow> nat \<Rightarrow> bool) \<Rightarrow> nat \<times> dgroup \<Rightarrow> sub_heap \<Rightarrow> bool" where
  "group_ok sz W e h \<longleftrightarrow>
     snd e \<noteq> [] \<and> om_ok (snd e) \<and> (\<forall>x\<in>set (snd e). bgroup_ok sz (W (fst e)) x h)"

definition active_ok :: "(nat \<Rightarrow> nat) \<Rightarrow> (nat \<Rightarrow> nat \<Rightarrow> bool) \<Rightarrow> (nat, dgroup) omap \<Rightarrow> sub_heap \<Rightarrow> bool" where
  "active_ok sz W act h \<longleftrightarrow> om_ok act \<and> (\<forall>x\<in>set act. group_ok sz W x h)"

definition set_foot :: "nat \<times> sset \<Rightarrow> nat set" where
  "set_foot e = set (ss_subs (snd e))"

definition bgroup_foot :: "nat \<times> bgroup \<Rightarrow> nat set" where
  "bgroup_foot e = foots set_foot (bg_map (snd e))"

definition group_foot :: "nat \<times> dgroup \<Rightarrow> nat set" where
  "group_foot e = foots bgroup_foot (snd e)"

lemma cells_pos [simp]: "0 < cells b"
  by (simp add: cells_def)

lemma member_ok_owned: "member_ok sz d b n a h \<Longrightarrow> h' a = h a \<Longrightarrow> member_ok sz d b n a h'"
  by (simp add: member_ok_def)

lemma member_ok_mono: "member_ok sz d b n a h \<Longrightarrow> n \<le> n' \<Longrightarrow> member_ok sz d b n' a h"
  by (auto simp: member_ok_def)

lemma set_ok_owned: "set_ok sz W d e h \<Longrightarrow> (\<And>a. a \<in> set_foot e \<Longrightarrow> h' a = h a) \<Longrightarrow> set_ok sz W d e h'"
  unfolding set_ok_def set_foot_def Let_def by (blast intro: member_ok_owned)

lemma bgroup_ok_owned:
  assumes "bgroup_ok sz W e h" and "\<And>a. a \<in> bgroup_foot e \<Longrightarrow> h' a = h a"
  shows "bgroup_ok sz W e h'"
proof -
  have "set_ok sz W (fst e) x h'" if "x \<in> set (bg_map (snd e))" for x
    by (rule set_ok_owned [of _ _ _ _ h]) (use assms that in \<open>auto simp: bgroup_ok_def bgroup_foot_def foots_def\<close>)
  with assms(1) show ?thesis by (simp add: bgroup_ok_def)
qed

lemma group_ok_owned:
  assumes "group_ok sz W e h" and "\<And>a. a \<in> group_foot e \<Longrightarrow> h' a = h a"
  shows "group_ok sz W e h'"
proof -
  have "bgroup_ok sz (W (fst e)) x h'" if "x \<in> set (snd e)" for x
    by (rule bgroup_ok_owned [of _ _ _ h]) (use assms that in \<open>auto simp: group_ok_def group_foot_def foots_def\<close>)
  with assms(1) show ?thesis by (simp add: group_ok_def)
qed

lemma set_ok_member: "set_ok sz W d e h \<Longrightarrow> a \<in> set_foot e \<Longrightarrow> \<exists>s. h a = Some s \<and> sb_decimation s = d \<and> sb_blocksize s = fst e"
  by (auto simp: set_ok_def set_foot_def member_ok_def Let_def)

lemma bgroup_ok_member: "bgroup_ok sz W e h \<Longrightarrow> a \<in> bgroup_foot e \<Longrightarrow> \<exists>s. h a = Some s \<and> sb_decimation s = fst e"
  by (force simp: bgroup_ok_def bgroup_foot_def foots_def dest: set_ok_member)

lemma sets_apart: "bgroup_ok sz W e h \<Longrightarrow> apart set_foot (bg_map (snd e))"
  by (rule apartI [where key = fst and own = "\<lambda>a. sb_blocksize (the (h a))"])
    (auto simp: bgroup_ok_def om_ok_distinct dest!: bspec dest: set_ok_member)

lemma bgroups_apart: "group_ok sz W e h \<Longrightarrow> apart bgroup_foot (snd e)"
  by (rule apartI [where key = fst and own = "\<lambda>a. sb_decimation (the (h a))"])
    (auto simp: group_ok_def om_ok_distinct dest!: bspec dest: bgroup_ok_member)

lemma group_foot_W: "group_ok sz W e h \<Longrightarrow> a \<in> group_foot e \<Longrightarrow> W (fst e) a"
  by (fastforce simp: group_ok_def bgroup_ok_def set_ok_def group_foot_def bgroup_foot_def set_foot_def foots_def Let_def)

lemma groups_apart:
  assumes "active_ok sz W act h" and "\<And>g g' a. W g a \<Longrightarrow> W g' a \<Longrightarrow> g = g'"
  shows "apart group_foot act"
proof (rule apartI [where key = fst and own = "\<lambda>a. SOME g. W g a"])
  show "distinct (map fst act)" using assms(1) by (simp add: active_ok_def om_ok_distinct)
  fix x a assume "x \<in> set act" "a \<in> group_foot x"
  then have "W (fst x) a" using assms(1) by (auto simp: active_ok_def intro: group_foot_W)
  then show "(SOME g. W g a) = fst x" using assms(2) by (metis someI)
qed

section \<open>The loop over the values of a set\<close>

lemma length_put_bytes: "p + length v \<le> length data \<Longrightarrow> length (put_bytes data p v) = length data"
  by (simp add: put_bytes_def)

definition frame_fits :: "(nat \<Rightarrow> nat) \<Rightarrow> (nat \<Rightarrow> u8 list) \<Rightarrow> bool" where
  "frame_fits sz vals \<longleftrightarrow> (\<forall>sig. sz sig \<le> length (vals sig))"

lemma newValue_ok:
  assumes "sub_ok sz s" and "frame_fits sz vals" and "sb_nblocks s < cells (sb_blocksize s)"
  shows "\<exists>new s'. Subscription_newValue s (vals (ch_signal (sb_channel s))) = Inr (new, s') \<and> sub_ok sz s'
    \<and> sb_channel s' = sb_channel s \<and> sb_decimation s' = sb_decimation s \<and> sb_blocksize s' = sb_blocksize s
    \<and> (if new then sb_nblocks s' = Suc (sb_nblocks s) else sb_blocksize s = 0 \<and> sb_nblocks s' = sb_nblocks s)"
proof -
  let ?n = "mv_memSize (sb_channel s)" and ?buf = "vals (ch_signal (sb_channel s))"
  have "sz (ch_signal (sb_channel s)) \<le> length ?buf" using assms(2) by (simp add: frame_fits_def)
  then have fit: "\<not> length ?buf < sb_bufferOffset s + ?n" using assms(1) by (auto simp: sub_ok_def)
  have "Suc (sb_nblocks s) * ?n \<le> cells (sb_blocksize s) * ?n" using assms(3) by (intro mult_le_mono1) simp
  then have room: "\<not> length (sb_data s) < sb_pptr s + ?n" "sb_pptr s + ?n = Suc (sb_nblocks s) * ?n"
    using assms(1) by (auto simp: sub_ok_def)
  have len: "length (slice (sb_bufferOffset s) ?n ?buf) = ?n" using fit by simp
  show ?thesis
    using assms(1) fit room len
    by (auto simp: Subscription_newValue_def Let_def sub_ok_def length_put_bytes)
qed

definition value_post :: "(nat \<Rightarrow> nat) \<Rightarrow> nat \<Rightarrow> nat \<Rightarrow> nat \<Rightarrow> bool \<Rightarrow> nat \<Rightarrow> nat list \<Rightarrow> sub_heap \<Rightarrow> bool" where
  "value_post sz d b n print a w h \<longleftrightarrow>
     w = [a] \<and> (print \<or> b = 0) \<and> member_ok sz d b (Suc n) a h
     \<or> w = [] \<and> \<not> print \<and> member_ok sz d b (if b = 0 then n else Suc n) a h"

interpretation value_loop: loop_frame "value_body vals b print"
  "\<lambda>a h. frame_fits sz vals \<and> n < cells b \<and> member_ok sz d b n a h" "value_post sz d b n print" "\<lambda>a. {a}" "\<lambda>a. a"
  for vals b print sz d n
proof unfold_locales
  fix a and h :: sub_heap
  assume pre: "frame_fits sz vals \<and> n < cells b \<and> member_ok sz d b n a h"
  then obtain s where s: "h a = Some s" "sub_ok sz s" "sb_decimation s = d" "sb_blocksize s = b" "sb_nblocks s \<le> n"
    by (auto simp: member_ok_def)
  with pre obtain new s' where r: "Subscription_newValue s (vals (ch_signal (sb_channel s))) = Inr (new, s')" "sub_ok sz s'"
      "sb_decimation s' = d" "sb_blocksize s' = b"
      "if new then sb_nblocks s' = Suc (sb_nblocks s) else b = 0 \<and> sb_nblocks s' = sb_nblocks s"
    using newValue_ok [of sz s vals] by (auto simp: member_ok_def)
  show "\<exists>x' h' w. value_body vals b print a h = Inr (x', h', w) \<and> value_post sz d b n print x' w h' \<and> {x'} = {a} \<and> x' = a
      \<and> untouched {a} h h'"
    using s r by (cases new) (auto simp: value_body_def value_post_def member_ok_def untouched_def)
qed (auto simp: value_post_def member_ok_def)

section \<open>Printing\<close>

lemma csv_defined: "sized ty \<Longrightarrow> csv ff mem ty n buf k delim \<noteq> None"
proof (induction k arbitrary: buf delim)
  case (Suc k)
  then show ?case using dt_print_defined(1) [of ty ff mem buf buf "buf + n"] by (auto split: option.splits)
qed simp

lemma Subscription_print_ok:
  assumes "sub_ok sz s" and "sb_nblocks s \<le> cells (sb_blocksize s)"
  shows "\<exists>cs. Subscription_print ff s = Inr (Subscription_reset s, cs)"
proof -
  have "sb_nblocks s * mv_memSize (sb_channel s) \<le> length (sb_data s)"
    using assms by (simp add: sub_ok_def)
  moreover have "\<exists>t. csv (ff (sb_precision s)) (buf_mem (sb_data s)) (mv_dtype (sb_channel s))
      (mv_memSize (sb_channel s)) 0 (sb_nblocks s) False = Some t"
    using csv_defined assms(1) unfolding sub_ok_def by blast
  ultimately show ?thesis by (auto simp: Subscription_print_def datum_text_def Let_def)
qed

lemma sub_ok_reset [simp]: "sub_ok sz s \<Longrightarrow> sub_ok sz (Subscription_reset s)"
  by (simp add: sub_ok_def Subscription_reset_def)

lemma member_ok_reset:
  "h a = Some s \<Longrightarrow> member_ok sz d b n a h \<Longrightarrow> member_ok sz d b k a (h(a \<mapsto> Subscription_reset s))"
  by (auto simp: member_ok_def) (simp_all add: Subscription_reset_def)

interpretation print_loop: loop_frame "print_body ff" "member_ok sz d b (cells b)" "\<lambda>a w. member_ok sz d b 0 a" "\<lambda>a. {a}" "\<lambda>a. a"
  for ff sz d b
proof unfold_locales
  fix a and h :: sub_heap
  assume pre: "member_ok sz d b (cells b) a h"
  then obtain s where s: "h a = Some s" "sub_ok sz s" "sb_blocksize s = b" "sb_nblocks s \<le> cells b"
    by (auto simp: member_ok_def)
  then obtain cs where r: "Subscription_print ff s = Inr (Subscription_reset s, cs)"
    using Subscription_print_ok [of sz s ff] by auto
  show "\<exists>x' h' w. print_body ff a h = Inr (x', h', w) \<and> member_ok sz d b 0 x' h' \<and> {x'} = {a} \<and> x' = a
      \<and> untouched {a} h h'"
    using s r member_ok_reset [OF s(1) pre] by (auto simp: print_body_def untouched_def)
qed (auto simp: member_ok_def)

lemma apart_singletons [simp]: "distinct xs \<Longrightarrow> apart (\<lambda>a. {a}) xs"
  by (induction xs) (auto simp: foots_def)

lemma foots_singletons [simp]: "foots (\<lambda>a. {a}) xs = set xs"
  by (auto simp: foots_def)

text \<open>The print queue is a part of the set, in its order.\<close>

lemma value_post_queue:
  assumes "list_all2 (\<lambda>a w. value_post sz d b n print a w h) xs ws" and "distinct xs"
  shows "set (concat ws) \<subseteq> set xs" and "distinct (concat ws)" and "print \<Longrightarrow> set (concat ws) = set xs"
    and "\<And>a. a \<in> set xs \<Longrightarrow> member_ok sz d b (Suc n) a h"
    and "\<And>a. a \<in> set xs \<Longrightarrow> a \<notin> set (concat ws) \<Longrightarrow> member_ok sz d b (if b = 0 then n else Suc n) a h"
    and "concat ws \<noteq> [] \<Longrightarrow> b \<noteq> 0 \<Longrightarrow> print"
  using assms by (induction rule: list_all2_induct) (auto simp: value_post_def intro: member_ok_mono split: if_splits)

section \<open>The loops over sets, decimations and groups\<close>

lemma list_all2_left: "list_all2 (\<lambda>x w. P x) xs ws \<Longrightarrow> \<forall>x\<in>set xs. P x"
  by (auto simp: list_all2_conv_all_nth in_set_conv_nth)

lemma captured:
  assumes "length ts = k" "p < k" "\<forall>i<p. ts ! i \<noteq> None"
  shows "\<forall>i<Suc p. ts[p := Some x] ! i \<noteq> None"
  using assms by (auto simp: less_Suc_eq)

lemma set_body_ok:
  assumes fits: "frame_fits sz vals" and ok: "set_ok sz W d e h"
  shows "\<exists>e' h' w. set_body ff t vals grp e h = Inr (e', h', w) \<and> set_ok sz W d e' h' \<and> set_foot e' = set_foot e
    \<and> fst e' = fst e \<and> untouched (set_foot e) h h'"
proof -
  obtain b ss where e: "e = (b, ss)" by (cases e)
  let ?ptr = "ss_timePtr ss" and ?time = "(ss_time ss)[ss_timePtr ss := Some (time_stamp t)]"
  let ?ptr' = "if b \<noteq> 0 then ?ptr + 1 else ?ptr"
  let ?print = "b \<noteq> 0 \<and> b = ?ptr'"
  have s: "ss_subs ss \<noteq> []" "distinct (ss_subs ss)" "length (ss_time ss) = cells b" "?ptr < cells b"
      "\<forall>i < ?ptr. ss_time ss ! i \<noteq> None" "\<forall>a\<in>set (ss_subs ss). W a \<and> member_ok sz d b ?ptr a h"
    using ok by (auto simp: set_ok_def e Let_def)
  have "\<forall>a\<in>set (ss_subs ss). frame_fits sz vals \<and> ?ptr < cells b \<and> member_ok sz d b ?ptr a h" using s(4,6) fits by blast
  from value_loop.loop_ok [OF this apart_singletons [OF s(2)], of ?print]
  obtain xs' h1 ws where q0: "loopE (value_body vals b ?print) (ss_subs ss) h = Inr (xs', h1, concat ws)"
      "list_all2 (\<lambda>a w. value_post sz d b ?ptr ?print a w h1) xs' ws"
      "map (\<lambda>a. a) xs' = map (\<lambda>a. a) (ss_subs ss)" "untouched (foots (\<lambda>a. {a}) (ss_subs ss)) h h1"
    by (elim exE conjE) (rule that)
  note q = q0(1,2) q0(3)[unfolded list.map_ident] q0(4)[unfolded foots_singletons]
  define q where q5: "q = concat ws"
  note post = value_post_queue [OF q(2)[unfolded q(3)] s(2), folded q5]
  have cap: "\<forall>i<Suc ?ptr. ?time ! i \<noteq> None" by (rule captured [OF s(3,4,5)])
  have body: "set_body ff t vals grp e h = (if q = [] then Inr ((b, ss\<lparr>ss_time := ?time, ss_timePtr := ?ptr'\<rparr>), h1, [])
      else if None \<in> set (take (cells b) ?time) then Inl Uninitialised
      else case loopE (print_body ff) q h1 of Inl f \<Rightarrow> Inl f
        | Inr (_, h2, cs) \<Rightarrow> Inr ((b, ss\<lparr>ss_time := ?time, ss_timePtr := 0\<rparr>), h2, [data_tag grp t (map the (take (cells b) ?time)) cs]))"
    using s(3,4) q(1) q5 by (simp add: set_body_def e Let_def)
  show ?thesis
  proof (cases "q = []")
    case True
    have np: "\<not> ?print" using post(3) True s(1) by (metis list.set(1) set_empty)
    then have lt: "?ptr' < cells b" using s(4) by (auto simp: cells_def split: if_splits)
    have m: "\<forall>a\<in>set (ss_subs ss). W a \<and> member_ok sz d b ?ptr' a h1"
      using post(5) True s(6) by (auto split: if_splits)
    have "set_ok sz W d (b, ss\<lparr>ss_time := ?time, ss_timePtr := ?ptr'\<rparr>) h1"
      using s(1-3,5) lt m cap by (auto simp: set_ok_def Let_def)
    with True body q(4) e show ?thesis by (auto simp: set_foot_def)
  next
    case False
    have pr: "b \<noteq> 0 \<Longrightarrow> ?print" using post(6) False by blast
    have full: "Suc ?ptr = cells b" using pr s(4) by (auto simp: cells_def)
    have "None \<notin> set (take (cells b) ?time)" using cap full s(3) by (auto simp: in_set_conv_nth)
    moreover have "\<forall>a\<in>set q. member_ok sz d b (cells b) a h1" using post(1,4) full by auto
    then obtain h2 cs where pq: "loopE (print_body ff) q h1 = Inr (q, h2, cs)" "\<forall>a\<in>set q. member_ok sz d b 0 a h2"
        "untouched (set q) h1 h2"
      using print_loop.loop_ok [of q sz d b h1 ff] post(2) by (auto dest: list_all2_left)
    moreover have "member_ok sz d b 0 a h2" if a: "a \<in> set (ss_subs ss)" for a
    proof (cases "a \<in> set q")
      case False
      then have "b = 0" using pr post(3) a by blast
      moreover have "?ptr = 0" using \<open>b = 0\<close> s(4) by (simp add: cells_def)
      ultimately have "member_ok sz d b 0 a h1" using post(5) a False by simp
      then show ?thesis by (rule member_ok_owned) (use pq(3) False in \<open>simp add: untouched_def\<close>)
    qed (use pq(2) in blast)
    then have "set_ok sz W d (b, ss\<lparr>ss_time := ?time, ss_timePtr := 0\<rparr>) h2"
      using s(1-3,6) by (auto simp: set_ok_def Let_def)
    moreover have "untouched (set (ss_subs ss)) h h2"
      using untouched_trans [OF q(4) pq(3)] post(1) by (simp add: Un_absorb2)
    ultimately show ?thesis using False body e by (auto simp: set_foot_def)
  qed
qed

interpretation set_loop: loop_frame "set_body ff t vals grp" "\<lambda>e h. frame_fits sz vals \<and> set_ok sz W d e h"
  "\<lambda>e w. set_ok sz W d e" set_foot fst for ff t vals grp sz W d
  by unfold_locales (use set_body_ok set_ok_owned in blast)+

lemma bgroup_body_ok:
  assumes fits: "frame_fits sz vals" and ok: "bgroup_ok sz W e h"
  shows "\<exists>e' h' w. bgroup_body ff t vals grp e h = Inr (e', h', w) \<and> bgroup_ok sz W e' h' \<and> bgroup_foot e' = bgroup_foot e
    \<and> fst e' = fst e \<and> untouched (bgroup_foot e) h h'"
proof -
  obtain busy c where c: "DecimationCounter_busy (bg_counter (snd e)) (fst e) = (busy, c)" by fastforce
  obtain bm h' ws where l: "loopE (set_body ff t vals grp) (bg_map (snd e)) h = Inr (bm, h', concat ws)"
      "list_all2 (\<lambda>x w. set_ok sz W (fst e) x h') bm ws"
      "map set_foot bm = map set_foot (bg_map (snd e))" "map fst bm = map fst (bg_map (snd e))"
      "untouched (bgroup_foot e) h h'"
    using set_loop.loop_ok [of "bg_map (snd e)" sz vals W "fst e" h ff t grp] fits ok sets_apart [OF ok]
    unfolding bgroup_ok_def bgroup_foot_def by blast
  have "bgroup_ok sz W (fst e, (snd e)\<lparr>bg_counter := c, bg_map := bm\<rparr>) h'"
    using ok l(2,4) by (auto simp: bgroup_ok_def om_ok_keys [OF l(4)] dest: list_all2_left)
  moreover have "bgroup_ok sz W (fst e, (snd e)\<lparr>bg_counter := c\<rparr>) h" using ok by (simp add: bgroup_ok_def)
  ultimately show ?thesis
    using c l(1,5) foots_map [OF l(3)] by (cases busy) (auto simp: bgroup_body_def bgroup_foot_def)
qed

interpretation bgroup_loop: loop_frame "bgroup_body ff t vals grp" "\<lambda>e h. frame_fits sz vals \<and> bgroup_ok sz W e h"
  "\<lambda>e w. bgroup_ok sz W e" bgroup_foot fst for ff t vals grp sz W
  by unfold_locales (use bgroup_body_ok bgroup_ok_owned in blast)+

lemma group_body_ok:
  assumes fits: "frame_fits sz vals" and ok: "group_ok sz W e h"
  shows "\<exists>e' h' w. group_body ff t vals e h = Inr (e', h', w) \<and> group_ok sz W e' h' \<and> group_foot e' = group_foot e
    \<and> fst e' = fst e \<and> untouched (group_foot e) h h'"
proof -
  obtain dg h' ws where l: "loopE (bgroup_body ff t vals (fst e)) (snd e) h = Inr (dg, h', concat ws)"
      "list_all2 (\<lambda>x w. bgroup_ok sz (W (fst e)) x h') dg ws"
      "map bgroup_foot dg = map bgroup_foot (snd e)" "map fst dg = map fst (snd e)" "untouched (group_foot e) h h'"
    using bgroup_loop.loop_ok [of "snd e" sz vals "W (fst e)" h ff t "fst e"] fits ok bgroups_apart [OF ok]
    unfolding group_ok_def group_foot_def by blast
  have "group_ok sz W (fst e, dg) h'"
    using ok l(2,4) by (auto simp: group_ok_def om_ok_keys [OF l(4)] dest: list_all2_left)
  then show ?thesis using l(1,5) foots_map [OF l(3)] by (auto simp: group_body_def group_foot_def)
qed

interpretation group_loop: loop_frame "group_body ff t vals" "\<lambda>e h. frame_fits sz vals \<and> group_ok sz W e h"
  "\<lambda>e w. group_ok sz W e" group_foot fst for ff t vals sz W
  by unfold_locales (use group_body_ok group_ok_owned in blast)+

section \<open>Sets of the active map\<close>

lemma om_all: "om_ok m \<Longrightarrow> (\<forall>x\<in>set m. P x) \<longleftrightarrow> (\<forall>k v. om_get m k = Some v \<longrightarrow> P (k, v))"
  by (auto simp: om_get_iff)

lemma bgroup_ok_iff:
  "bgroup_ok sz W (d, bg) h \<longleftrightarrow> bg_map bg \<noteq> [] \<and> om_ok (bg_map bg)
     \<and> (\<forall>b ss. om_get (bg_map bg) b = Some ss \<longrightarrow> set_ok sz W d (b, ss) h)"
  by (simp add: bgroup_ok_def om_all cong: conj_cong)

lemma group_ok_iff:
  "group_ok sz W (g, dg) h \<longleftrightarrow> dg \<noteq> [] \<and> om_ok dg
     \<and> (\<forall>d bg. om_get dg d = Some bg \<longrightarrow> bgroup_ok sz (W g) (d, bg) h)"
  by (simp add: group_ok_def om_all cong: conj_cong)

lemma active_ok_iff:
  "active_ok sz W act h \<longleftrightarrow> om_ok act \<and> (\<forall>g dg. om_get act g = Some dg \<longrightarrow> group_ok sz W (g, dg) h)"
  by (simp add: active_ok_def om_all cong: conj_cong)

lemmas ok_iffs = active_ok_iff group_ok_iff bgroup_ok_iff

definition listed :: "(nat, dgroup) omap \<Rightarrow> nat \<Rightarrow> nat \<Rightarrow> nat \<Rightarrow> nat \<Rightarrow> bool" where
  "listed act g d b a \<longleftrightarrow> (\<exists>dg bg ss. om_get act g = Some dg \<and> om_get dg d = Some bg
     \<and> om_get (bg_map bg) b = Some ss \<and> a \<in> set (ss_subs ss))"

lemma listed_foots:
  assumes "active_ok sz W act h"
  shows "a \<in> foots group_foot act \<longleftrightarrow> (\<exists>g d b. listed act g d b a)"
proof -
  have 1: "x \<in> set act \<Longrightarrow> om_get act (fst x) = Some (snd x)" for x
    using assms by (auto simp: active_ok_def om_get_iff)
  have 2: "x \<in> set act \<Longrightarrow> y \<in> set (snd x) \<Longrightarrow> om_get (snd x) (fst y) = Some (snd y)" for x y
    using assms by (auto simp: active_ok_def group_ok_def om_get_iff)
  have 3: "x \<in> set act \<Longrightarrow> y \<in> set (snd x) \<Longrightarrow> z \<in> set (bg_map (snd y)) \<Longrightarrow> om_get (bg_map (snd y)) (fst z) = Some (snd z)" for x y z
    using assms by (auto simp: active_ok_def group_ok_def bgroup_ok_def om_get_iff dest!: bspec)
  show ?thesis
  proof
    assume "a \<in> foots group_foot act"
    then show "\<exists>g d b. listed act g d b a"
      unfolding foots_def group_foot_def bgroup_foot_def set_foot_def listed_def using 1 2 3 by blast
  next
    assume "\<exists>g d b. listed act g d b a"
    then obtain g d b dg bg ss where l: "om_get act g = Some dg" "om_get dg d = Some bg"
        "om_get (bg_map bg) b = Some ss" "a \<in> set (ss_subs ss)"
      by (auto simp: listed_def)
    have "a \<in> set_foot (b, ss)" using l(4) by (simp add: set_foot_def)
    then have "a \<in> bgroup_foot (d, bg)" using om_get_in [OF l(3)] by (auto simp: bgroup_foot_def foots_def)
    then have "a \<in> group_foot (g, dg)" using om_get_in [OF l(2)] by (auto simp: group_foot_def foots_def)
    then show "a \<in> foots group_foot act" using om_get_in [OF l(1)] by (auto simp: foots_def)
  qed
qed

lemma listed_ok:
  assumes "active_ok sz W act h" and "listed act g d b a"
  shows "W g a" and "\<exists>n. member_ok sz d b n a h"
  using assms by (fastforce simp: listed_def ok_iffs set_ok_def)+

text \<open>Activation puts the subscription into the set for its decimation and block size.\<close>

lemma activate_ok:
  assumes act: "active_ok sz W act h" and W: "W g a" and s: "h a = Some s" "sub_ok sz s"
    and fresh: "sb_nblocks s = 0 \<or> listed act g (sb_decimation s) (sb_blocksize s) a"
  shows "\<exists>act'. activate h (g, a) act = Inr act' \<and> active_ok sz W act' h
    \<and> (\<forall>g' d b x. listed act' g' d b x \<longleftrightarrow>
         listed act g' d b x \<or> g' = g \<and> d = sb_decimation s \<and> b = sb_blocksize s \<and> x = a)"
proof -
  let ?d = "sb_decimation s" and ?b = "sb_blocksize s"
  define dg where "dg = om_at [] act g"
  define bg where "bg = om_at empty_bgroup dg ?d"
  define ss where "ss = om_at empty_sset (bg_map bg) ?b"
  define ss1 where "ss1 = (if ss_subs ss = [] then ss\<lparr>ss_time := replicate (cells ?b) None, ss_timePtr := 0\<rparr> else ss)"
  define ss2 where "ss2 = ss1\<lparr>ss_subs := insort_insert a (ss_subs ss1)\<rparr>"
  define act' where "act' = om_put g (om_put ?d (bg\<lparr>bg_map := om_put ?b ss2 (bg_map bg)\<rparr>) dg) act"
  have r: "activate h (g, a) act = Inr act'"
    by (simp add: activate_def s(1) Let_def act'_def ss2_def ss1_def ss_def bg_def dg_def)
  have dg: "om_ok dg" "\<And>d x. om_get dg d = Some x \<Longrightarrow> bgroup_ok sz (W g) (d, x) h"
    using act by (auto simp: dg_def om_at_def ok_iffs split: option.splits)
  have bg: "om_ok (bg_map bg)" "\<And>b x. om_get (bg_map bg) b = Some x \<Longrightarrow> set_ok sz (W g) ?d (b, x) h"
    using dg(2) by (auto simp: bg_def om_at_def empty_bgroup_def bgroup_ok_iff split: option.splits)
  have ss: "ss_subs ss = [] \<or> set_ok sz (W g) ?d (?b, ss) h"
    using bg(2) by (auto simp: ss_def om_at_def empty_sset_def split: option.splits)
  have in_ss: "x \<in> set (ss_subs ss) \<longleftrightarrow> listed act g ?d ?b x" for x
    by (auto simp: listed_def ss_def bg_def dg_def om_at_def empty_sset_def empty_bgroup_def split: option.splits)
  have m: "member_ok sz ?d ?b (ss_timePtr ss1) a h"
  proof (cases "sb_nblocks s = 0")
    case True
    then show ?thesis using s by (auto simp: member_ok_def)
  next
    case False
    then have "a \<in> set (ss_subs ss)" using fresh in_ss by simp
    then show ?thesis using ss by (cases "ss_subs ss = []") (simp_all add: ss1_def set_ok_def Let_def)
  qed
  have "set_ok sz (W g) ?d (?b, ss2) h"
    using ss m W by (cases "ss_subs ss = []") (auto simp: ss2_def ss1_def set_ok_def Let_def distinct_insort_insert)
  then have "active_ok sz W act' h"
    using act dg bg by (auto simp: act'_def ok_iffs)
  moreover have "listed act' g' d b x \<longleftrightarrow> listed act g' d b x \<or> g' = g \<and> d = ?d \<and> b = ?b \<and> x = a" for g' d b x
  proof -
    have "set (ss_subs ss2) = insert a (set (ss_subs ss))" by (simp add: ss2_def ss1_def)
    then show ?thesis using in_ss [of x]
      by (auto simp: listed_def act'_def dg_def bg_def om_at_def empty_bgroup_def split: if_splits option.splits)
  qed
  ultimately show ?thesis using r by blast
qed

text \<open>Erasing empty inner maps is invisible to \<open>m[k]\<close>.\<close>

lemma om_at_put [simp]: "om_at dflt (om_put k v m) j = (if j = k then v else om_at dflt m j)"
  by (simp add: om_at_def)

lemma om_at_prune:
  "f dflt = e \<Longrightarrow> f (om_at dflt (om_prune (\<lambda>v. f v = e) k v m) j) = (if j = k then f v else f (om_at dflt m j))"
  by (simp add: om_at_def om_prune_def)

lemma empty_simps [simp]: "ss_subs empty_sset = []" "bg_map empty_bgroup = []"
  by (simp_all add: empty_sset_def empty_bgroup_def)

lemmas om_at_prunes = om_at_prune [where f = "\<lambda>x. x" and dflt = "[]" and e = "[]"]
  om_at_prune [where f = ss_subs and dflt = empty_sset and e = "[]"]
  om_at_prune [where f = bg_map and dflt = empty_bgroup and e = "[]"]

lemma listed_at: "listed act g d b a \<longleftrightarrow>
    a \<in> set (ss_subs (om_at empty_sset (bg_map (om_at empty_bgroup (om_at [] act g) d)) b))"
  by (auto simp: listed_def om_at_def empty_sset_def empty_bgroup_def split: option.splits)

lemma active_ok_weaken:
  assumes act: "active_ok sz W act h" and keep: "\<And>g d b x. listed act g d b x \<Longrightarrow> W' g x \<and> h' x = h x"
  shows "active_ok sz W' act h'"
proof -
  have "set_ok sz (W' g) d (b, ss) h'"
    if "om_get act g = Some dg" "om_get dg d = Some bg" "om_get (bg_map bg) b = Some ss" for g dg d bg b ss
  proof -
    have "W' g x \<and> h' x = h x" if "x \<in> set (ss_subs ss)" for x
      by (rule keep) (use \<open>om_get act g = Some dg\<close> \<open>om_get dg d = Some bg\<close> \<open>om_get (bg_map bg) b = Some ss\<close> that in \<open>auto simp: listed_def\<close>)
    moreover have "set_ok sz (W g) d (b, ss) h" using act that by (auto simp: ok_iffs)
    ultimately show ?thesis by (auto simp: set_ok_def Let_def intro: member_ok_owned)
  qed
  with act show ?thesis by (auto simp: ok_iffs)
qed

lemma set_ok_erase:
  "set_ok sz W d (b, ss) h \<Longrightarrow> ss' = ss\<lparr>ss_subs := os_erase a (ss_subs ss)\<rparr> \<Longrightarrow> ss_subs ss' \<noteq> [] \<Longrightarrow> set_ok sz W d (b, ss') h"
  by (auto simp: set_ok_def Let_def)

lemma remove_ok:
  assumes act: "active_ok sz W (sm_active m) (sm_heap m)" and fn: "\<And>g g' a. W g a \<Longrightarrow> W g' a \<Longrightarrow> g = g'"
    and W: "W g a" and s: "sm_heap m a = Some s"
  shows "\<exists>m'. SubscriptionManager_remove a g m = Inr m' \<and> sm_map m' = sm_map m \<and> sm_taskTime m' = sm_taskTime m
    \<and> active_ok sz (\<lambda>g x. W g x \<and> x \<noteq> a) (sm_active m') (sm_heap m')
    \<and> (\<forall>x. x \<noteq> a \<longrightarrow> sm_heap m' x = sm_heap m x)
    \<and> (\<forall>g' d b x. listed (sm_active m') g' d b x \<longleftrightarrow> listed (sm_active m) g' d b x \<and> x \<noteq> a)"
proof -
  let ?d = "sb_decimation s" and ?b = "sb_blocksize s" and ?act = "sm_active m" and ?h = "sm_heap m"
  have only: "g' = g \<and> d = ?d \<and> b = ?b" if "listed ?act g' d b a" for g' d b
    using listed_ok [OF act that] fn W s by (auto simp: member_ok_def)
  have absent: ?thesis if r: "SubscriptionManager_remove a g m = Inr m" and no: "\<not> listed ?act g ?d ?b a"
  proof -
    have n: "x \<noteq> a" if "listed ?act g' d b x" for g' d b x using that only no by blast
    have "active_ok sz (\<lambda>g x. W g x \<and> x \<noteq> a) ?act ?h"
      by (rule active_ok_weaken [OF act]) (use n listed_ok(1) [OF act] in blast)
    with r n show ?thesis by blast
  qed
  show ?thesis
  proof (cases "\<exists>dg bg ss. om_get ?act g = Some dg \<and> om_get dg ?d = Some bg \<and> om_get (bg_map bg) ?b = Some ss")
    case False
    then have "SubscriptionManager_remove a g m = Inr m" "\<not> listed ?act g ?d ?b a"
      by (auto simp: SubscriptionManager_remove_def s listed_def split: option.splits)
    then show ?thesis by (rule absent)
  next
    case True
    then obtain dg bg ss where f: "om_get ?act g = Some dg" "om_get dg ?d = Some bg" "om_get (bg_map bg) ?b = Some ss" by blast
    define ss' where "ss' = ss\<lparr>ss_subs := os_erase a (ss_subs ss)\<rparr>"
    define bg' where "bg' = bg\<lparr>bg_map := om_prune (\<lambda>ss. ss_subs ss = []) ?b ss' (bg_map bg)\<rparr>"
    define dg' where "dg' = om_prune (\<lambda>bg. bg_map bg = []) ?d bg' dg"
    define act' where "act' = om_prune (\<lambda>dg. dg = []) g dg' ?act"
    define m' where "m' = m\<lparr>sm_heap := ?h(a := None), sm_active := act'\<rparr>"
    have r: "SubscriptionManager_remove a g m = Inr m'"
      by (simp add: SubscriptionManager_remove_def s f Let_def m'_def act'_def dg'_def bg'_def ss'_def)
    have o: "om_ok ?act" "om_ok dg" "om_ok (bg_map bg)" "set_ok sz (W g) ?d (?b, ss) ?h"
      using act f by (auto simp: ok_iffs)
    have bg: "bg_map bg' \<noteq> [] \<Longrightarrow> bgroup_ok sz (W g) (?d, bg') ?h"
      using act f o(3,4) set_ok_erase [OF o(4) ss'_def] by (auto simp: bg'_def ok_iffs)
    have dg: "dg' \<noteq> [] \<Longrightarrow> group_ok sz W (g, dg') ?h"
      using act f o(2) bg by (auto simp: dg'_def ok_iffs split: if_splits)
    have ok': "active_ok sz W act' ?h"
      using act dg o(1) by (auto simp: act'_def ok_iffs split: if_splits)
    have l: "listed act' g' d b x \<longleftrightarrow> listed ?act g' d b x \<and> x \<noteq> a" for g' d b x
    proof -
      have at: "om_at [] ?act g = dg" "om_at empty_bgroup dg ?d = bg" "om_at empty_sset (bg_map bg) ?b = ss"
        using f by (simp_all add: om_at_def)
      have "listed act' g' d b x \<longleftrightarrow> (if g' = g \<and> d = ?d \<and> b = ?b then x \<in> set (ss_subs ss) - {a} else listed ?act g' d b x)"
        by (simp add: listed_at act'_def dg'_def bg'_def ss'_def om_at_prunes at)
      moreover have "listed ?act g' d b x \<longleftrightarrow> x \<in> set (ss_subs ss)" if "g' = g \<and> d = ?d \<and> b = ?b"
        using that by (simp add: listed_at at)
      ultimately show ?thesis using only by auto
    qed
    have "active_ok sz (\<lambda>g x. W g x \<and> x \<noteq> a) act' (?h(a := None))"
      by (rule active_ok_weaken [OF ok']) (use l listed_ok(1) [OF act] in auto)
    with r l show ?thesis by (auto simp: m'_def)
  qed
qed

section \<open>Synchronisation\<close>

interpretation reset_loop: loop_frame reset_body "member_ok sz d b n" "\<lambda>a w. member_ok sz d b 0 a" "\<lambda>a. {a}" "\<lambda>a. a"
  for sz d b n
proof unfold_locales
  fix a and h :: sub_heap
  assume pre: "member_ok sz d b n a h"
  then obtain s where s: "h a = Some s" by (auto simp: member_ok_def)
  show "\<exists>x' h' w. reset_body a h = Inr (x', h', w) \<and> member_ok sz d b 0 x' h' \<and> {x'} = {a} \<and> x' = a \<and> untouched {a} h h'"
    using s member_ok_reset [OF s pre] by (auto simp: reset_body_def untouched_def)
qed (auto simp: member_ok_def)

lemma sync_set_ok:
  assumes ok: "set_ok sz W d e h"
  shows "\<exists>e' h' w. sync_set e h = Inr (e', h', w) \<and> set_ok sz W d e' h' \<and> set_foot e' = set_foot e
    \<and> fst e' = fst e \<and> untouched (set_foot e) h h'"
proof -
  let ?xs = "ss_subs (snd e)"
  have s: "distinct ?xs" "\<forall>a\<in>set ?xs. member_ok sz d (fst e) (ss_timePtr (snd e)) a h"
    using ok by (auto simp: set_ok_def Let_def)
  from reset_loop.loop_ok [OF s(2) apart_singletons [OF s(1)]]
  obtain xs' h' ws where l: "loopE reset_body ?xs h = Inr (xs', h', concat ws)" "list_all2 (\<lambda>a w. member_ok sz d (fst e) 0 a h') xs' ws"
      "map (\<lambda>a. a) xs' = map (\<lambda>a. a) ?xs" "untouched (foots (\<lambda>a. {a}) ?xs) h h'"
    by (elim exE conjE) (rule that)
  have "set_ok sz W d (fst e, (snd e)\<lparr>ss_timePtr := 0\<rparr>) h'"
    using ok list_all2_left [OF l(2)] l(3) by (auto simp: set_ok_def Let_def)
  then show ?thesis using l(1,4) by (auto simp: sync_set_def set_foot_def)
qed

interpretation sync_set_loop: loop_frame sync_set "set_ok sz W d" "\<lambda>e w. set_ok sz W d e" set_foot fst for sz W d
  by unfold_locales (use sync_set_ok set_ok_owned in blast)+

lemma sync_bgroup_ok:
  assumes ok: "bgroup_ok sz W e h"
  shows "\<exists>e' h' w. sync_bgroup e h = Inr (e', h', w) \<and> bgroup_ok sz W e' h' \<and> bgroup_foot e' = bgroup_foot e
    \<and> fst e' = fst e \<and> untouched (bgroup_foot e) h h'"
proof -
  obtain bm h' ws where l: "loopE sync_set (bg_map (snd e)) h = Inr (bm, h', concat ws)"
      "list_all2 (\<lambda>x w. set_ok sz W (fst e) x h') bm ws"
      "map set_foot bm = map set_foot (bg_map (snd e))" "map fst bm = map fst (bg_map (snd e))" "untouched (bgroup_foot e) h h'"
    using sync_set_loop.loop_ok [of "bg_map (snd e)" sz W "fst e" h] ok sets_apart [OF ok]
    unfolding bgroup_ok_def bgroup_foot_def by blast
  have "bgroup_ok sz W (fst e, (snd e)\<lparr>bg_map := bm\<rparr>) h'"
    using ok l(2,4) by (auto simp: bgroup_ok_def om_ok_keys [OF l(4)] dest: list_all2_left)
  then show ?thesis using l(1,5) foots_map [OF l(3)] by (auto simp: sync_bgroup_def bgroup_foot_def)
qed

interpretation sync_bgroup_loop: loop_frame sync_bgroup "bgroup_ok sz W" "\<lambda>e w. bgroup_ok sz W e" bgroup_foot fst for sz W
  by unfold_locales (use sync_bgroup_ok bgroup_ok_owned in blast)+

lemma sync_group_ok:
  assumes ok: "group_ok sz W e h"
  shows "\<exists>e' h' w. sync_group e h = Inr (e', h', w) \<and> group_ok sz W e' h' \<and> group_foot e' = group_foot e
    \<and> fst e' = fst e \<and> untouched (group_foot e) h h'"
proof -
  obtain dg h' ws where l: "loopE sync_bgroup (snd e) h = Inr (dg, h', concat ws)"
      "list_all2 (\<lambda>x w. bgroup_ok sz (W (fst e)) x h') dg ws"
      "map bgroup_foot dg = map bgroup_foot (snd e)" "map fst dg = map fst (snd e)" "untouched (group_foot e) h h'"
    using sync_bgroup_loop.loop_ok [of "snd e" sz "W (fst e)" h] ok bgroups_apart [OF ok]
    unfolding group_ok_def group_foot_def by blast
  have "group_ok sz W (fst e, dg) h'"
    using ok l(2,4) by (auto simp: group_ok_def om_ok_keys [OF l(4)] dest: list_all2_left)
  then show ?thesis using l(1,5) foots_map [OF l(3)] by (auto simp: sync_group_def group_foot_def)
qed

interpretation sync_group_loop: loop_frame sync_group "group_ok sz W" "\<lambda>e w. group_ok sz W e" group_foot fst for sz W
  by unfold_locales (use sync_group_ok group_ok_owned in blast)+

section \<open>Slots of the map of subscriptions\<close>

definition map_ok :: "(nat, (nat, (nat, nat) omap) omap) omap \<Rightarrow> bool" where
  "map_ok mp \<longleftrightarrow> om_ok mp \<and> (\<forall>e\<in>set mp. om_ok (snd e) \<and> (\<forall>f\<in>set (snd e). om_ok (snd f)))"

definition registered :: "(nat, (nat, (nat, nat) omap) omap) omap \<Rightarrow> nat \<Rightarrow> nat \<Rightarrow> bool" where
  "registered mp g a \<longleftrightarrow> (\<exists>sig ch. slot mp sig ch g = Some a)"

lemma map_ok_iff: "map_ok mp \<longleftrightarrow> om_ok mp \<and> (\<forall>sig. om_ok (om_at [] mp sig) \<and> (\<forall>ch. om_ok (om_at [] (om_at [] mp sig) ch)))"
proof -
  have inner: "om_ok cm \<Longrightarrow> (\<forall>f\<in>set cm. om_ok (snd f)) \<longleftrightarrow> (\<forall>ch. om_ok (om_at [] cm ch))" for cm :: "(nat, (nat, nat) omap) omap"
    by (auto simp: om_at_def om_all split: option.splits)
  show ?thesis
  proof (cases "om_ok mp")
    case True
    have "(\<forall>e\<in>set mp. om_ok (snd e) \<and> (\<forall>f\<in>set (snd e). om_ok (snd f)))
        \<longleftrightarrow> (\<forall>sig cm. om_get mp sig = Some cm \<longrightarrow> om_ok cm \<and> (\<forall>ch. om_ok (om_at [] cm ch)))"
      using inner by (auto simp: om_all [OF True])
    then show ?thesis using True by (auto simp: map_ok_def om_at_def [of "[]" mp] split: option.splits) (simp add: om_at_def)
  qed (simp add: map_ok_def)
qed

lemma slot_set_slot [simp]:
  "slot (set_slot sig ch g a mp) sig' ch' g' = (if sig' = sig \<and> ch' = ch \<and> g' = g then Some a else slot mp sig' ch' g')"
  by (simp add: slot_def set_slot_def Let_def)

lemma map_ok_set_slot [simp]: "map_ok mp \<Longrightarrow> map_ok (set_slot sig ch g a mp)"
  by (simp add: map_ok_iff set_slot_def Let_def)

definition del_slot :: "nat \<Rightarrow> nat \<Rightarrow> nat \<Rightarrow> (nat, (nat, (nat, nat) omap) omap) omap \<Rightarrow> (nat, (nat, (nat, nat) omap) omap) omap" where
  "del_slot sig ch g mp =
     (let cm = om_at [] mp sig; gm = om_at [] cm ch
      in om_prune (\<lambda>cm. cm = []) sig (om_prune (\<lambda>gm. gm = []) ch (om_del g gm) cm) mp)"

lemma slot_del_slot [simp]:
  "slot (del_slot sig ch g mp) sig' ch' g' = (if sig' = sig \<and> ch' = ch \<and> g' = g then None else slot mp sig' ch' g')"
  by (simp add: slot_def del_slot_def Let_def om_at_prunes)

lemma map_ok_del_slot [simp]: "map_ok mp \<Longrightarrow> map_ok (del_slot sig ch g mp)"
  by (simp add: map_ok_iff del_slot_def Let_def om_at_prunes)

lemma signal_slots:
  assumes "map_ok mp" and "om_get mp sig = Some cm" and "e \<in> set (concat (map snd cm))"
  shows "\<exists>ch. slot mp sig ch (fst e) = Some (snd e)"
proof -
  obtain f where f: "f \<in> set cm" "e \<in> set (snd f)" using assms(3) by auto
  have "(sig, cm) \<in> set mp" using om_get_in [OF assms(2)] .
  then have "om_ok cm" "om_ok (snd f)" using assms(1) f(1) by (auto simp: map_ok_def)
  then have "om_get cm (fst f) = Some (snd f)" "om_get (snd f) (fst e) = Some (snd e)" using f by (simp_all add: om_get_iff)
  then have "slot mp sig (fst f) (fst e) = Some (snd e)" using assms(2) by (simp add: slot_def om_at_def)
  then show ?thesis by blast
qed

lemma slot_in_all: "slot mp sig ch g = Some a \<Longrightarrow> a \<in> set (all_slots mp)"
  by (force simp: slot_def om_at_def all_slots_def split: option.splits dest!: om_get_in)

section \<open>The manager\<close>

definition sm_inv :: "(nat \<Rightarrow> nat) \<Rightarrow> manager \<Rightarrow> bool" where
  "sm_inv sz m \<longleftrightarrow>
     map_ok (sm_map m)
     \<and> (\<forall>sig ch g sig' ch' g' a. slot (sm_map m) sig ch g = Some a \<longrightarrow> slot (sm_map m) sig' ch' g' = Some a
          \<longrightarrow> sig = sig' \<and> ch = ch' \<and> g = g')
     \<and> (\<forall>sig ch g a. slot (sm_map m) sig ch g = Some a \<longrightarrow>
          (\<exists>s. sm_heap m a = Some s \<and> sub_ok sz s
             \<and> (sb_nblocks s = 0 \<or> listed (sm_active m) g (sb_decimation s) (sb_blocksize s) a)))
     \<and> active_ok sz (registered (sm_map m)) (sm_active m) (sm_heap m)"

lemma sm_invD:
  assumes "sm_inv sz m"
  shows "map_ok (sm_map m)"
    and "slot (sm_map m) sig ch g = Some a \<Longrightarrow> slot (sm_map m) sig' ch' g' = Some a \<Longrightarrow> sig = sig' \<and> ch = ch' \<and> g = g'"
    and "slot (sm_map m) sig ch g = Some a \<Longrightarrow>
      \<exists>s. sm_heap m a = Some s \<and> sub_ok sz s \<and> (sb_nblocks s = 0 \<or> listed (sm_active m) g (sb_decimation s) (sb_blocksize s) a)"
    and "active_ok sz (registered (sm_map m)) (sm_active m) (sm_heap m)"
    and "registered (sm_map m) k a \<Longrightarrow> registered (sm_map m) k' a \<Longrightarrow> k = k'"
  using assms unfolding sm_inv_def registered_def by blast+

lemma sm_inv_new: "sm_inv sz SubscriptionManager_new"
  by (simp add: sm_inv_def SubscriptionManager_new_def map_ok_def slot_def om_at_def active_ok_def)

text \<open>A loop over the active map that keeps the condition of every group keeps the invariant.\<close>

lemma sm_inv_loop:
  assumes inv: "sm_inv sz m" and ok: "\<forall>x\<in>set act. group_ok sz (registered (sm_map m)) x h"
    and foot: "map group_foot act = map group_foot (sm_active m)" and keys: "map fst act = map fst (sm_active m)"
    and un: "untouched (foots group_foot (sm_active m)) (sm_heap m) h"
  shows "sm_inv sz (m\<lparr>sm_active := act, sm_heap := h\<rparr>)"
proof -
  note i = sm_invD [OF inv]
  have act: "active_ok sz (registered (sm_map m)) act h"
    using i(4) ok om_ok_keys [OF keys] by (simp add: active_ok_def)
  have "\<exists>s. h a = Some s \<and> sub_ok sz s \<and> (sb_nblocks s = 0 \<or> listed act g (sb_decimation s) (sb_blocksize s) a)"
    if sl: "slot (sm_map m) sig ch g = Some a" for sig ch g a
  proof (cases "a \<in> foots group_foot (sm_active m)")
    case True
    then have "a \<in> foots group_foot act" using foots_map [OF foot] by simp
    then obtain g' d b where l: "listed act g' d b a" using listed_foots [OF act] by blast
    with listed_ok [OF act l] have "registered (sm_map m) g' a" "\<exists>n. member_ok sz d b n a h" by auto
    moreover have "registered (sm_map m) g a" using sl by (auto simp: registered_def)
    ultimately show ?thesis using i(5) l by (auto simp: member_ok_def)
  next
    case False
    then have "h a = sm_heap m a" using un by (simp add: untouched_def)
    moreover have "\<not> listed (sm_active m) g d b a" for d b using False listed_foots [OF i(4)] by blast
    ultimately show ?thesis using i(3) [OF sl] by auto
  qed
  with i(1,2) act show ?thesis by (auto simp: sm_inv_def)
qed

lemma frame_ok:
  assumes inv: "sm_inv sz m" and fits: "frame_fits sz vals"
  shows "\<exists>m' out. frame ff t vals m = Inr (m', out) \<and> sm_inv sz m'"
proof -
  note i = sm_invD [OF inv]
  have "\<forall>x\<in>set (sm_active m). frame_fits sz vals \<and> group_ok sz (registered (sm_map m)) x (sm_heap m)"
    using i(4) fits by (simp add: active_ok_def)
  from group_loop.loop_ok [OF this groups_apart [OF i(4)]] i(5)
  obtain act h' ws where l: "loopE (group_body ff t vals) (sm_active m) (sm_heap m) = Inr (act, h', concat ws)"
      "list_all2 (\<lambda>x w. group_ok sz (registered (sm_map m)) x h') act ws"
      "map group_foot act = map group_foot (sm_active m)" "map fst act = map fst (sm_active m)"
      "untouched (foots group_foot (sm_active m)) (sm_heap m) h'" by blast
  then show ?thesis using sm_inv_loop [OF inv list_all2_left [OF l(2)] l(3-5)] by (auto simp: frame_def)
qed

lemma sync_ok:
  assumes inv: "sm_inv sz m"
  shows "\<exists>m'. SubscriptionManager_sync m = Inr m' \<and> sm_inv sz m'"
proof -
  note i = sm_invD [OF inv]
  have "\<forall>x\<in>set (sm_active m). group_ok sz (registered (sm_map m)) x (sm_heap m)"
    using i(4) by (simp add: active_ok_def)
  from sync_group_loop.loop_ok [OF this groups_apart [OF i(4)]] i(5)
  obtain act h' ws where l: "loopE sync_group (sm_active m) (sm_heap m) = Inr (act, h', concat ws)"
      "list_all2 (\<lambda>x w. group_ok sz (registered (sm_map m)) x h') act ws"
      "map group_foot act = map group_foot (sm_active m)" "map fst act = map fst (sm_active m)"
      "untouched (foots group_foot (sm_active m)) (sm_heap m) h'" by blast
  then show ?thesis using sm_inv_loop [OF inv list_all2_left [OF l(2)] l(3-5)] by (auto simp: SubscriptionManager_sync_def)
qed

lemma activate_all_ok:
  assumes "sm_inv sz m" and "\<forall>e\<in>set es. registered (sm_map m) (fst e) (snd e)"
  shows "\<exists>act. activate_all (sm_heap m) es (sm_active m) = Inr act \<and> sm_inv sz (m\<lparr>sm_active := act\<rparr>)
    \<and> (\<forall>e\<in>set es. \<exists>d b. listed act (fst e) d b (snd e)) \<and> (\<forall>g d b a. listed (sm_active m) g d b a \<longrightarrow> listed act g d b a)"
  using assms
proof (induction es arbitrary: m)
  case (Cons e es)
  note i = sm_invD [OF Cons.prems(1)]
  obtain g a where e: "e = (g, a)" by (cases e)
  then obtain sig ch where sl: "slot (sm_map m) sig ch g = Some a" using Cons.prems(2) by (auto simp: registered_def)
  then obtain s where s: "sm_heap m a = Some s" "sub_ok sz s"
      "sb_nblocks s = 0 \<or> listed (sm_active m) g (sb_decimation s) (sb_blocksize s) a"
    using i(3) by blast
  have "registered (sm_map m) g a" using sl by (auto simp: registered_def)
  from activate_ok [OF i(4) this s] obtain act' where a: "activate (sm_heap m) (g, a) (sm_active m) = Inr act'"
      "active_ok sz (registered (sm_map m)) act' (sm_heap m)"
      "\<And>g' d b x. listed act' g' d b x \<longleftrightarrow> listed (sm_active m) g' d b x
         \<or> g' = g \<and> d = sb_decimation s \<and> b = sb_blocksize s \<and> x = a" by blast
  have "sm_inv sz (m\<lparr>sm_active := act'\<rparr>)"
    using Cons.prems(1) a(2) unfolding sm_inv_def by (simp add: a(3)) blast
  from Cons.IH [OF this] Cons.prems(2) obtain act where r: "activate_all (sm_heap m) es act' = Inr act" "sm_inv sz (m\<lparr>sm_active := act\<rparr>)"
      "\<forall>e\<in>set es. \<exists>d b. listed act (fst e) d b (snd e)" "\<forall>g d b a. listed act' g d b a \<longrightarrow> listed act g d b a" by auto
  have "listed act g (sb_decimation s) (sb_blocksize s) a" using r(4) a(3) by blast
  with a(1) r show ?case by (auto simp: e a(3))
qed auto

lemma newSignal_ok:
  assumes "sm_inv sz m"
  shows "\<exists>m'. SubscriptionManager_newSignal sig m = Inr m' \<and> sm_inv sz m'"
proof (cases "om_get (sm_map m) sig")
  case (Some cm)
  have "\<forall>e\<in>set (concat (map snd cm)). registered (sm_map m) (fst e) (snd e)"
    using signal_slots [OF sm_invD(1) [OF assms] Some] unfolding registered_def by blast
  with activate_all_ok [OF assms this] Some show ?thesis by (auto simp: SubscriptionManager_newSignal_def)
qed (use assms in \<open>simp add: SubscriptionManager_newSignal_def\<close>)

fun event_fits :: "(nat \<Rightarrow> nat) \<Rightarrow> rx_event \<Rightarrow> bool" where
  "event_fits sz (RxSignal sig) = True"
| "event_fits sz (RxFrame t vals) = frame_fits sz vals"

lemma rxPdo_ok:
  assumes "sm_inv sz m" and "\<forall>e\<in>set es. event_fits sz e"
  shows "\<exists>m' out. SubscriptionManager_rxPdo ff quiet es m = Inr (m', out) \<and> sm_inv sz m'"
  using assms
proof (induction es arbitrary: m)
  case (Cons e es)
  show ?case
  proof (cases e)
    case (RxSignal sig)
    then obtain m1 where "SubscriptionManager_newSignal sig m = Inr m1" "sm_inv sz m1" using newSignal_ok Cons.prems(1) by blast
    with Cons RxSignal show ?thesis by auto
  next
    case (RxFrame t vals)
    have "sm_inv sz (m\<lparr>sm_taskTime := t\<rparr>)" using Cons.prems(1) by (simp add: sm_inv_def)
    moreover from this obtain m2 out where "frame ff t vals (m\<lparr>sm_taskTime := t\<rparr>) = Inr (m2, out)" "sm_inv sz m2"
      using frame_ok Cons.prems(2) RxFrame by (metis event_fits.simps(2) list.set_intros(1))
    moreover from this obtain m3 outs where "SubscriptionManager_rxPdo ff quiet es m2 = Inr (m3, outs)" "sm_inv sz m3"
      using Cons.IH [of m2] Cons.prems(2) by auto
    ultimately show ?thesis using Cons.IH [of "m\<lparr>sm_taskTime := t\<rparr>"] Cons.prems(2) RxFrame
      by (cases quiet) (auto simp: Let_def)
  qed
qed simp

text \<open>Removing the subscription at a slot, and then forgetting or replacing the slot.\<close>

lemma remove_slot_ok:
  assumes inv: "sm_inv sz m" and sl: "slot (sm_map m) sig ch g = Some a"
  shows "\<exists>m'. SubscriptionManager_remove a g m = Inr m' \<and> sm_map m' = sm_map m
    \<and> sm_inv sz (m'\<lparr>sm_map := del_slot sig ch g (sm_map m)\<rparr>)"
proof -
  note i = sm_invD [OF inv]
  obtain s where s: "sm_heap m a = Some s" using i(3) [OF sl] by blast
  have reg: "registered (sm_map m) g a" using sl by (auto simp: registered_def)
  from remove_ok [OF i(4) _ reg s] i(5) obtain m' where r: "SubscriptionManager_remove a g m = Inr m'" "sm_map m' = sm_map m"
      "active_ok sz (\<lambda>g x. registered (sm_map m) g x \<and> x \<noteq> a) (sm_active m') (sm_heap m')"
      "\<And>x. x \<noteq> a \<Longrightarrow> sm_heap m' x = sm_heap m x"
      "\<And>g' d b x. listed (sm_active m') g' d b x \<longleftrightarrow> listed (sm_active m) g' d b x \<and> x \<noteq> a" by blast
  let ?mp = "del_slot sig ch g (sm_map m)"
  have other: "x \<noteq> a" if "slot ?mp sig' ch' g' = Some x" for sig' ch' g' x
    using that i(2) [OF sl] by (auto split: if_splits)
  have "registered ?mp g' x" if "registered (sm_map m) g' x" "x \<noteq> a" for g' x
  proof -
    from that(1) obtain sig' ch' where "slot (sm_map m) sig' ch' g' = Some x" by (auto simp: registered_def)
    then have "slot ?mp sig' ch' g' = Some x" using sl that(2) by auto
    then show ?thesis unfolding registered_def by blast
  qed
  then have "active_ok sz (registered ?mp) (sm_active m') (sm_heap m')"
    by (intro active_ok_weaken [OF r(3)]) (use listed_ok(1) [OF r(3)] in blast)
  moreover have "\<exists>s. sm_heap m' x = Some s \<and> sub_ok sz s
      \<and> (sb_nblocks s = 0 \<or> listed (sm_active m') g' (sb_decimation s) (sb_blocksize s) x)"
    if sl': "slot ?mp sig' ch' g' = Some x" for sig' ch' g' x
    using other [OF sl'] i(3) [of sig' ch' g' x] sl' r(4,5) by (auto split: if_splits)
  ultimately have "sm_inv sz (m'\<lparr>sm_map := ?mp\<rparr>)"
    using i(1,2) unfolding sm_inv_def by (simp split: if_splits)
  with r(1,2) show ?thesis by blast
qed

lemma set_slot_del: "slot (set_slot sig ch g a (del_slot sig ch g mp)) = slot (set_slot sig ch g a mp)"
  by (auto simp: fun_eq_iff)

text \<open>\<open>operator new\<close> returns an address that is not in use after the old subscription was removed.\<close>

definition alloc_ok :: "channel \<Rightarrow> nat \<Rightarrow> nat \<Rightarrow> manager \<Rightarrow> bool" where
  "alloc_ok c g addr m \<longleftrightarrow>
     (case slot (sm_map m) (ch_signal c) (ch_ptr c) g of
        None \<Rightarrow> sm_heap m addr = None
      | Some a \<Rightarrow> (case SubscriptionManager_remove a g m of Inr m' \<Rightarrow> sm_heap m' addr = None | Inl _ \<Rightarrow> False))"

definition channel_ok :: "(nat \<Rightarrow> nat) \<Rightarrow> channel \<Rightarrow> bool" where
  "channel_ok sz c \<longleftrightarrow> mv_offset c + mv_memSize c \<le> sz (ch_signal c) \<and> sized (mv_dtype c)"

lemma sub_ok_new: "channel_ok sz c \<Longrightarrow> sub_ok sz (Subscription_new c d b e p)"
  by (simp add: sub_ok_def Subscription_new_def channel_ok_def)

lemma add_slot_ok:
  assumes inv: "sm_inv sz (m\<lparr>sm_map := mp\<rparr>)" and free: "slot mp sig ch g = None" and new: "sm_heap m addr = None"
    and s: "sub_ok sz s" "sb_nblocks s = 0" and mp': "map_ok mp'" "slot mp' = slot (set_slot sig ch g addr mp)"
  shows "sm_inv sz (m\<lparr>sm_heap := (sm_heap m)(addr \<mapsto> s), sm_map := mp'\<rparr>)"
proof -
  note i = sm_invD [OF inv, simplified]
  have no: "slot mp sig' ch' g' \<noteq> Some addr" for sig' ch' g' using i(3) [of sig' ch' g' addr] new by auto
  have nl: "\<not> listed (sm_active m) g' d b addr" for g' d b
    using listed_ok(2) [OF i(4), of g' d b addr] new by (auto simp: member_ok_def)
  have "active_ok sz (registered mp') (sm_active m) ((sm_heap m)(addr \<mapsto> s))"
  proof (rule active_ok_weaken [OF i(4)])
    fix g' d b x assume l: "listed (sm_active m) g' d b x"
    then obtain sig' ch' where "slot mp sig' ch' g' = Some x" using listed_ok(1) [OF i(4) l] by (auto simp: registered_def)
    then have "slot mp' sig' ch' g' = Some x" using free mp'(2) by auto
    then have "registered mp' g' x" unfolding registered_def by blast
    moreover have "x \<noteq> addr" using nl l by blast
    ultimately show "registered mp' g' x \<and> ((sm_heap m)(addr \<mapsto> s)) x = sm_heap m x" by simp
  qed
  moreover have "\<exists>t. ((sm_heap m)(addr \<mapsto> s)) x = Some t \<and> sub_ok sz t
      \<and> (sb_nblocks t = 0 \<or> listed (sm_active m) g' (sb_decimation t) (sb_blocksize t) x)"
    if "slot mp' sig' ch' g' = Some x" for sig' ch' g' x
    using that i(3) [of sig' ch' g' x] s no mp'(2) by (auto split: if_splits)
  moreover have "sig' = sig'' \<and> ch' = ch'' \<and> g' = g''"
    if "slot mp' sig' ch' g' = Some x" "slot mp' sig'' ch'' g'' = Some x" for sig' ch' g' sig'' ch'' g'' x
    using that i(2) no mp'(2) by (auto split: if_splits)
  ultimately show ?thesis using mp'(1) unfolding sm_inv_def by simp
qed

lemma subscribe_ok:
  assumes inv: "sm_inv sz m" and ch: "channel_ok sz c" and al: "alloc_ok c g addr m"
  shows "\<exists>m'. SubscriptionManager_subscribe c g d b e p addr m = Inr (m', [Signal_subscribe (ch_signal c)])
    \<and> sm_inv sz m' \<and> slot (sm_map m') = slot (set_slot (ch_signal c) (ch_ptr c) g addr (sm_map m))
    \<and> sm_heap m' addr = Some (Subscription_new c d b e p)"
proof -
  let ?sig = "ch_signal c" and ?ch = "ch_ptr c" and ?s = "Subscription_new c d b e p"
  have s: "sub_ok sz ?s" "sb_nblocks ?s = 0" using sub_ok_new [OF ch] by (simp_all add: Subscription_new_def)
  note i = sm_invD [OF inv]
  have mok: "map_ok (set_slot ?sig ?ch g addr (sm_map m))" using i(1) by simp
  show ?thesis
  proof (cases "slot (sm_map m) ?sig ?ch g")
    case None
    have "sm_inv sz (m\<lparr>sm_map := sm_map m\<rparr>)" using inv by simp
    from add_slot_ok [OF this None _ s mok refl] None al show ?thesis
      by (simp add: SubscriptionManager_subscribe_def alloc_ok_def)
  next
    case (Some a)
    from remove_slot_ok [OF inv Some] obtain m' where r: "SubscriptionManager_remove a g m = Inr m'" "sm_map m' = sm_map m"
      "sm_inv sz (m'\<lparr>sm_map := del_slot ?sig ?ch g (sm_map m)\<rparr>)" by blast
    have "sm_heap m' addr = None" using al Some r(1) by (simp add: alloc_ok_def)
    from add_slot_ok [OF r(3) _ this s mok set_slot_del [symmetric]] Some r(1,2) show ?thesis
      by (simp add: SubscriptionManager_subscribe_def)
  qed
qed

lemma unsubscribe_ok:
  assumes inv: "sm_inv sz m"
  shows "\<exists>m' calls. SubscriptionManager_unsubscribe c g m = Inr (m', calls) \<and> sm_inv sz m'
    \<and> slot (sm_map m') = slot (del_slot (ch_signal c) (ch_ptr c) g (sm_map m))"
proof (cases "slot (sm_map m) (ch_signal c) (ch_ptr c) g")
  case None
  then have "SubscriptionManager_unsubscribe c g m = Inr (m, [])"
    by (auto simp: SubscriptionManager_unsubscribe_def slot_def om_at_def split: option.splits)
  with inv None show ?thesis by (auto simp: fun_eq_iff)
next
  case (Some a)
  then obtain cm gm where f: "om_get (sm_map m) (ch_signal c) = Some cm" "om_get cm (ch_ptr c) = Some gm" "om_get gm g = Some a"
    by (auto simp: slot_def om_at_def split: option.splits)
  from remove_slot_ok [OF inv Some] obtain m' where r: "SubscriptionManager_remove a g m = Inr m'" "sm_map m' = sm_map m"
      "sm_inv sz (m'\<lparr>sm_map := del_slot (ch_signal c) (ch_ptr c) g (sm_map m)\<rparr>)" by blast
  have "del_slot (ch_signal c) (ch_ptr c) g (sm_map m)
      = om_prune (\<lambda>cm. cm = []) (ch_signal c) (om_prune (\<lambda>gm. gm = []) (ch_ptr c) (om_del g gm) cm) (sm_map m)"
    using f by (simp add: del_slot_def om_at_def)
  with f r show ?thesis by (auto simp: SubscriptionManager_unsubscribe_def Let_def)
qed

lemma clear_ok: "sm_inv sz (fst (SubscriptionManager_clear m))"
  by (simp add: sm_inv_def SubscriptionManager_clear_def map_ok_def slot_def om_at_def active_ok_def)

section \<open>Every history of a session\<close>

text \<open>
  The operations of a session on the manager of a task, in any order. \<open>sz\<close> gives the memory sizes of the
  signals of the task; channels lie inside their signal, and frames contain every signal in full.
\<close>

inductive sm_step :: "(nat \<Rightarrow> nat) \<Rightarrow> float_fmt \<Rightarrow> manager \<Rightarrow> manager \<Rightarrow> bool" for sz ff where
  subscribe: "channel_ok sz c \<Longrightarrow> alloc_ok c g addr m
     \<Longrightarrow> SubscriptionManager_subscribe c g d b e p addr m = Inr (m', calls) \<Longrightarrow> sm_step sz ff m m'"
| unsubscribe: "SubscriptionManager_unsubscribe c g m = Inr (m', calls) \<Longrightarrow> sm_step sz ff m m'"
| new_signal: "SubscriptionManager_newSignal sig m = Inr m' \<Longrightarrow> sm_step sz ff m m'"
| receive: "\<forall>e\<in>set es. event_fits sz e \<Longrightarrow> SubscriptionManager_rxPdo ff quiet es m = Inr (m', out) \<Longrightarrow> sm_step sz ff m m'"
| synchronise: "SubscriptionManager_sync m = Inr m' \<Longrightarrow> sm_step sz ff m m'"
| clear_all: "SubscriptionManager_clear m = (m', calls) \<Longrightarrow> sm_step sz ff m m'"

inductive sm_reachable :: "(nat \<Rightarrow> nat) \<Rightarrow> float_fmt \<Rightarrow> manager \<Rightarrow> bool" for sz ff where
  start: "sm_reachable sz ff SubscriptionManager_new"
| step: "sm_reachable sz ff m \<Longrightarrow> sm_step sz ff m m' \<Longrightarrow> sm_reachable sz ff m'"

lemma sm_step_inv: "sm_step sz ff m m' \<Longrightarrow> sm_inv sz m \<Longrightarrow> sm_inv sz m'"
proof (induction rule: sm_step.induct)
  case (subscribe c g addr m d b e p m' calls)
  then show ?case using subscribe_ok [of sz m c g addr d b e p] by auto
next
  case (unsubscribe c g m m' calls)
  then show ?case using unsubscribe_ok [of sz m c g] by auto
next
  case (new_signal sig m m')
  then show ?case using newSignal_ok [of sz m sig] by auto
next
  case (receive es quiet m m' out)
  then show ?case using rxPdo_ok [of sz m es ff quiet] by auto
next
  case (synchronise m m')
  then show ?case using sync_ok [of sz m] by auto
next
  case (clear_all m m' calls)
  then show ?case using clear_ok [of sz m] by simp
qed

lemma sm_reachable_inv [pds_inv]: "sm_reachable sz ff m \<Longrightarrow> sm_inv sz m"
  by (induction rule: sm_reachable.induct) (auto intro: sm_inv_new sm_step_inv)

text \<open>
  Property C17 (manager_never_faults): in every history of a session, receiving any sequence of frames
  and new signals, subscribing, unsubscribing, activating and synchronising succeed: no subscription is
  used after its deletion, no value is copied past the end of a subscription's buffer, no time
  stamp is stored past the end of its array, none is printed that was not captured, and the printer
  returns.
\<close>

theorem manager_never_faults:
  assumes "sm_reachable sz ff m"
  shows "(\<forall>es quiet. list_all (event_fits sz) es \<longrightarrow> (\<exists>m' out. SubscriptionManager_rxPdo ff quiet es m = Inr (m', out)))
    \<and> (\<forall>c g d b e p addr. channel_ok sz c \<longrightarrow> alloc_ok c g addr m
         \<longrightarrow> (\<exists>m'. SubscriptionManager_subscribe c g d b e p addr m = Inr (m', [Signal_subscribe (ch_signal c)])))
    \<and> (\<forall>c g. \<exists>m' calls. SubscriptionManager_unsubscribe c g m = Inr (m', calls))
    \<and> (\<forall>sig. \<exists>m'. SubscriptionManager_newSignal sig m = Inr m')
    \<and> (\<exists>m'. SubscriptionManager_sync m = Inr m')"
proof -
  have inv: "sm_inv sz m" using assms by (rule sm_reachable_inv)
  show ?thesis
    using rxPdo_ok [OF inv] subscribe_ok [OF inv] unsubscribe_ok [OF inv] newSignal_ok [OF inv] sync_ok [OF inv]
    by (simp add: list_all_iff) blast
qed

text \<open>
  Property C18 (active_are_subscribed): every subscription that frames are delivered to is alive, is
  the one registered for its group, signal and channel, stands under its own decimation and block
  size, and in no other place; after \<open>unsubscribe\<close> the channel has no subscription in the group.
\<close>

theorem active_are_subscribed:
  assumes "sm_reachable sz ff m"
  shows "(\<forall>g d b a. listed (sm_active m) g d b a \<longrightarrow>
           (\<exists>sig ch s. slot (sm_map m) sig ch g = Some a \<and> sm_heap m a = Some s \<and> sb_decimation s = d \<and> sb_blocksize s = b
              \<and> (\<forall>g' d' b'. listed (sm_active m) g' d' b' a \<longrightarrow> g' = g \<and> d' = d \<and> b' = b)))
    \<and> (\<forall>c g m' calls. SubscriptionManager_unsubscribe c g m = Inr (m', calls)
         \<longrightarrow> slot (sm_map m') (ch_signal c) (ch_ptr c) g = None)"
proof -
  have inv: "sm_inv sz m" using assms by (rule sm_reachable_inv)
  note i = sm_invD [OF inv]
  have one: "g' = g \<and> d' = d \<and> b' = b" if "listed (sm_active m) g d b a" "listed (sm_active m) g' d' b' a" for g d b a g' d' b'
    using listed_ok [OF i(4) that(1)] listed_ok [OF i(4) that(2)] i(5) by (auto simp: member_ok_def)
  have "\<exists>sig ch s. slot (sm_map m) sig ch g = Some a \<and> sm_heap m a = Some s \<and> sb_decimation s = d \<and> sb_blocksize s = b"
    if "listed (sm_active m) g d b a" for g d b a
    using listed_ok [OF i(4) that] by (auto simp: registered_def member_ok_def)
  moreover have "slot (sm_map m') (ch_signal c) (ch_ptr c) g = None"
    if "SubscriptionManager_unsubscribe c g m = Inr (m', calls)" for c g m' calls
    using unsubscribe_ok [OF inv, of c g] that by auto
  ultimately show ?thesis using one by metis
qed

end
