(* ===== verification/Subscription_Stream.thy ===== *)
theory Subscription_Stream
  imports Subscription_Safety
begin

text \<open>
  What a client receives from its subscriptions: the data elements written for a sequence of frames
  equal those of a specification that speaks of the frames only.
\<close>

section \<open>What a client receives\<close>

text \<open>
  The specification of a block subscription: of the frames since the subscription became active,
  take every \<open>d\<close>-th, cut them into blocks of \<open>b\<close>, and send each block when it is complete.
\<close>

function every :: "nat \<Rightarrow> 'a list \<Rightarrow> 'a list" where
  "every d xs = (if d = 0 \<or> length xs < d then [] else xs ! (d - 1) # every d (drop d xs))"
  by pat_completeness auto
termination by (relation "measure (\<lambda>(d, xs). length xs)") auto

function chunks :: "nat \<Rightarrow> 'a list \<Rightarrow> 'a list list" where
  "chunks b xs = (if b = 0 \<or> length xs < b then [] else take b xs # chunks b (drop b xs))"
  by pat_completeness auto
termination by (relation "measure (\<lambda>(b, xs). length xs)") auto

declare every.simps [simp del] chunks.simps [simp del]

type_synonym rx_frame = "(int \<times> int) \<times> (nat \<Rightarrow> u8 list)"

definition channel_value :: "channel \<Rightarrow> rx_frame \<Rightarrow> u8 list" where
  "channel_value c f = slice (mv_offset c) (mv_memSize c) (snd f (ch_signal c))"

definition values_text :: "float_fmt \<Rightarrow> channel \<Rightarrow> bool \<Rightarrow> nat \<Rightarrow> rx_frame list \<Rightarrow> string" where
  "values_text ff c enc prec fs =
     (let bytes = concat (map (channel_value c) fs)
      in if enc then base64 bytes
         else the (csv (ff prec) (buf_mem bytes) (mv_dtype c) (mv_memSize c) 0 (length fs) False))"

definition block_element :: "float_fmt \<Rightarrow> nat \<Rightarrow> channel \<Rightarrow> bool \<Rightarrow> nat \<Rightarrow> rx_frame list \<Rightarrow> data_element" where
  "block_element ff g c enc prec fs =
     data_tag g (fst (last fs)) (map (\<lambda>f. time_stamp (fst f)) fs)
       [(''F'', [(''c'', show_nat (mv_index c)), (''d'', values_text ff c enc prec fs)])]"

text \<open>The counter of the code, as a selection of frames.\<close>

fun every_from :: "nat \<Rightarrow> nat \<Rightarrow> 'a list \<Rightarrow> 'a list" where
  "every_from d k [] = []"
| "every_from d k (x # xs) =
     (let k' = (if k = 0 then d else k) - 1 in if k' \<noteq> 0 then every_from d k' xs else x # every_from d 0 xs)"

lemma every_from_short: "0 < k \<Longrightarrow> every_from d k xs = (if length xs < k then [] else xs ! (k - 1) # every_from d 0 (drop k xs))"
proof (induction xs arbitrary: k)
  case (Cons x xs)
  show ?case
  proof (cases "k = 1")
    case False
    with Cons.prems obtain j where k: "k = Suc (Suc j)" by (metis One_nat_def Suc_pred neq0_conv zero_less_diff not_gr_zero Suc_pred' gr0_conv_Suc)
    then show ?thesis using Cons.IH [of "Suc j"] by simp
  qed simp
qed simp

lemma every_from_every: "0 < d \<Longrightarrow> every_from d 0 xs = every d xs"
proof (induction "length xs" arbitrary: xs rule: less_induct)
  case less
  have "every_from d 0 xs = every_from d d xs" using less.prems by (cases xs) auto
  also have "\<dots> = (if length xs < d then [] else xs ! (d - 1) # every_from d 0 (drop d xs))"
    using every_from_short less.prems by blast
  finally show ?case using less by (subst every.simps) auto
qed

text \<open>A manager with this one subscription, after \<open>ws\<close> frames of the current block.\<close>

definition collecting :: "channel \<Rightarrow> nat \<Rightarrow> nat \<Rightarrow> nat \<Rightarrow> bool \<Rightarrow> nat \<Rightarrow> nat \<Rightarrow> nat \<Rightarrow> rx_frame list \<Rightarrow> manager \<Rightarrow> bool" where
  "collecting c g d b enc prec a k ws m \<longleftrightarrow>
     length ws < b
     \<and> (\<exists>ss s. sm_active m = [(g, [(d, \<lparr>bg_counter = k, bg_map = [(b, ss)]\<rparr>)])]
          \<and> ss_subs ss = [a] \<and> length (ss_time ss) = b \<and> ss_timePtr ss = length ws
          \<and> take (length ws) (ss_time ss) = map (\<lambda>f. Some (time_stamp (fst f))) ws
          \<and> sm_heap m a = Some s \<and> sb_channel s = c \<and> sb_blocksize s = b \<and> sb_bufferOffset s = mv_offset c
          \<and> sb_precision s = prec \<and> sb_base64 s = enc \<and> length (sb_data s) = b * mv_memSize c
          \<and> sb_pptr s = length ws * mv_memSize c \<and> sb_nblocks s = length ws
          \<and> take (length ws * mv_memSize c) (sb_data s) = concat (map (channel_value c) ws))"

definition frame_has :: "channel \<Rightarrow> rx_frame \<Rightarrow> bool" where
  "frame_has c f \<longleftrightarrow> mv_offset c + mv_memSize c \<le> length (snd f (ch_signal c))"

lemma length_channel_value: "frame_has c f \<Longrightarrow> length (channel_value c f) = mv_memSize c"
  by (simp add: frame_has_def channel_value_def)

lemma take_put_bytes:
  assumes "p + length v \<le> length xs"
  shows "take (p + length v) (put_bytes xs p v) = take p xs @ v"
  using assms by (simp add: put_bytes_def)

lemma take_update_snoc: "k < length xs \<Longrightarrow> take (Suc k) (xs[k := v]) = take k xs @ [v]"
  by (metis id_take_nth_drop list_update_length take_update_cancel length_list_update less_or_eq_imp_le take_Suc_conv_app_nth nth_list_update_eq)

lemma csv_text: "sized ty \<Longrightarrow> csv ff mem ty n buf k delim = Some (the (csv ff mem ty n buf k delim))"
  using csv_defined [of ty ff mem n buf k delim] by auto

lemma collect_value:
  assumes s: "sb_channel s = c" "sb_blocksize s = b" "sb_bufferOffset s = mv_offset c" "length (sb_data s) = b * mv_memSize c"
      "sb_pptr s = length ws * mv_memSize c" "sb_nblocks s = length ws"
      "take (length ws * mv_memSize c) (sb_data s) = concat (map (channel_value c) ws)"
    and b: "length ws < b" and f: "frame_has c f"
  shows "\<exists>s'. Subscription_newValue s (snd f (ch_signal c)) = Inr (True, s') \<and> sb_channel s' = c \<and> sb_blocksize s' = b
    \<and> sb_bufferOffset s' = mv_offset c \<and> sb_precision s' = sb_precision s \<and> sb_base64 s' = sb_base64 s
    \<and> length (sb_data s') = b * mv_memSize c \<and> sb_pptr s' = length (ws @ [f]) * mv_memSize c \<and> sb_nblocks s' = length (ws @ [f])
    \<and> take (length (ws @ [f]) * mv_memSize c) (sb_data s') = concat (map (channel_value c) (ws @ [f]))"
proof -
  let ?n = "mv_memSize c" and ?v = "channel_value c f"
  have len: "length ?v = ?n" using f by (rule length_channel_value)
  have "Suc (length ws) * ?n \<le> b * ?n" using b by (intro mult_le_mono1) simp
  then have room: "length ws * ?n + ?n \<le> length (sb_data s)" using s(4) by simp
  define s' where "s' = s\<lparr>sb_data := put_bytes (sb_data s) (sb_pptr s) ?v, sb_pptr := sb_pptr s + ?n, sb_nblocks := sb_nblocks s + 1\<rparr>"
  have "Subscription_newValue s (snd f (ch_signal c)) = Inr (True, s')"
    using s b room f by (simp add: Subscription_newValue_def Let_def s'_def frame_has_def channel_value_def not_less)
  moreover have "take (length (ws @ [f]) * ?n) (sb_data s') = concat (map (channel_value c) (ws @ [f]))"
    using take_put_bytes [of "sb_pptr s" ?v "sb_data s"] room len s(5,7) by (simp add: s'_def add.commute)
  ultimately show ?thesis
    using s room len by (auto simp: s'_def length_put_bytes)
qed

lemma frame_collecting:
  assumes m: "collecting c g d b enc prec a k ws m" and f: "frame_has c f" and ty: "sized (mv_dtype c)" and d: "0 < d"
    and k': "k' = (if k = 0 then d else k) - 1"
  shows "\<exists>m'. if k' \<noteq> 0 then frame ff (fst f) (snd f) m = Inr (m', []) \<and> collecting c g d b enc prec a k' ws m'
    else if length (ws @ [f]) < b then frame ff (fst f) (snd f) m = Inr (m', []) \<and> collecting c g d b enc prec a 0 (ws @ [f]) m'
    else frame ff (fst f) (snd f) m = Inr (m', [block_element ff g c enc prec (ws @ [f])]) \<and> collecting c g d b enc prec a 0 [] m'"
proof -
  obtain ss s where w: "length ws < b" "sm_active m = [(g, [(d, \<lparr>bg_counter = k, bg_map = [(b, ss)]\<rparr>)])]"
      "ss_subs ss = [a]" "length (ss_time ss) = b" "ss_timePtr ss = length ws"
      "take (length ws) (ss_time ss) = map (\<lambda>f. Some (time_stamp (fst f))) ws"
    and s: "sm_heap m a = Some s" "sb_channel s = c" "sb_blocksize s = b" "sb_bufferOffset s = mv_offset c"
      "sb_precision s = prec" "sb_base64 s = enc" "length (sb_data s) = b * mv_memSize c"
      "sb_pptr s = length ws * mv_memSize c" "sb_nblocks s = length ws"
      "take (length ws * mv_memSize c) (sb_data s) = concat (map (channel_value c) ws)"
    using m by (auto simp: collecting_def)
  have busy: "DecimationCounter_busy k d = (k' \<noteq> 0, k')" using d k' by (auto simp: DecimationCounter_busy_def Let_def)
  obtain s' where s': "Subscription_newValue s (snd f (ch_signal c)) = Inr (True, s')" "sb_channel s' = c" "sb_blocksize s' = b"
      "sb_bufferOffset s' = mv_offset c" "sb_precision s' = prec" "sb_base64 s' = enc" "length (sb_data s') = b * mv_memSize c"
      "sb_pptr s' = length (ws @ [f]) * mv_memSize c" "sb_nblocks s' = length (ws @ [f])"
      "take (length (ws @ [f]) * mv_memSize c) (sb_data s') = concat (map (channel_value c) (ws @ [f]))"
    using collect_value [OF s(2-4) s(7-10) w(1) f] s(5,6) by auto
  define time where "time = (ss_time ss)[length ws := Some (time_stamp (fst f))]"
  have time: "length time = b" "take (length (ws @ [f])) time = map (\<lambda>f. Some (time_stamp (fst f))) (ws @ [f])"
    using w(1,4,6) by (simp_all add: time_def take_update_snoc)
  show ?thesis
  proof (cases "k' \<noteq> 0")
    case True
    define m' where "m' = m\<lparr>sm_active := [(g, [(d, \<lparr>bg_counter = k', bg_map = [(b, ss)]\<rparr>)])]\<rparr>"
    have "frame ff (fst f) (snd f) m = Inr (m', [])"
      using True by (simp add: frame_def w(2) group_body_def bgroup_body_def busy m'_def)
    moreover have "collecting c g d b enc prec a k' ws m'" using w s by (simp add: collecting_def m'_def)
    ultimately show ?thesis using True by auto
  next
    case go: False
    show ?thesis
    proof (cases "length (ws @ [f]) < b")
      case True
      define m' where "m' = m\<lparr>sm_active := [(g, [(d, \<lparr>bg_counter = 0, bg_map = [(b, ss\<lparr>ss_time := time, ss_timePtr := length ws + 1\<rparr>)]\<rparr>)])],
        sm_heap := (sm_heap m)(a \<mapsto> s')\<rparr>"
      have "frame ff (fst f) (snd f) m = Inr (m', [])"
        using go True w s s' by (simp add: frame_def group_body_def bgroup_body_def busy set_body_def value_body_def Let_def time_def m'_def)
      moreover have "collecting c g d b enc prec a 0 (ws @ [f]) m'"
        using True w s s' time by (simp add: collecting_def m'_def)
      ultimately show ?thesis using go True by auto
    next
      case False
      then have full: "Suc (length ws) = b" using w(1) by simp
      have data: "sb_data s' = concat (map (channel_value c) (ws @ [f]))" using s'(7,10) full by simp
      have dtxt: "datum_text ff s' = Inr (values_text ff c enc prec (ws @ [f]))"
        using s' full csv_defined [OF ty, of "ff prec" "buf_mem (concat (map (channel_value c) (ws @ [f])))" "mv_memSize c" 0 b False]
        by (auto simp: datum_text_def values_text_def data Let_def)
      define m' where "m' = m\<lparr>sm_active := [(g, [(d, \<lparr>bg_counter = 0, bg_map = [(b, ss\<lparr>ss_time := time, ss_timePtr := 0\<rparr>)]\<rparr>)])],
        sm_heap := (sm_heap m)(a \<mapsto> Subscription_reset s')\<rparr>"
      have nn: "None \<notin> set time" "map the time = map (\<lambda>f. time_stamp (fst f)) (ws @ [f])"
        using time full by auto
      have "frame ff (fst f) (snd f) m = Inr (m', [block_element ff g c enc prec (ws @ [f])])"
        using go full w s s' nn time(1) dtxt
        by (simp add: frame_def group_body_def bgroup_body_def busy set_body_def value_body_def print_body_def Subscription_print_def
            Let_def time_def [symmetric] m'_def cells_def block_element_def)
      moreover have "collecting c g d b enc prec a 0 [] m'"
        using full w s s' time by (auto simp: collecting_def m'_def Subscription_reset_def)
      ultimately show ?thesis using go False by auto
    qed
  qed
qed

lemma chunks_short: "length xs < b \<Longrightarrow> chunks b xs = []"
  by (subst chunks.simps) simp

lemma chunks_step: "0 < b \<Longrightarrow> length xs = b \<Longrightarrow> chunks b (xs @ ys) = xs # chunks b ys"
  by (subst chunks.simps) simp

definition rx_frames :: "rx_frame list \<Rightarrow> rx_event list" where
  "rx_frames fs = map (\<lambda>f. RxFrame (fst f) (snd f)) fs"

lemma collecting_time [simp]: "collecting c g d b enc prec a k ws (m\<lparr>sm_taskTime := t\<rparr>) = collecting c g d b enc prec a k ws m"
  by (simp add: collecting_def)

lemma rxPdo_collecting:
  assumes "collecting c g d b enc prec a k ws m" and "\<forall>f\<in>set fs. frame_has c f" and ty: "sized (mv_dtype c)" and d: "0 < d"
  shows "\<exists>m'. SubscriptionManager_rxPdo ff False (rx_frames fs) m
    = Inr (m', map (block_element ff g c enc prec) (chunks b (ws @ every_from d k fs)))"
  using assms(1,2)
proof (induction fs arbitrary: k ws m)
  case Nil
  then have "length ws < b" by (simp add: collecting_def)
  then show ?case by (simp add: chunks_short rx_frames_def)
next
  case (Cons f fs)
  define k' where "k' = (if k = 0 then d else k) - 1"
  have lt: "length ws < b" using Cons.prems(1) by (simp add: collecting_def)
  have mt: "collecting c g d b enc prec a k ws (m\<lparr>sm_taskTime := fst f\<rparr>)" and hf: "frame_has c f" using Cons.prems by simp_all
  from frame_collecting [OF mt hf ty d k'_def, of ff]
  obtain m' where m': "if k' \<noteq> 0 then frame ff (fst f) (snd f) (m\<lparr>sm_taskTime := fst f\<rparr>) = Inr (m', []) \<and> collecting c g d b enc prec a k' ws m'
    else if length (ws @ [f]) < b then frame ff (fst f) (snd f) (m\<lparr>sm_taskTime := fst f\<rparr>) = Inr (m', []) \<and> collecting c g d b enc prec a 0 (ws @ [f]) m'
    else frame ff (fst f) (snd f) (m\<lparr>sm_taskTime := fst f\<rparr>) = Inr (m', [block_element ff g c enc prec (ws @ [f])]) \<and> collecting c g d b enc prec a 0 [] m'"
    by blast
  have fs: "\<forall>f\<in>set fs. frame_has c f" using Cons.prems(2) by simp
  have sel: "every_from d k (f # fs) = (if k' \<noteq> 0 then every_from d k' fs else f # every_from d 0 fs)"
    by (simp add: k'_def Let_def)
  show ?case
  proof (cases "k' \<noteq> 0")
    case True
    then show ?thesis using m' Cons.IH [OF _ fs, of k' ws m'] sel by (auto simp: rx_frames_def Let_def)
  next
    case go: False
    show ?thesis
    proof (cases "length (ws @ [f]) < b")
      case True
      then show ?thesis using go m' Cons.IH [OF _ fs, of 0 "ws @ [f]" m'] sel by (auto simp: rx_frames_def Let_def)
    next
      case False
      then have "chunks b ((ws @ [f]) @ every_from d 0 fs) = (ws @ [f]) # chunks b (every_from d 0 fs)"
        using lt by (intro chunks_step) auto
      then show ?thesis using go False m' Cons.IH [OF _ fs, of 0 "[]" m'] sel by (auto simp: rx_frames_def Let_def)
    qed
  qed
qed

lemma fresh_collecting:
  assumes b: "0 < b" and c: "m1 = SubscriptionManager_new\<lparr>sm_heap := [a \<mapsto> Subscription_new c d b enc prec],
      sm_map := [(ch_signal c, [(ch_ptr c, [(g, a)])])]\<rparr>"
  shows "\<exists>m2. SubscriptionManager_newSignal (ch_signal c) m1 = Inr m2 \<and> collecting c g d b enc prec a 0 [] m2"
proof -
  define m2 where "m2 = m1\<lparr>sm_active := [(g, [(d, \<lparr>bg_counter = 0, bg_map = [(b, \<lparr>ss_subs = [a], ss_time = replicate b None, ss_timePtr = 0\<rparr>)]\<rparr>)])]\<rparr>"
  have "SubscriptionManager_newSignal (ch_signal c) m1 = Inr m2"
    using b by (simp add: SubscriptionManager_newSignal_def c m2_def om_get_def activate_def Subscription_new_def om_at_def
        SubscriptionManager_new_def empty_sset_def empty_bgroup_def Let_def cells_def insort_insert_key_def)
  moreover have "collecting c g d b enc prec a 0 [] m2"
    using b by (auto simp: collecting_def m2_def c Subscription_new_def cells_def)
  ultimately show ?thesis by blast
qed

lemma subscribe_fresh:
  "SubscriptionManager_subscribe c g d b enc prec a SubscriptionManager_new
    = Inr (SubscriptionManager_new\<lparr>sm_heap := [a \<mapsto> Subscription_new c d b enc prec],
        sm_map := [(ch_signal c, [(ch_ptr c, [(g, a)])])]\<rparr>, [Signal_subscribe (ch_signal c)])"
  by (simp add: SubscriptionManager_subscribe_def SubscriptionManager_new_def slot_def set_slot_def om_at_def)

text \<open>
  Property C19 (block_stream): a client that subscribes a channel with decimation \<open>d\<close> and block size
  \<open>b\<close> receives, for any sequence of frames, exactly the \<open><data>\<close> elements of the specification:
  every \<open>d\<close>-th frame, in blocks of \<open>b\<close>, each with the time stamps of its frames, the time of the last one and
  the values of the channel in order; an incomplete block is not sent.
\<close>

theorem block_stream:
  assumes "0 < d" and "0 < b" and "sized (mv_dtype c)" and "list_all (frame_has c) fs"
  shows "\<exists>m1 m2 m3. SubscriptionManager_subscribe c g d b enc prec a SubscriptionManager_new
        = Inr (m1, [Signal_subscribe (ch_signal c)])
    \<and> SubscriptionManager_newSignal (ch_signal c) m1 = Inr m2
    \<and> SubscriptionManager_rxPdo ff False (rx_frames fs) m2
        = Inr (m3, map (block_element ff g c enc prec) (chunks b (every d fs)))"
proof -
  obtain m2 where m2: "SubscriptionManager_newSignal (ch_signal c) (SubscriptionManager_new\<lparr>sm_heap := [a \<mapsto> Subscription_new c d b enc prec],
        sm_map := [(ch_signal c, [(ch_ptr c, [(g, a)])])]\<rparr>) = Inr m2" "collecting c g d b enc prec a 0 [] m2"
    using fresh_collecting [OF assms(2) refl] by blast
  from rxPdo_collecting [OF m2(2) _ assms(3,1), of fs ff] assms(4)
  obtain m3 where "SubscriptionManager_rxPdo ff False (rx_frames fs) m2
      = Inr (m3, map (block_element ff g c enc prec) (chunks b ([] @ every_from d 0 fs)))" by (auto simp: list_all_iff)
  with m2(1) show ?thesis by (simp add: subscribe_fresh every_from_every [OF assms(1)])
qed

definition demo_channel :: channel where
  "demo_channel = Channel_new 100 7 3 (PrimaryType C_uint16) [1] 2 [] []"

definition demo_frames :: "rx_frame list" where
  "demo_frames = map (\<lambda>k. ((int k, 5000), (\<lambda>sig. [0, 0, of_nat k, 0]))) [1..<6]"

theorem block_stream_witness:
  "\<exists>m1 m2 m3. SubscriptionManager_subscribe demo_channel 4 2 2 True 0 50 SubscriptionManager_new
        = Inr (m1, [Signal_subscribe 7])
    \<and> SubscriptionManager_newSignal 7 m1 = Inr m2
    \<and> SubscriptionManager_rxPdo (\<lambda>_ _ _. []) False (rx_frames demo_frames) m2
        = Inr (m3, [block_element (\<lambda>_ _ _. []) 4 demo_channel True 0 [demo_frames ! 1, demo_frames ! 3]])"
proof -
  have e: "chunks 2 (every 2 demo_frames) = [[demo_frames ! 1, demo_frames ! 3]]"
    by (simp add: demo_frames_def every.simps chunks.simps upt_rec)
  have s: "ch_signal demo_channel = 7" "sized (mv_dtype demo_channel)" "list_all (frame_has demo_channel) demo_frames"
    by (simp_all add: demo_channel_def Channel_new_def Variable_new_def channel.defs msr_var.defs demo_frames_def upt_rec frame_has_def nelem_def)
  show ?thesis
    using block_stream [of 2 2 demo_channel demo_frames 4 True 0 50 "\<lambda>_ _ _. []"] s by (simp add: e)
qed

lemma demo_reachable:
  "\<exists>m. sm_reachable (\<lambda>_. 4) (\<lambda>_ _ _. []) m \<and> listed (sm_active m) 4 2 2 50"
proof -
  have ok: "channel_ok (\<lambda>_. 4) demo_channel" "alloc_ok demo_channel 4 50 SubscriptionManager_new"
    by (simp_all add: channel_ok_def alloc_ok_def demo_channel_def Channel_new_def Variable_new_def channel.defs msr_var.defs nelem_def
        slot_def om_at_def SubscriptionManager_new_def)
  have "(0::nat) < 2" by simp
  from fresh_collecting [OF this refl, where a = 50 and c = demo_channel and d = 2 and enc = True and prec = 0 and g = 4]
  obtain m2 where m2: "SubscriptionManager_newSignal (ch_signal demo_channel) (SubscriptionManager_new\<lparr>sm_heap := [50 \<mapsto> Subscription_new demo_channel 2 2 True 0],
        sm_map := [(ch_signal demo_channel, [(ch_ptr demo_channel, [(4, 50)])])]\<rparr>) = Inr m2" "collecting demo_channel 4 2 2 True 0 50 0 [] m2"
    by blast
  have "sm_reachable (\<lambda>_. 4) (\<lambda>_ _ _. []) m2"
    by (rule sm_reachable.step [OF sm_reachable.step [OF sm_reachable.start sm_step.subscribe [OF ok subscribe_fresh]]
        sm_step.new_signal [OF m2(1)]])
  moreover have "listed (sm_active m2) 4 2 2 50" using m2(2) by (auto simp: collecting_def listed_def om_get_def)
  ultimately show ?thesis by blast
qed

theorem manager_never_faults_witness:
  "\<exists>m m' out. sm_reachable (\<lambda>_. 4) (\<lambda>_ _ _. []) m \<and> listed (sm_active m) 4 2 2 50
     \<and> SubscriptionManager_rxPdo (\<lambda>_ _ _. []) False (rx_frames demo_frames) m = Inr (m', out)"
proof -
  obtain m where m: "sm_reachable (\<lambda>_. 4) (\<lambda>_ _ _. []) m" "listed (sm_active m) 4 2 2 50" using demo_reachable by blast
  have "list_all (event_fits (\<lambda>_. 4)) (rx_frames demo_frames)"
    by (simp add: rx_frames_def demo_frames_def frame_fits_def upt_rec)
  with m show ?thesis using manager_never_faults [OF m(1)] by blast
qed

theorem active_are_subscribed_witness:
  "\<exists>m sig ch s. sm_reachable (\<lambda>_. 4) (\<lambda>_ _ _. []) m \<and> slot (sm_map m) sig ch 4 = Some 50 \<and> sm_heap m 50 = Some s \<and> sb_decimation s = 2"
proof -
  obtain m where m: "sm_reachable (\<lambda>_. 4) (\<lambda>_ _ _. []) m" "listed (sm_active m) 4 2 2 50" using demo_reachable by blast
  then show ?thesis using active_are_subscribed [OF m(1)] by blast
qed

section \<open>Event subscriptions\<close>

definition event_element :: "float_fmt \<Rightarrow> nat \<Rightarrow> channel \<Rightarrow> bool \<Rightarrow> nat \<Rightarrow> rx_frame \<Rightarrow> data_element" where
  "event_element ff g c enc prec f =
     data_tag g (fst f) [time_stamp (fst f)]
       [(''E'', [(''c'', show_nat (mv_index c)), (''d'', values_text ff c enc prec [f])])]"

text \<open>
  The frames an event subscription reports: those whose value differs from the value reported last,
  except during the hold-off of \<open>d\<close> frames after a report.
\<close>

fun report :: "channel \<Rightarrow> nat \<Rightarrow> nat \<Rightarrow> u8 list \<Rightarrow> rx_frame list \<Rightarrow> rx_frame list" where
  "report c d k v [] = []"
| "report c d k v (f # fs) =
     (if 1 < k then report c d (k - 1) v fs
      else if channel_value c f = v then report c d 0 v fs
      else f # report c d d (channel_value c f) fs)"

fun changes :: "channel \<Rightarrow> u8 list \<Rightarrow> rx_frame list \<Rightarrow> rx_frame list" where
  "changes c v [] = []"
| "changes c v (f # fs) =
     (if channel_value c f = v then changes c v fs else f # changes c (channel_value c f) fs)"

lemma report_changes: "d \<le> 1 \<Longrightarrow> k \<le> 1 \<Longrightarrow> report c d k v fs = changes c v fs"
  by (induction c v fs arbitrary: k rule: changes.induct) auto

definition reporting :: "channel \<Rightarrow> nat \<Rightarrow> nat \<Rightarrow> bool \<Rightarrow> nat \<Rightarrow> nat \<Rightarrow> nat \<Rightarrow> u8 list \<Rightarrow> manager \<Rightarrow> bool" where
  "reporting c g d enc prec a k v m \<longleftrightarrow>
     (\<exists>ss s. sm_active m = [(g, [(1, \<lparr>bg_counter = 0, bg_map = [(0, ss)]\<rparr>)])]
          \<and> ss_subs ss = [a] \<and> length (ss_time ss) = 1 \<and> ss_timePtr ss = 0
          \<and> sm_heap m a = Some s \<and> sb_channel s = c \<and> sb_blocksize s = 0 \<and> sb_bufferOffset s = mv_offset c
          \<and> sb_precision s = prec \<and> sb_base64 s = enc \<and> sb_trigger_start s = d \<and> sb_trigger s = k
          \<and> sb_pptr s = 0 \<and> sb_nblocks s = 0 \<and> sb_data s = v \<and> length v = mv_memSize c)"

lemma reporting_time [simp]: "reporting c g d enc prec a k v (m\<lparr>sm_taskTime := t\<rparr>) = reporting c g d enc prec a k v m"
  by (simp add: reporting_def)

lemma put_bytes_all [simp]: "length v = length xs \<Longrightarrow> put_bytes xs 0 v = v"
  by (simp add: put_bytes_def)

lemma frame_reporting:
  assumes m: "reporting c g d enc prec a k v m" and f: "frame_has c f" and ty: "sized (mv_dtype c)"
  shows "\<exists>m'. if 1 < k then frame ff (fst f) (snd f) m = Inr (m', []) \<and> reporting c g d enc prec a (k - 1) v m'
    else if channel_value c f = v then frame ff (fst f) (snd f) m = Inr (m', []) \<and> reporting c g d enc prec a 0 v m'
    else frame ff (fst f) (snd f) m = Inr (m', [event_element ff g c enc prec f])
      \<and> reporting c g d enc prec a d (channel_value c f) m'"
proof -
  obtain ss s where w: "sm_active m = [(g, [(1, \<lparr>bg_counter = 0, bg_map = [(0, ss)]\<rparr>)])]" "ss_subs ss = [a]"
      "length (ss_time ss) = 1" "ss_timePtr ss = 0"
    and s: "sm_heap m a = Some s" "sb_channel s = c" "sb_blocksize s = 0" "sb_bufferOffset s = mv_offset c"
      "sb_precision s = prec" "sb_base64 s = enc" "sb_trigger_start s = d" "sb_trigger s = k" "sb_pptr s = 0" "sb_nblocks s = 0"
      "sb_data s = v" "length v = mv_memSize c"
    using m by (auto simp: reporting_def)
  have busy: "DecimationCounter_busy 0 (Suc 0) = (False, 0)" by (simp add: DecimationCounter_busy_def)
  have len: "length (channel_value c f) = mv_memSize c" using f by (rule length_channel_value)
  have fit: "\<not> length (snd f (ch_signal c)) < mv_offset c + mv_memSize c" using f by (simp add: frame_has_def)
  have tm: "(ss_time ss)[0 := Some (time_stamp (fst f))] = [Some (time_stamp (fst f))]" using w(3) by (cases "ss_time ss") auto
  let ?m = "\<lambda>s'. m\<lparr>sm_active := [(g, [(1, \<lparr>bg_counter = 0, bg_map = [(0, ss\<lparr>ss_time := [Some (time_stamp (fst f))], ss_timePtr := 0\<rparr>)]\<rparr>)])],
      sm_heap := (sm_heap m)(a \<mapsto> s')\<rparr>"
  have quiet: "frame ff (fst f) (snd f) m = Inr (?m s', [])"
    if "Subscription_newValue s (snd f (ch_signal c)) = Inr (False, s')" for s'
    using w s that tm by (simp add: frame_def group_body_def bgroup_body_def busy set_body_def value_body_def Let_def)
  have rep: "reporting c g d enc prec a k' v (?m (s\<lparr>sb_trigger := k'\<rparr>))" for k'
    using w s by (simp add: reporting_def)
  show ?thesis
  proof (cases "1 < k \<or> channel_value c f = v")
    case True
    let ?k = "if 1 < k then k - 1 else 0"
    have "Subscription_newValue s (snd f (ch_signal c)) = Inr (False, s\<lparr>sb_trigger := ?k\<rparr>)"
      using True s fit by (auto simp: Subscription_newValue_def Let_def channel_value_def)
    from quiet [OF this] rep [of ?k] True show ?thesis by (cases "1 < k") auto
  next
    case False
    define s' where "s' = s\<lparr>sb_trigger := d, sb_data := channel_value c f, sb_pptr := mv_memSize c, sb_nblocks := 1\<rparr>"
    have new: "Subscription_newValue s (snd f (ch_signal c)) = Inr (True, s')"
      using False s fit len by (auto simp: Subscription_newValue_def Let_def channel_value_def s'_def)
    have dtxt: "datum_text ff s' = Inr (values_text ff c enc prec [f])"
      using s len csv_defined [OF ty, of "ff prec" "buf_mem (channel_value c f)" "mv_memSize c" 0 1 False]
      by (auto simp: datum_text_def values_text_def s'_def Let_def simp del: csv.simps)
    have "frame ff (fst f) (snd f) m = Inr (?m (Subscription_reset s'), [event_element ff g c enc prec f])"
      using w s new tm dtxt by (simp add: frame_def group_body_def bgroup_body_def busy set_body_def value_body_def print_body_def
          Subscription_print_def Let_def cells_def event_element_def s'_def)
    moreover have "reporting c g d enc prec a d (channel_value c f) (?m (Subscription_reset s'))"
      using w s len by (simp add: reporting_def s'_def Subscription_reset_def)
    ultimately show ?thesis using False by auto
  qed
qed

lemma rxPdo_reporting:
  assumes "reporting c g d enc prec a k v m" and "\<forall>f\<in>set fs. frame_has c f" and ty: "sized (mv_dtype c)"
  shows "\<exists>m'. SubscriptionManager_rxPdo ff False (rx_frames fs) m = Inr (m', map (event_element ff g c enc prec) (report c d k v fs))"
  using assms(1,2)
proof (induction fs arbitrary: k v m)
  case (Cons f fs)
  have mt: "reporting c g d enc prec a k v (m\<lparr>sm_taskTime := fst f\<rparr>)" and hf: "frame_has c f" using Cons.prems by simp_all
  have fs: "\<forall>f\<in>set fs. frame_has c f" using Cons.prems(2) by simp
  show ?case
    using frame_reporting [OF mt hf ty, of ff] Cons.IH [OF _ fs]
    by (auto simp: rx_frames_def Let_def split: if_splits) (fastforce split: sum.splits)+
qed (simp add: rx_frames_def)

text \<open>
  Property C20 (event_stream): a client that subscribes a channel for events receives, without
  hold-off, exactly one \<open><data>\<close> element for every change of the value, starting from zero, so that
  it always knows the current value; with a hold-off the reports are those of \<open>report\<close>.
\<close>

theorem event_stream:
  assumes "sized (mv_dtype c)" and "list_all (frame_has c) fs"
  shows "\<exists>m1 m2 m3 fs'. SubscriptionManager_subscribe c g d 0 enc prec a SubscriptionManager_new
        = Inr (m1, [Signal_subscribe (ch_signal c)])
    \<and> SubscriptionManager_newSignal (ch_signal c) m1 = Inr m2
    \<and> SubscriptionManager_rxPdo ff False (rx_frames fs) m2 = Inr (m3, map (event_element ff g c enc prec) fs')
    \<and> fs' = report c d 0 (replicate (mv_memSize c) 0) fs
    \<and> (d \<le> 1 \<longrightarrow> fs' = changes c (replicate (mv_memSize c) 0) fs)"
proof -
  define m1 where "m1 = SubscriptionManager_new\<lparr>sm_heap := [a \<mapsto> Subscription_new c d 0 enc prec],
        sm_map := [(ch_signal c, [(ch_ptr c, [(g, a)])])]\<rparr>"
  define m2 where "m2 = m1\<lparr>sm_active := [(g, [(1, \<lparr>bg_counter = 0, bg_map = [(0, \<lparr>ss_subs = [a], ss_time = [None], ss_timePtr = 0\<rparr>)]\<rparr>)])]\<rparr>"
  have n: "SubscriptionManager_newSignal (ch_signal c) m1 = Inr m2"
    by (simp add: SubscriptionManager_newSignal_def m1_def m2_def om_get_def activate_def Subscription_new_def om_at_def
        SubscriptionManager_new_def empty_sset_def empty_bgroup_def Let_def cells_def insort_insert_key_def)
  have "reporting c g d enc prec a 0 (replicate (mv_memSize c) 0) m2"
    by (auto simp: reporting_def m2_def m1_def Subscription_new_def cells_def)
  from rxPdo_reporting [OF this _ assms(1), of fs ff] assms(2) obtain m3 where r:
    "SubscriptionManager_rxPdo ff False (rx_frames fs) m2
       = Inr (m3, map (event_element ff g c enc prec) (report c d 0 (replicate (mv_memSize c) 0) fs))" by (auto simp: list_all_iff)
  show ?thesis
    by (intro exI [of _ m1] exI [of _ m2] exI [of _ m3] exI [of _ "report c d 0 (replicate (mv_memSize c) 0) fs"] conjI)
      (use n r subscribe_fresh [of c g d 0 enc prec a, folded m1_def] in \<open>simp_all add: report_changes\<close>)
qed

theorem event_stream_witness:
  "\<exists>m1 m2 m3. SubscriptionManager_subscribe demo_channel 0 1 0 True 0 50 SubscriptionManager_new
        = Inr (m1, [Signal_subscribe 7])
    \<and> SubscriptionManager_newSignal 7 m1 = Inr m2
    \<and> SubscriptionManager_rxPdo (\<lambda>_ _ _. []) False (rx_frames (demo_frames @ [last demo_frames])) m2
        = Inr (m3, map (event_element (\<lambda>_ _ _. []) 0 demo_channel True 0) demo_frames)"
proof -
  have s: "ch_signal demo_channel = 7" "sized (mv_dtype demo_channel)" "list_all (frame_has demo_channel) (demo_frames @ [last demo_frames])"
    by (simp_all add: demo_channel_def Channel_new_def Variable_new_def channel.defs msr_var.defs demo_frames_def upt_rec frame_has_def nelem_def)
  have "changes demo_channel (replicate (mv_memSize demo_channel) 0) (demo_frames @ [last demo_frames]) = demo_frames"
  proof -
    have "mv_memSize demo_channel = 2" "\<And>t x y. channel_value demo_channel (t, \<lambda>sig. [0, 0, x, y]) = [x, y]"
      by (simp_all add: demo_channel_def Channel_new_def Variable_new_def channel.defs msr_var.defs nelem_def channel_value_def slice_def)
    then show ?thesis by (simp add: demo_frames_def upt_rec replicate_numeral_unfold)
  qed
  then show ?thesis
    using event_stream [of demo_channel "demo_frames @ [last demo_frames]" 0 1 True 0 50 "\<lambda>_ _ _. []"] s by auto
qed

text \<open>A decimation of zero: the counter wraps, and the set is not looked at again for \<open>2 ^ 64 - 1\<close> frames.\<close>

lemma zero_decimation_stalls: "DecimationCounter_busy 0 0 = (True, 2 ^ 64 - 1)"
  by (simp add: DecimationCounter_busy_def)

text \<open>A subscription removed before its signal became active is forgotten, but not deleted.\<close>

lemma inactive_removal_leaks:
  assumes "sm_active m = []"
  shows "SubscriptionManager_remove a g m = Inr m"
  using assms by (simp add: SubscriptionManager_remove_def)

end
