(* ===== verification/Msr_Session.thy ===== *)
theory Msr_Session
  imports Persistence Subscription_Stream "HOL-Library.Monad_Syntax" "HOL-Library.Multiset"
begin

text \<open>
  \<open>msrproto/Session.cpp\<close>: the commands of the MSR protocol and the loop of a session, and the operations
  of \<open>msrproto/Server.cpp\<close> that reach all sessions. A result \<open>None\<close> is undefined behaviour: a pointer
  that is null or wild is used, or a subscription manager faults (which
  \<open>Subscription_Safety.manager_never_faults\<close> excludes).
\<close>

section \<open>Environment\<close>

text \<open>
  What a session reaches outside of the protocol: printing and reading of floating point numbers, the main
  program with its parameters (state \<open>'p\<close>), signals, clocks, the database. \<open>en_setValue\<close> is the virtual \<open>setValue\<close> that
  \<open>lib/Main.cpp\<close> implements, \<open>en_poll\<close> reads a signal, \<open>en_rate\<close> gives the task of a signal and its rate,
  the two reductions are computed from its sample time.
\<close>

record ('p, 'd, 'db) menv =
  en_ff :: float_fmt
  en_rd :: "string \<Rightarrow> ('d \<times> string) option"
  en_conv :: "ctype \<Rightarrow> 'd \<Rightarrow> u8 list"
  en_setValue :: "nat \<Rightarrow> u8 list \<Rightarrow> nat \<Rightarrow> 'p \<Rightarrow> int \<times> 'p"
  en_value :: "'p \<Rightarrow> nat \<Rightarrow> u8 list \<times> timespec"
  en_poll :: "'p \<Rightarrow> nat \<Rightarrow> int \<times> u8 list \<times> timespec"
  en_rate :: "nat \<Rightarrow> nat \<times> nat \<times> string"
  en_eventReduction :: "nat \<Rightarrow> nat"
  en_blockReduction :: "nat \<Rightarrow> nat \<Rightarrow> nat"
  en_info :: "nat \<Rightarrow> bool"
  en_alloc :: "manager \<Rightarrow> nat"
  en_now :: timespec
  en_events :: "event_obj list"
  en_ring :: "event_data wring"
  en_put :: "string \<Rightarrow> u8 list \<Rightarrow> 'db \<Rightarrow> 'db"
  en_pad :: "u8 list"

section \<open>Sessions\<close>

text \<open>
  Parameters are named by their index; \<open>changedParameter\<close> is ordered by address, which follows the order
  of creation. \<open>se_calls\<close> collects the calls on signals of the application.
\<close>

record session =
  se_commandId :: string
  se_writeAccess :: bool
  se_quiet :: bool
  se_polite :: bool
  se_echoOn :: bool
  se_remoteHost :: string
  se_client :: string
  se_peer :: string
  se_connectedTime :: timespec
  se_changed :: "nat list"
  se_aic :: "nat set"
  se_aicDelay :: nat
  se_broadcasts :: "(timespec \<times> string \<times> string) list"
  se_managers :: "manager list"
  se_calls :: "sig_call list"
  se_eventId :: nat
  se_tls :: bool
  se_out :: string

record ('p, 'db) world =
  wo_server :: msr_server
  wo_main :: 'p
  wo_persist :: "'db persist"
  wo_sessions :: "(nat, session) omap"

definition Session_new :: "nat \<Rightarrow> string \<Rightarrow> timespec \<Rightarrow> nat \<Rightarrow> session" where
  "Session_new ntasks peer now eventId =
     \<lparr>se_commandId = [], se_writeAccess = False, se_quiet = False, se_polite = False, se_echoOn = False,
      se_remoteHost = [], se_client = [], se_peer = peer, se_connectedTime = now, se_changed = [], se_aic = {}, se_aicDelay = 0,
      se_broadcasts = [], se_managers = replicate ntasks SubscriptionManager_new, se_calls = [], se_eventId = eventId,
      se_tls = False, se_out = []\<rparr>"

definition emit :: "string \<Rightarrow> session \<Rightarrow> session" where
  "emit t s = s\<lparr>se_out := se_out s @ t\<rparr>"

definition leaf :: "string \<Rightarrow> attrs \<Rightarrow> session \<Rightarrow> session" where
  "leaf nm as s = emit (leaf_text nm 0 (se_commandId s) as) s"

text \<open>\<open>initial\<close>: the greeting, with the names and versions of host, application and protocol.\<close>

definition Session_initial :: "string \<Rightarrow> string \<Rightarrow> string \<Rightarrow> string \<Rightarrow> string \<Rightarrow> session \<Rightarrow> session" where
  "Session_initial host app appversion version features s =
     leaf ''connected'' [(''name'', ''MSR''), (''host'', host), (''app'', app), (''appversion'', appversion), (''version'', version),
        (''features'', features), (''recievebufsize'', ''100000000'')] s"

definition Session_broadcast :: "timespec \<Rightarrow> string \<Rightarrow> string \<Rightarrow> session \<Rightarrow> session" where
  "Session_broadcast ts action message s =
     (if se_polite s then s else s\<lparr>se_broadcasts := se_broadcasts s @ [(ts, action, message)]\<rparr>)"

definition Session_setAIC :: "nat \<Rightarrow> session \<Rightarrow> session" where
  "Session_setAIC main s =
     (let s1 = (if se_polite s then s else s\<lparr>se_aic := insert main (se_aic s)\<rparr>)
      in if se_aicDelay s = 0 then s1\<lparr>se_aicDelay := 5\<rparr> else s1)"

definition Session_parameterChanged :: "nat \<Rightarrow> session \<Rightarrow> session" where
  "Session_parameterChanged idx s =
     (if se_polite s then s else s\<lparr>se_changed := List.insort_insert idx (se_changed s)\<rparr>)"

section \<open>The server and its sessions\<close>

definition all_sessions :: "(session \<Rightarrow> session) \<Rightarrow> ('p, 'db) world \<Rightarrow> ('p, 'db) world" where
  "all_sessions f w = w\<lparr>wo_sessions := map (\<lambda>(i, s). (i, f s)) (wo_sessions w)\<rparr>"

definition Server_broadcast :: "timespec \<Rightarrow> string \<Rightarrow> string \<Rightarrow> ('p, 'db) world \<Rightarrow> ('p, 'db) world" where
  "Server_broadcast ts action message = all_sessions (Session_broadcast ts action message)"

definition Server_setAic :: "nat \<Rightarrow> ('p, 'db) world \<Rightarrow> ('p, 'db) world" where
  "Server_setAic main = all_sessions (Session_setAIC main)"

definition Server_sessionClosed :: "nat \<Rightarrow> ('p, 'db) world \<Rightarrow> ('p, 'db) world" where
  "Server_sessionClosed i w = w\<lparr>wo_sessions := om_del i (wo_sessions w)\<rparr>"

definition getSessionStatistics :: "session \<Rightarrow> string \<times> string \<times> nat \<times> nat \<times> timespec" where
  "getSessionStatistics s =
     (if se_remoteHost s = [] then se_peer s else se_remoteHost s @ '' ('' @ se_peer s @ '')'', se_client s, 0, 0, se_connectedTime s)"

definition Server_getSessionStatistics :: "('p, 'db) world \<Rightarrow> (string \<times> string \<times> nat \<times> nat \<times> timespec) list" where
  "Server_getSessionStatistics w = map (getSessionStatistics \<circ> snd) (wo_sessions w)"

text \<open>\<open>Main::setValue\<close> of \<open>src/Main.cpp\<close>: ask the implementation, then tell the sessions and save.\<close>

definition Main_setValue_announced ::
  "('p, 'd, 'db) menv \<Rightarrow> nat \<Rightarrow> u8 list \<Rightarrow> nat \<Rightarrow> ('p, 'db) world \<Rightarrow> (int \<times> ('p, 'db) world) option" where
  "Main_setValue_announced env main bs offset w =
     (let (rv, m) = en_setValue env main bs offset (wo_main w); w1 = w\<lparr>wo_main := m\<rparr>
      in if rv \<noteq> 0 then Some (rv, w1)
         else do {
           idxs \<leftarrow> Server_parameterChanged (wo_server w) main offset (length bs);
           let w2 = all_sessions (fold Session_parameterChanged idxs) w1;
           Some (0, w2\<lparr>wo_persist := save_changed (en_put env) (en_pad env) main (en_value env m main) (wo_persist w2)\<rparr>)
         })"

text \<open>The methods of a session act on the session \<open>i\<close> of the world.\<close>

definition on_session :: "nat \<Rightarrow> (session \<Rightarrow> session option) \<Rightarrow> ('p, 'db) world \<Rightarrow> ('p, 'db) world option" where
  "on_session i f w =
     do { s \<leftarrow> om_get (wo_sessions w) i; s' \<leftarrow> f s; Some (w\<lparr>wo_sessions := om_put i s' (wo_sessions w)\<rparr>) }"

definition no_fault :: "'e + 'a \<Rightarrow> 'a option" where
  "no_fault r = (case r of Inl e \<Rightarrow> None | Inr x \<Rightarrow> Some x)"

section \<open>Reading\<close>

abbreviation path_of :: "msr_server \<Rightarrow> nat \<Rightarrow> string option" where
  "path_of sv n \<equiv> DirectoryNode_path (sv_dirs sv) n"

definition channel_attributes ::
  "('p, 'd, 'db) menv \<Rightarrow> msr_server \<Rightarrow> bool \<Rightarrow> (nat \<Rightarrow> u8) option \<Rightarrow> timespec option \<Rightarrow> nat \<Rightarrow> xml_element
     \<Rightarrow> (xml_element \<times> string) option" where
  "channel_attributes env sv short data time n e =
     do { c \<leftarrow> channel_at sv n; pth \<leftarrow> path_of sv n;
          let (task, rate, rtext) = en_rate env (ch_signal c);
          Channel_setXmlAttributes (en_ff env 16) c pth (childCount (sv_dirs sv) n) task rate rtext short data time e }"

definition param_attributes ::
  "('p, 'd, 'db) menv \<Rightarrow> msr_server \<Rightarrow> u8 list \<times> timespec \<Rightarrow> bool \<Rightarrow> bool \<Rightarrow> nat \<Rightarrow> xml_element \<Rightarrow> (xml_element \<times> string) option" where
  "param_attributes env sv val short hex n e =
     do { p \<leftarrow> param_at sv n; pth \<leftarrow> path_of sv n;
          Parameter_setXmlAttributes (en_ff env 16) p pth (childCount (sv_dirs sv) n) (Some (fst val)) (snd val) short hex e }"

text \<open>The variable a command names, by path or by index: \<open>Some None\<close> when it names none.\<close>

datatype target = All | Unknown | Target nat

definition target_of :: "(string \<Rightarrow> nat option) \<Rightarrow> (nat \<Rightarrow> nat option) \<Rightarrow> xparser \<Rightarrow> target option" where
  "target_of by_name by_index p =
     do { (found, name) \<leftarrow> XmlParser_getString ''name'' p;
          if found then Some (case by_name name of None \<Rightarrow> Unknown | Some n \<Rightarrow> Target n)
          else do { ix \<leftarrow> XmlParser_getUnsigned ''index'' p;
                    Some (case ix of None \<Rightarrow> All | Some i \<Rightarrow> (case by_index (unat i) of None \<Rightarrow> Unknown | Some n \<Rightarrow> Target n)) } }"

text \<open>A list of children, those for which \<open>f\<close> yields \<open>Some None\<close> are left out.\<close>

fun child_items ::
  "('n \<Rightarrow> (xml_element \<Rightarrow> (xml_element \<times> string) option) option) \<Rightarrow> string \<Rightarrow> 'n list \<Rightarrow> xml_element \<Rightarrow> (xml_element \<times> string) option" where
  "child_items f nm [] e = Some (e, [])"
| "child_items f nm (n # ns) e =
     (case f n of
        None \<Rightarrow> child_items f nm ns e
      | Some write \<Rightarrow>
          let (c, e1, t) = createChild nm e
          in do { (c', t1) \<leftarrow> write c; (e2, t2) \<leftarrow> child_items f nm ns e1; Some (e2, t @ t1 @ XmlElement_delete c' @ t2) })"

definition with_element :: "string \<Rightarrow> (xml_element \<Rightarrow> (xml_element \<times> string) option) \<Rightarrow> session \<Rightarrow> session option" where
  "with_element nm f s =
     (let (e, t) = XmlElement_new nm 0 (se_commandId s)
      in do { (e', t1) \<leftarrow> f e; Some (emit (t @ t1 @ XmlElement_delete e') s) })"

definition channel_hidden :: "msr_server \<Rightarrow> nat \<Rightarrow> bool" where
  "channel_hidden sv n = (case channel_at sv n of Some c \<Rightarrow> mv_hidden c | None \<Rightarrow> False)"

definition readChannel :: "('p, 'd, 'db) menv \<Rightarrow> msr_server \<Rightarrow> 'p \<Rightarrow> xparser \<Rightarrow> session \<Rightarrow> session option" where
  "readChannel env sv m p s =
     do { short \<leftarrow> XmlParser_isTrue ''short'' p;
          tg \<leftarrow> target_of (find_channel sv) (getChannel sv) p;
          case tg of
            Unknown \<Rightarrow> Some s
          | Target n \<Rightarrow>
              do { c \<leftarrow> channel_at sv n;
                   let (rv, buf, time) = en_poll env m (ch_signal c);
                   with_element ''channel''
                     (channel_attributes env sv short (if rv \<noteq> 0 then None else Some (buf_mem buf)) (Some time) n) s }
          | All \<Rightarrow>
              with_element ''channels''
                (child_items (\<lambda>n. if channel_hidden sv n then None else Some (channel_attributes env sv short None None n))
                   ''channel'' (sv_channels sv)) s }"

definition listDirectory :: "('p, 'd, 'db) menv \<Rightarrow> msr_server \<Rightarrow> 'p \<Rightarrow> xparser \<Rightarrow> session \<Rightarrow> session option" where
  "listDirectory env sv m p s =
     (case XmlParser_find ''path'' p of
        None \<Rightarrow> Some s
      | Some (At o') \<Rightarrow>
          with_element ''listing''
            (DirectoryNode_list (en_ff env 16) (en_value env m) (en_rate env) (sv_dirs sv) (sv_root sv) (cstr (pbuf p) o')) s
      | Some _ \<Rightarrow> None)"

definition param_main :: "msr_server \<Rightarrow> nat \<Rightarrow> nat option" where
  "param_main sv n = map_option mp_main (param_at sv n)"

definition param_hidden :: "msr_server \<Rightarrow> nat \<Rightarrow> bool" where
  "param_hidden sv n = (case param_at sv n of Some p \<Rightarrow> mv_hidden p | None \<Rightarrow> False)"

text \<open>
  The list of all parameters: a hidden one is passed over; otherwise the value of its main parameter is read
  once for all the following parameters of the same main parameter.
\<close>

function param_items ::
  "('p, 'd, 'db) menv \<Rightarrow> msr_server \<Rightarrow> 'p \<Rightarrow> bool \<Rightarrow> bool \<Rightarrow> nat list \<Rightarrow> xml_element \<Rightarrow> (xml_element \<times> string) option" where
  "param_items env sv m short hex [] e = Some (e, [])"
| "param_items env sv m short hex (n # ns) e =
     (if param_hidden sv n then param_items env sv m short hex ns e
      else do {
        main \<leftarrow> param_main sv n;
        let val = en_value env m main;
        (e1, t1) \<leftarrow> child_items (\<lambda>k. Some (param_attributes env sv val short hex k)) ''parameter''
                      (takeWhile (\<lambda>k. param_main sv k = Some main) (n # ns)) e;
        (e2, t2) \<leftarrow> param_items env sv m short hex (dropWhile (\<lambda>k. param_main sv k = Some main) ns) e1;
        Some (e2, t1 @ t2) })"
  by pat_completeness auto
termination
  by (relation "measure (\<lambda>(env, sv, m, short, hex, ns, e). length ns)") (auto simp: less_Suc_eq_le length_dropWhile_le)

definition readParameter :: "('p, 'd, 'db) menv \<Rightarrow> msr_server \<Rightarrow> 'p \<Rightarrow> xparser \<Rightarrow> session \<Rightarrow> session option" where
  "readParameter env sv m p s =
     do { short \<leftarrow> XmlParser_isTrue ''short'' p;
          hex \<leftarrow> XmlParser_isTrue ''hex'' p;
          tg \<leftarrow> target_of (find_parameter sv) (getParameter sv) p;
          case tg of
            Unknown \<Rightarrow> Some s
          | Target n \<Rightarrow>
              do { main \<leftarrow> param_main sv n;
                   with_element ''parameter'' (param_attributes env sv (en_value env m main) short hex n) s }
          | All \<Rightarrow> with_element ''parameters'' (param_items env sv m short hex (sv_parameters sv)) s }"

function param_values :: "('p, 'd, 'db) menv \<Rightarrow> msr_server \<Rightarrow> 'p \<Rightarrow> bool \<Rightarrow> nat list \<Rightarrow> string option" where
  "param_values env sv m first [] = Some []"
| "param_values env sv m first (n # ns) =
     do { p \<leftarrow> param_at sv n;
          t \<leftarrow> csv (en_ff env 16) (buf_mem (fst (en_value env m (mp_main p)))) (mv_dtype p) (mv_memSize p) 0 1 False;
          r \<leftarrow> param_values env sv m False (dropWhile (\<lambda>k. param_main sv k = Some (mp_main p)) ns);
          Some ((if first then [] else '';'') @ t @ r) }"
  by pat_completeness auto
termination
  by (relation "measure (\<lambda>(env, sv, m, first, ns). length ns)") (auto simp: less_Suc_eq_le length_dropWhile_le)

definition readParamValues :: "('p, 'd, 'db) menv \<Rightarrow> msr_server \<Rightarrow> 'p \<Rightarrow> xparser \<Rightarrow> session \<Rightarrow> session option" where
  "readParamValues env sv m p s =
     do { t \<leftarrow> param_values env sv m True (sv_parameters sv); Some (leaf ''param_values'' [(''value'', t)] s) }"

definition Session_messageHistory :: "('p, 'd, 'db) menv \<Rightarrow> session \<Rightarrow> session" where
  "Session_messageHistory env s = emit (messageHistory (se_commandId s) (en_events env) (en_ring env) (se_eventId s)) s"

definition client_attrs :: "string \<times> string \<times> nat \<times> nat \<times> timespec \<Rightarrow> attrs" where
  "client_attrs st =
     (case st of (remote, client, cin, cout, time) \<Rightarrow>
        [(''name'', setEscaped (if remote \<noteq> [] then remote else ''unknown'')),
         (''apname'', setEscaped (if client \<noteq> [] then client else ''unknown'')),
         (''countin'', show_nat cin), (''countout'', show_nat cout), (''connectedtime'', time_text time)])"

definition readStatistics :: "(string \<times> string \<times> nat \<times> nat \<times> timespec) list \<Rightarrow> session \<Rightarrow> session" where
  "readStatistics stats s = emit (node_text ''clients'' (se_commandId s) [] (map (\<lambda>x. (''client'', client_attrs x)) stats)) s"

section \<open>Settings and writing\<close>

definition broadcast_command :: "('p, 'd, 'db) menv \<Rightarrow> xparser \<Rightarrow> ('p, 'db) world \<Rightarrow> ('p, 'db) world option" where
  "broadcast_command env p w =
     do { (f1, action) \<leftarrow> XmlParser_getString ''action'' p;
          (f2, msg) \<leftarrow> XmlParser_getString ''text'' p;
          Some (Server_broadcast (en_now env) action msg w) }"

definition echo_command :: "xparser \<Rightarrow> session \<Rightarrow> session option" where
  "echo_command p s = map_option (\<lambda>b. s\<lparr>se_echoOn := b\<rparr>) (XmlParser_isTrue ''value'' p)"

definition ping_command :: "session \<Rightarrow> session" where
  "ping_command s = leaf ''ping'' [] s"

definition startTLS_command :: "session \<Rightarrow> session" where
  "startTLS_command s = (leaf ''tls'' [] s)\<lparr>se_tls := True\<rparr>"

text \<open>Whether \<open>remote_host\<close> grants the right to write: \<open>Some None\<close> when it says nothing about it.\<close>

definition access_of :: "xparser \<Rightarrow> bool option option" where
  "access_of p =
     (if XmlParser_find ''access'' p = None then Some None
      else do { allow \<leftarrow> XmlParser_isEqual ''access'' ''allow'' p;
                if allow then Some (Some True)
                else do { tr \<leftarrow> XmlParser_isTrue ''access'' p; Some (Some tr) } })"

definition remoteHost :: "xparser \<Rightarrow> session \<Rightarrow> session option" where
  "remoteHost p s =
     do { (f1, name) \<leftarrow> XmlParser_getString ''name'' p;
          (f2, app) \<leftarrow> XmlParser_getString ''applicationname'' p;
          acc \<leftarrow> access_of p;
          pol \<leftarrow> XmlParser_isTrue ''polite'' p;
          let s1 = s\<lparr>se_remoteHost := name, se_client := app,
                     se_writeAccess := (case acc of None \<Rightarrow> se_writeAccess s | Some b \<Rightarrow> b), se_polite := pol\<rparr>;
          Some (if pol then s1\<lparr>se_changed := [], se_aic := {}, se_broadcasts := []\<rparr> else s1) }"

text \<open>\<open>mainParam->setValue\<close> as it is called from \<open>setHexValue\<close> and \<open>setDoubleValue\<close>; \<open>None\<close> is kept in the state.\<close>

definition set_through :: "('p, 'd, 'db) menv \<Rightarrow> nat \<Rightarrow> u8 list \<Rightarrow> nat \<Rightarrow> ('p, 'db) world option \<Rightarrow> int \<times> ('p, 'db) world option" where
  "set_through env main bs off wo =
     (case Option.bind wo (Main_setValue_announced env main bs off) of None \<Rightarrow> (0, None) | Some (rv, w) \<Rightarrow> (rv, Some w))"

definition write_value :: "('p, 'd, 'db) menv \<Rightarrow> msr_param \<Rightarrow> xparser \<Rightarrow> nat \<Rightarrow> ('p, 'db) world \<Rightarrow> (int \<times> ('p, 'db) world) option" where
  "write_value env prm p startindex w =
     (let result = (\<lambda>r. map_option (\<lambda>w'. (fst r, w')) (snd r)); setv = set_through env (mp_main prm)
      in case XmlParser_find ''hexvalue'' p of
           Some (At o') \<Rightarrow> result (Parameter_setHexValue setv prm (cstr (pbuf p) o') startindex (Some w))
         | Some _ \<Rightarrow> None
         | None \<Rightarrow>
             (case XmlParser_find ''value'' p of
                Some (At o') \<Rightarrow> result (Parameter_setDoubleValue (en_rd env) (en_conv env) setv prm (cstr (pbuf p) o') startindex (Some w))
              | Some _ \<Rightarrow> None
              | None \<Rightarrow> Some (0, w)))"

definition writeParameter :: "('p, 'd, 'db) menv \<Rightarrow> xparser \<Rightarrow> nat \<Rightarrow> ('p, 'db) world \<Rightarrow> ('p, 'db) world option" where
  "writeParameter env p i w =
     do { s \<leftarrow> om_get (wo_sessions w) i;
          if \<not> se_writeAccess s then on_session i (\<lambda>s. Some (leaf ''warn'' [(''text'', ''No write access'')] s)) w
          else do {
            tg \<leftarrow> target_of (find_parameter (wo_server w)) (getParameter (wo_server w)) p;
            case tg of
              All \<Rightarrow> Some w
            | Unknown \<Rightarrow> Some w
            | Target n \<Rightarrow> do {
                prm \<leftarrow> param_at (wo_server w) n;
                si \<leftarrow> XmlParser_getUnsigned ''startindex'' p;
                let startindex = (case si of None \<Rightarrow> 0 | Some u \<Rightarrow> unat u);
                if si \<noteq> None \<and> nelem (mv_dim prm) \<le> startindex then Some w
                else do {
                  aic \<leftarrow> XmlParser_isTrue ''aic'' p;
                  let w1 = (if aic then Server_setAic (mp_main prm) w else w);
                  (errnum, w2) \<leftarrow> write_value env prm p startindex w1;
                  if errnum \<noteq> 0 then on_session i (\<lambda>s. Some (Session_parameterChanged (mv_index prm) s)) w2 else Some w2 } } } }"

section \<open>Subscriptions\<close>

text \<open>
  A call on a signal: \<open>TimeSignal\<close> and \<open>StatSignal\<close> answer a subscription with \<open>newSignal\<close> at once and do
  nothing when it ends; the signals of the application are asked to be transferred.
\<close>

fun signal_calls :: "('p, 'd, 'db) menv \<Rightarrow> sig_call list \<Rightarrow> manager \<Rightarrow> (manager \<times> sig_call list) option" where
  "signal_calls env [] mg = Some (mg, [])"
| "signal_calls env (Signal_subscribe g # cs) mg =
     (if en_info env g
      then do { mg1 \<leftarrow> no_fault (SubscriptionManager_newSignal g mg); signal_calls env cs mg1 }
      else do { (mg1, r) \<leftarrow> signal_calls env cs mg; Some (mg1, Signal_subscribe g # r) })"
| "signal_calls env (Signal_unsubscribe g # cs) mg =
     do { (mg1, r) \<leftarrow> signal_calls env cs mg; Some (mg1, if en_info env g then r else Signal_unsubscribe g # r) }"

text \<open>\<open>subscriptionManager[task]->f(...)\<close>; \<open>None\<close>: there is no manager of this number.\<close>

definition on_manager ::
  "('p, 'd, 'db) menv \<Rightarrow> nat \<Rightarrow> (manager \<Rightarrow> (manager \<times> sig_call list) option) \<Rightarrow> session \<Rightarrow> session option" where
  "on_manager env task f s =
     (if length (se_managers s) \<le> task then None
      else do { (mg, cs) \<leftarrow> f (se_managers s ! task);
                (mg1, r) \<leftarrow> signal_calls env cs mg;
                Some (s\<lparr>se_managers := (se_managers s)[task := mg1], se_calls := se_calls s @ r\<rparr>) })"

fun each_manager :: "(manager \<Rightarrow> manager option) \<Rightarrow> manager list \<Rightarrow> manager list option" where
  "each_manager f [] = Some []"
| "each_manager f (m # ms) = do { m1 \<leftarrow> f m; ms1 \<leftarrow> each_manager f ms; Some (m1 # ms1) }"

definition xsad_channel ::
  "('p, 'd, 'db) menv \<Rightarrow> msr_server \<Rightarrow> bool \<Rightarrow> nat option \<Rightarrow> nat \<Rightarrow> bool \<Rightarrow> nat \<Rightarrow> nat \<Rightarrow> nat \<Rightarrow> session \<Rightarrow> session option" where
  "xsad_channel env sv event reduction blocksize enc64 precision grp idx s =
     (if length (sv_channels sv) \<le> idx then Some s
      else do {
        c \<leftarrow> channel_at sv (sv_channels sv ! idx);
        let red = (case reduction of
               Some r \<Rightarrow> r
             | None \<Rightarrow> if event then en_eventReduction env (ch_signal c) else en_blockReduction env (ch_signal c) blocksize);
        on_manager env (fst (en_rate env (ch_signal c)))
          (\<lambda>mg. no_fault (SubscriptionManager_subscribe c grp red blocksize enc64 precision (en_alloc env mg) mg)) s })"

fun fold_option :: "('a \<Rightarrow> 's \<Rightarrow> 's option) \<Rightarrow> 'a list \<Rightarrow> 's \<Rightarrow> 's option" where
  "fold_option f [] s = Some s"
| "fold_option f (x # xs) s = Option.bind (f x s) (fold_option f xs)"

definition xsad_warn :: "string \<Rightarrow> session \<Rightarrow> session" where
  "xsad_warn msg s = leaf ''warn'' [(''command'', ''xsad''), (''text'', msg)] s"

text \<open>\<open>sync\<close> and \<open>quiet\<close>.\<close>

definition xsad_mode :: "xparser \<Rightarrow> session \<Rightarrow> session option" where
  "xsad_mode p s =
     do { sync \<leftarrow> XmlParser_isTrue ''sync'' p;
          if sync
          then map_option (\<lambda>ms. s\<lparr>se_managers := ms, se_quiet := False\<rparr>)
                 (each_manager (\<lambda>m. no_fault (SubscriptionManager_sync m)) (se_managers s))
          else map_option (\<lambda>b. s\<lparr>se_quiet := b\<rparr>) (XmlParser_isTrue ''quiet'' p) }"

definition xsad_list :: "('p, 'd, 'db) menv \<Rightarrow> msr_server \<Rightarrow> xparser \<Rightarrow> bool \<Rightarrow> bool \<Rightarrow> u32 list \<Rightarrow> session \<Rightarrow> session option" where
  "xsad_list env sv p enc64 event idxs s =
     do { red \<leftarrow> XmlParser_getUnsigned ''reduction'' p;
          let s1 = (if red = Some 0 then xsad_warn ''specified reduction=0, choosing reduction=1'' s else s);
          let reduction = map_option (\<lambda>r. if r = 0 then 1 else unat r) red;
          bs \<leftarrow> (if event then Some None else XmlParser_getUnsigned ''blocksize'' p);
          let s2 = (if bs = Some 0 then xsad_warn ''specified blocksize=0, choosing blocksize=1'' s1 else s1);
          let blocksize = (if event then 0 else case bs of None \<Rightarrow> 1 | Some b \<Rightarrow> if b = 0 then 1 else unat b);
          prec \<leftarrow> XmlParser_getUnsigned ''precision'' p;
          grp \<leftarrow> XmlParser_getUnsigned ''group'' p;
          fold_option (\<lambda>ix. xsad_channel env sv event reduction blocksize enc64
               (case prec of None \<Rightarrow> 16 | Some x \<Rightarrow> unat x) (case grp of None \<Rightarrow> 0 | Some g \<Rightarrow> unat g) (unat ix)) idxs s2 }"

definition xsad :: "('p, 'd, 'db) menv \<Rightarrow> msr_server \<Rightarrow> xparser \<Rightarrow> session \<Rightarrow> session option" where
  "xsad env sv p s =
     do { enc64 \<leftarrow> XmlParser_isEqual ''coding'' ''Base64'' p;
          event \<leftarrow> XmlParser_isTrue ''event'' p;
          s1 \<leftarrow> xsad_mode p s;
          lst \<leftarrow> XmlParser_getUnsignedList ''channels'' p;
          case lst of None \<Rightarrow> Some s1 | Some idxs \<Rightarrow> xsad_list env sv p enc64 event idxs s1 }"

definition xsod_channel :: "('p, 'd, 'db) menv \<Rightarrow> msr_server \<Rightarrow> nat \<Rightarrow> nat \<Rightarrow> session \<Rightarrow> session option" where
  "xsod_channel env sv grp idx s =
     (if length (sv_channels sv) \<le> idx then Some s
      else do {
        c \<leftarrow> channel_at sv (sv_channels sv ! idx);
        on_manager env (fst (en_rate env (ch_signal c))) (\<lambda>mg. no_fault (SubscriptionManager_unsubscribe c grp mg)) s })"

definition xsod :: "('p, 'd, 'db) menv \<Rightarrow> msr_server \<Rightarrow> xparser \<Rightarrow> session \<Rightarrow> session option" where
  "xsod env sv p s =
     do { lst \<leftarrow> XmlParser_getUnsignedList ''channels'' p;
          case lst of
            Some idxs \<Rightarrow> do {
              grp \<leftarrow> XmlParser_getUnsigned ''group'' p;
              fold_option (\<lambda>ix. xsod_channel env sv (case grp of None \<Rightarrow> 0 | Some g \<Rightarrow> unat g) (unat ix)) idxs s }
          | None \<Rightarrow> fold_option (\<lambda>k. on_manager env k (\<lambda>mg. Some (SubscriptionManager_clear mg))) [0..<length (se_managers s)] s }"

section \<open>Commands\<close>

definition unknown_command :: "string \<Rightarrow> session \<Rightarrow> session" where
  "unknown_command cmd s = leaf ''warn'' [(''num'', ''1000''), (''text'', ''unknown command''), (''command'', setEscaped cmd)] s"

datatype command =
    Ping | ReadStatistics | WriteParameter | ReadParameter | Xsad | Xsod | Echo | ReadChannel | ReadParamValues
  | ListDirectory | StartTLS | Broadcast | RemoteHost | MessageHistory

definition cmds :: "(string \<times> command) list" where
  "cmds =
     [(''ping'', Ping), (''rs'', ReadStatistics), (''wp'', WriteParameter), (''rp'', ReadParameter), (''xsad'', Xsad),
      (''xsod'', Xsod), (''echo'', Echo), (''rc'', ReadChannel), (''rk'', ReadChannel), (''rpv'', ReadParamValues),
      (''list'', ListDirectory), (''starttls'', StartTLS), (''broadcast'', Broadcast), (''remote_host'', RemoteHost),
      (''read_kanaele'', ReadChannel), (''read_statics'', ReadStatistics), (''read_parameter'', ReadParameter),
      (''read_statistics'', ReadStatistics), (''message_history'', MessageHistory), (''write_parameter'', WriteParameter),
      (''read_param_values'', ReadParamValues)]"

fun run_command :: "('p, 'd, 'db) menv \<Rightarrow> command \<Rightarrow> xparser \<Rightarrow> nat \<Rightarrow> ('p, 'db) world \<Rightarrow> ('p, 'db) world option" where
  "run_command env Ping p i w = on_session i (\<lambda>s. Some (ping_command s)) w"
| "run_command env ReadStatistics p i w = on_session i (\<lambda>s. Some (readStatistics (Server_getSessionStatistics w) s)) w"
| "run_command env WriteParameter p i w = writeParameter env p i w"
| "run_command env ReadParameter p i w = on_session i (readParameter env (wo_server w) (wo_main w) p) w"
| "run_command env Xsad p i w = on_session i (xsad env (wo_server w) p) w"
| "run_command env Xsod p i w = on_session i (xsod env (wo_server w) p) w"
| "run_command env Echo p i w = on_session i (echo_command p) w"
| "run_command env ReadChannel p i w = on_session i (readChannel env (wo_server w) (wo_main w) p) w"
| "run_command env ReadParamValues p i w = on_session i (readParamValues env (wo_server w) (wo_main w) p) w"
| "run_command env ListDirectory p i w = on_session i (listDirectory env (wo_server w) (wo_main w) p) w"
| "run_command env StartTLS p i w = on_session i (\<lambda>s. Some (startTLS_command s)) w"
| "run_command env Broadcast p i w = broadcast_command env p w"
| "run_command env RemoteHost p i w = on_session i (remoteHost p) w"
| "run_command env MessageHistory p i w = on_session i (\<lambda>s. Some (Session_messageHistory env s)) w"

definition processCommand :: "('p, 'd, 'db) menv \<Rightarrow> xparser \<Rightarrow> nat \<Rightarrow> ('p, 'db) world \<Rightarrow> ('p, 'db) world option" where
  "processCommand env p i w =
     (case map_of cmds (XmlParser_tag p) of
        Some c \<Rightarrow> run_command env c p i w
      | None \<Rightarrow> on_session i (\<lambda>s. Some (unknown_command (XmlParser_tag p) s)) w)"

section \<open>The loop of a session\<close>

text \<open>The answer to a command with an \<open>id\<close> ends with an \<open>ack\<close>; the id is cleared before the element is closed.\<close>

definition acknowledge :: "session \<Rightarrow> session" where
  "acknowledge s =
     (if se_commandId s = [] then s
      else emit (leaf_text ''ack'' 0 [] [(''id'', setEscaped (se_commandId s))]) (s\<lparr>se_commandId := []\<rparr>))"

definition handle_element :: "('p, 'd, 'db) menv \<Rightarrow> xparser \<Rightarrow> nat \<Rightarrow> ('p, 'db) world \<Rightarrow> ('p, 'db) world option" where
  "handle_element env p i w =
     do { (f, ident) \<leftarrow> XmlParser_getString ''id'' p;
          w1 \<leftarrow> on_session i (\<lambda>s. Some (s\<lparr>se_commandId := ident\<rparr>)) w;
          w2 \<leftarrow> processCommand env p i w1;
          on_session i (\<lambda>s. Some (acknowledge s)) w2 }"

partial_function (option) command_loop ::
  "('p, 'd, 'db) menv \<Rightarrow> nat \<Rightarrow> xparser \<Rightarrow> ('p, 'db) world \<Rightarrow> (xparser \<times> ('p, 'db) world) option" where
  "command_loop env i p w =
     (let (more, p1) = XmlParser_next p
      in if more then Option.bind (handle_element env p1 i w) (command_loop env i p1) else Some (p1, w))"

text \<open>The asynchronous announcements: which parameters are due, and what is left.\<close>

definition due :: "msr_server \<Rightarrow> session \<Rightarrow> nat \<Rightarrow> bool" where
  "due sv s idx \<longleftrightarrow> se_aicDelay s \<le> 1 \<or>
     (case Option.bind (getParameter sv idx) (param_main sv) of Some main \<Rightarrow> main \<notin> se_aic s | None \<Rightarrow> True)"

definition broadcast_attrs :: "timespec \<times> string \<times> string \<Rightarrow> attrs" where
  "broadcast_attrs b =
     (case b of (ts, action, message) \<Rightarrow>
        (''time'', time_text ts) # (if action \<noteq> [] then [(''action'', setEscaped action)] else [])
        @ (if message \<noteq> [] then [(''text'', setEscaped message)] else []))"

definition async_round :: "msr_server \<Rightarrow> session \<Rightarrow> nat list \<times> session" where
  "async_round sv s =
     (let cp = filter (due sv s) (se_changed s)
      in (cp,
          emit (concat (map (\<lambda>idx. leaf_text ''pu'' 0 (se_commandId s) [(''index'', show_nat idx)]) cp)
                @ concat (map (\<lambda>b. leaf_text ''broadcast'' 0 (se_commandId s) (broadcast_attrs b)) (se_broadcasts s)))
            (s\<lparr>se_aicDelay := se_aicDelay s - 1, se_changed := filter (\<lambda>x. \<not> due sv s x) (se_changed s), se_broadcasts := []\<rparr>)))"

fun rx_managers ::
  "float_fmt \<Rightarrow> bool \<Rightarrow> (nat \<Rightarrow> rx_event list) \<Rightarrow> nat \<Rightarrow> manager list \<Rightarrow> (manager list \<times> data_element list) option" where
  "rx_managers ff quiet rx k [] = Some ([], [])"
| "rx_managers ff quiet rx k (m # ms) =
     do { (m1, d) \<leftarrow> no_fault (SubscriptionManager_rxPdo ff quiet (rx k) m);
          (ms1, ds) \<leftarrow> rx_managers ff quiet rx (Suc k) ms;
          Some (m1 # ms1, d @ ds) }"

text \<open>
  One turn of \<open>Session::run\<close>: \<open>inp\<close> is the input that is pending (\<open>None\<close>: there is none), \<open>rx\<close> what the
  tasks deliver. The flag says that the parser refused the input, which ends the session.
\<close>

definition run_turn ::
  "('p, 'd, 'db) menv \<Rightarrow> nat \<Rightarrow> string option \<Rightarrow> (nat \<Rightarrow> rx_event list) \<Rightarrow> xparser \<Rightarrow> ('p, 'db) world
     \<Rightarrow> (bool \<times> xparser \<times> ('p, 'db) world) option" where
  "run_turn env i inp rx p w =
     (case (case inp of None \<Rightarrow> (1, p) | Some t \<Rightarrow> XmlParser_read t p) of
        (n, p0) \<Rightarrow>
          if n = 0 \<and> XmlParser_invalid p0 then Some (True, p0, w)
          else do {
            (p1, w1) \<leftarrow> (if inp = None then Some (p0, w) else command_loop env i p0 w);
            w2 \<leftarrow> on_session i (\<lambda>s. Some (snd (async_round (wo_server w1) s))) w1;
            w3 \<leftarrow> on_session i (\<lambda>s. do {
                    (ms, ds) \<leftarrow> rx_managers (en_ff env) (se_quiet s) rx 0 (se_managers s);
                    Some (emit (concat (map (\<lambda>(as, cs). node_text ''data'' (se_commandId s) as cs) ds)) (s\<lparr>se_managers := ms\<rparr>)) }) w2;
            w4 \<leftarrow> on_session i (\<lambda>s. map_option (\<lambda>(ev, out). s\<lparr>se_eventId := ev, se_out := out\<rparr>)
                    (poll_events (se_commandId s) (en_events env) (en_ring env) (se_eventId s) (se_out s))) w3;
            Some (False, p1, w4) })"

end
