(* ===== verification/Session_Access.thy ===== *)
theory Session_Access
  imports Msr_Session
begin

text \<open>
  Properties of the sessions: without a request for write access nothing that the clients send changes a
  parameter, and a change that was accepted is announced to every session exactly once.
\<close>

section \<open>Who may write\<close>

definition locked :: "('p, 'db) world \<Rightarrow> bool" where
  "locked w \<longleftrightarrow> list_all (\<lambda>(i, s). \<not> se_writeAccess s) (wo_sessions w)"

text \<open>An operation of a session that does not give it the right to write.\<close>

definition keeps_access :: "(session \<Rightarrow> session option) \<Rightarrow> bool" where
  "keeps_access f \<longleftrightarrow> (\<forall>s s'. f s = Some s' \<longrightarrow> se_writeAccess s' = se_writeAccess s)"

named_theorems access

lemma bindE: "Option.bind x f = Some y \<Longrightarrow> (\<And>a. x = Some a \<Longrightarrow> f a = Some y \<Longrightarrow> P) \<Longrightarrow> P"
  by (cases x) auto

lemma access_emit [simp]: "se_writeAccess (emit t s) = se_writeAccess s"
  by (simp add: emit_def)

lemma access_leaf [simp]: "se_writeAccess (leaf nm as s) = se_writeAccess s"
  by (simp add: leaf_def)

lemma with_element_access [access]: "with_element nm f s = Some s' \<Longrightarrow> se_writeAccess s' = se_writeAccess s"
  by (auto simp: with_element_def bind_eq_Some_conv split: prod.splits)

lemma on_manager_access [access]: "on_manager env t f s = Some s' \<Longrightarrow> se_writeAccess s' = se_writeAccess s"
  by (auto simp: on_manager_def bind_eq_Some_conv split: if_splits)

lemma fold_option_access:
  "(\<And>x s s'. f x s = Some s' \<Longrightarrow> se_writeAccess s' = se_writeAccess s) \<Longrightarrow> fold_option f xs s = Some s' \<Longrightarrow> se_writeAccess s' = se_writeAccess s"
  by (induction xs arbitrary: s) (fastforce simp: bind_eq_Some_conv)+

lemma readChannel_access [access]: "readChannel env sv m p s = Some s' \<Longrightarrow> se_writeAccess s' = se_writeAccess s"
  unfolding readChannel_def
  by (elim bindE) (auto split: target.split_asm prod.split_asm elim!: bindE dest: access)

lemma readParameter_access [access]: "readParameter env sv m p s = Some s' \<Longrightarrow> se_writeAccess s' = se_writeAccess s"
  unfolding readParameter_def
  by (elim bindE) (auto split: target.split_asm elim!: bindE dest: access)

lemma listDirectory_access [access]: "listDirectory env sv m p s = Some s' \<Longrightarrow> se_writeAccess s' = se_writeAccess s"
  by (auto simp: listDirectory_def split: option.split_asm aval.split_asm dest: access)

lemma readParamValues_access [access]: "readParamValues env sv m p s = Some s' \<Longrightarrow> se_writeAccess s' = se_writeAccess s"
  by (auto simp: readParamValues_def bind_eq_Some_conv)

lemma xsad_channel_access: "xsad_channel env sv ev red bs e64 pr g ix s = Some s' \<Longrightarrow> se_writeAccess s' = se_writeAccess s"
  by (auto simp: xsad_channel_def bind_eq_Some_conv Let_def split: if_splits dest: access)

lemma xsad_mode_access: "xsad_mode p s = Some s' \<Longrightarrow> se_writeAccess s' = se_writeAccess s"
  by (auto simp: xsad_mode_def bind_eq_Some_conv split: if_splits)

lemma xsad_list_access: "xsad_list env sv p e64 ev idxs s = Some s' \<Longrightarrow> se_writeAccess s' = se_writeAccess s"
  unfolding xsad_list_def bind_eq_Some_conv Let_def
  by (elim exE conjE) (drule fold_option_access [rotated], erule xsad_channel_access, simp add: xsad_warn_def split: if_splits)

lemma xsad_access [access]: "xsad env sv p s = Some s' \<Longrightarrow> se_writeAccess s' = se_writeAccess s"
  by (auto simp: xsad_def bind_eq_Some_conv split: option.split_asm dest: xsad_mode_access xsad_list_access)

lemma xsod_channel_access: "xsod_channel env sv g ix s = Some s' \<Longrightarrow> se_writeAccess s' = se_writeAccess s"
  by (auto simp: xsod_channel_def bind_eq_Some_conv split: if_splits dest: access)

lemma xsod_access [access]: "xsod env sv p s = Some s' \<Longrightarrow> se_writeAccess s' = se_writeAccess s"
proof -
  assume "xsod env sv p s = Some s'"
  then consider f idxs where "fold_option (\<lambda>ix. xsod_channel env sv f (unat ix)) (idxs :: u32 list) s = Some s'"
    | "fold_option (\<lambda>k. on_manager env k (\<lambda>mg. Some (SubscriptionManager_clear mg))) [0..<length (se_managers s)] s = Some s'"
    unfolding xsod_def by (elim bindE) (auto split: option.split_asm elim!: bindE)
  then show ?thesis
  proof cases
    case 1
    then show ?thesis by (rule fold_option_access [rotated]) (rule xsod_channel_access)
  next
    case 2
    then show ?thesis by (rule fold_option_access [rotated]) (rule on_manager_access)
  qed
qed

section \<open>Steps of the system\<close>

lemma on_session_cases:
  assumes "on_session i f w = Some w'"
  obtains s s' where "om_get (wo_sessions w) i = Some s" "f s = Some s'" "w' = w\<lparr>wo_sessions := om_put i s' (wo_sessions w)\<rparr>"
  using assms by (auto simp: on_session_def bind_eq_Some_conv)

lemma locked_on_session:
  assumes "on_session i f w = Some w'" and "locked w" and "\<And>s s'. f s = Some s' \<Longrightarrow> se_writeAccess s' = se_writeAccess s"
  shows "locked w' \<and> wo_main w' = wo_main w \<and> wo_persist w' = wo_persist w"
proof -
  obtain s s' where s: "om_get (wo_sessions w) i = Some s" "f s = Some s'" "w' = w\<lparr>wo_sessions := om_put i s' (wo_sessions w)\<rparr>"
    using assms(1) by (rule on_session_cases)
  have "\<not> se_writeAccess s" using assms(2) om_get_in [OF s(1)] by (auto simp: locked_def list_all_iff)
  then have "\<not> se_writeAccess s'" using assms(3) [OF s(2)] by simp
  then show ?thesis using assms(2) set_om_put [of i s' "wo_sessions w"] by (auto simp: s(3) locked_def list_all_iff)
qed

lemma remoteHost_access: "remoteHost p s = Some s' \<Longrightarrow> access_of p \<noteq> Some (Some True) \<Longrightarrow> \<not> se_writeAccess s \<Longrightarrow> \<not> se_writeAccess s'"
  unfolding remoteHost_def by (elim bindE) (auto simp: Let_def split: if_splits option.split_asm elim!: bindE)

text \<open>
  A command that asks for the right to write, by its text: the element \<open>remote_host\<close> whose first attribute \<open>access\<close> has no value,
  or one of four.
\<close>

definition grants :: "xparser \<Rightarrow> bool" where
  "grants p \<longleftrightarrow> XmlParser_tag p = ''remote_host'' \<and>
     (case List.find (\<lambda>(a, v). map tolower a = ''access'') (attr_strings p) of
        None \<Rightarrow> False
      | Some (a, None) \<Rightarrow> True
      | Some (a, Some v) \<Rightarrow> map tolower v \<in> {''allow'', ''1'', ''true'', ''on''})"

lemma find_attr_text:
  "find_attr b n as = Some v \<Longrightarrow> v \<noteq> Wild \<Longrightarrow> map tolower n = n \<Longrightarrow>
   \<exists>a. List.find (\<lambda>(a, v). map tolower a = n)
      (map (\<lambda>(a, v). (case a of At o' \<Rightarrow> cstr b o' | _ \<Rightarrow> [], case v of At o' \<Rightarrow> Some (cstr b o') | _ \<Rightarrow> None)) as)
     = Some (a, case v of At o' \<Rightarrow> Some (cstr b o') | _ \<Rightarrow> None)"
  by (induction b n as rule: find_attr.induct) (auto simp: strcasecmp_eq_def split: aval.splits if_splits)

lemma access_granted:
  assumes "access_of p = Some (Some True)" and "XmlParser_tag p = ''remote_host''"
  shows "grants p"
proof -
  let ?find = "List.find (\<lambda>(a, v). map tolower a = ''access'') (attr_strings p)"
  obtain v where v: "XmlParser_find ''access'' p = Some v" using assms(1) by (auto simp: access_of_def split: if_splits)
  with assms(1) have w: "v \<noteq> Wild" by (auto simp: access_of_def XmlParser_isEqual_def)
  have n: "map tolower ''access'' = ''access''" by code_simp
  obtain a where f: "?find = Some (a, case v of At o' \<Rightarrow> Some (cstr (pbuf p) o') | _ \<Rightarrow> None)"
    using find_attr_text [OF v [unfolded XmlParser_find_def] w n] by (auto simp: attr_strings_def)
  show ?thesis
  proof (cases v)
    case (At k)
    let ?t = "cstr (pbuf p) k"
    have l: "map tolower ''allow'' = ''allow''" "map tolower ''true'' = ''true''" "map tolower ''on'' = ''on''" "map tolower ''1'' = ''1''"
      by code_simp+
    have "strcasecmp_eq ?t ''allow'' \<or> ?t = ''1'' \<or> strcasecmp_eq ?t ''true'' \<or> strcasecmp_eq ?t ''on''"
      using assms(1) v At by (auto simp: access_of_def XmlParser_isEqual_def XmlParser_isTrue_def Let_def split: if_splits)
    then have "map tolower ?t \<in> {''allow'', ''1'', ''true'', ''on''}"
      using l by (auto simp: strcasecmp_eq_def)
    with f At assms(2) show ?thesis by (simp add: grants_def)
  qed (use f assms(2) in \<open>simp_all add: grants_def\<close>)
qed

lemma locked_remote:
  assumes "on_session i (remoteHost p) w = Some w'" and "locked w" and "access_of p \<noteq> Some (Some True)"
  shows "locked w' \<and> wo_main w' = wo_main w \<and> wo_persist w' = wo_persist w"
proof -
  obtain s s' where s: "om_get (wo_sessions w) i = Some s" "remoteHost p s = Some s'" "w' = w\<lparr>wo_sessions := om_put i s' (wo_sessions w)\<rparr>"
    using assms(1) by (rule on_session_cases)
  have "\<not> se_writeAccess s" using assms(2) om_get_in [OF s(1)] by (auto simp: locked_def list_all_iff)
  then have "\<not> se_writeAccess s'" using remoteHost_access [OF s(2) assms(3)] by simp
  then show ?thesis using assms(2) set_om_put [of i s' "wo_sessions w"] by (auto simp: s(3) locked_def list_all_iff)
qed

lemma locked_write:
  assumes "writeParameter env p i w = Some w'" and "locked w"
  shows "locked w' \<and> wo_main w' = wo_main w \<and> wo_persist w' = wo_persist w"
proof -
  obtain s where s: "om_get (wo_sessions w) i = Some s" using assms(1) by (auto simp: writeParameter_def elim!: bindE)
  then have "\<not> se_writeAccess s" using assms(2) om_get_in [OF s] by (auto simp: locked_def list_all_iff)
  then have "on_session i (\<lambda>s. Some (leaf ''warn'' [(''text'', ''No write access'')] s)) w = Some w'"
    using assms(1) s by (simp add: writeParameter_def)
  from locked_on_session [OF this assms(2)] show ?thesis by auto
qed

lemma locked_all_sessions:
  "(\<And>s. se_writeAccess (f s) = se_writeAccess s) \<Longrightarrow> locked (all_sessions f w) = locked w"
  by (auto simp: locked_def all_sessions_def list_all_iff)

lemma locked_broadcast:
  assumes "broadcast_command env p w = Some w'" and "locked w"
  shows "locked w' \<and> wo_main w' = wo_main w \<and> wo_persist w' = wo_persist w"
proof -
  obtain a m where w': "w' = all_sessions (Session_broadcast (en_now env) a m) w"
    using assms(1) by (auto simp: broadcast_command_def Server_broadcast_def elim!: bindE)
  have "locked w' = locked w" unfolding w' by (rule locked_all_sessions) (simp add: Session_broadcast_def)
  then show ?thesis using assms(2) by (simp add: w' all_sessions_def)
qed

lemma locked_command:
  assumes "run_command env c p i w = Some w'" and "locked w" and "c = RemoteHost \<Longrightarrow> access_of p \<noteq> Some (Some True)"
  shows "locked w' \<and> wo_main w' = wo_main w \<and> wo_persist w' = wo_persist w"
  using assms
  by (cases c) (simp_all add: locked_write locked_broadcast locked_remote,
      (erule locked_on_session, assumption, (auto simp: ping_command_def readStatistics_def echo_command_def startTLS_command_def
         Session_messageHistory_def dest: access)[1])+)

lemma locked_element:
  assumes "handle_element env p i w = Some w'" and "locked w" and "\<not> grants p"
  shows "locked w' \<and> wo_main w' = wo_main w \<and> wo_persist w' = wo_persist w"
proof -
  obtain ident w1 w2 where w: "on_session i (\<lambda>s. Some (s\<lparr>se_commandId := ident\<rparr>)) w = Some w1" "processCommand env p i w1 = Some w2"
      "on_session i (\<lambda>s. Some (acknowledge s)) w2 = Some w'"
    using assms(1) by (auto simp: handle_element_def split: prod.splits elim!: bindE)
  note a = locked_on_session [OF w(1) assms(2)]
  have "locked w2 \<and> wo_main w2 = wo_main w1 \<and> wo_persist w2 = wo_persist w1"
  proof (cases "map_of cmds (XmlParser_tag p)")
    case None
    then have "on_session i (\<lambda>s. Some (unknown_command (XmlParser_tag p) s)) w1 = Some w2" using w(2) by (simp add: processCommand_def)
    from locked_on_session [OF this] a show ?thesis by (auto simp: unknown_command_def)
  next
    case (Some c)
    have "access_of p \<noteq> Some (Some True)" if "c = RemoteHost"
    proof -
      have "XmlParser_tag p = ''remote_host''" using map_of_SomeD [OF Some] that by (simp add: cmds_def)
      with access_granted [of p] assms(3) show ?thesis by blast
    qed
    with Some show ?thesis using w(2) a locked_command [of env c p i w1 w2] by (auto simp: processCommand_def)
  qed
  moreover have "se_writeAccess (acknowledge s) = se_writeAccess s" for s by (simp add: acknowledge_def)
  ultimately show ?thesis using a locked_on_session [OF w(3)] by auto
qed


text \<open>
  The steps of the system: a session handles an element, announces changes, delivers data or events or is
  closed, and the server opens a session.
\<close>

inductive session_step :: "('p, 'd, 'db) menv \<Rightarrow> xparser option \<Rightarrow> ('p, 'db) world \<Rightarrow> ('p, 'db) world \<Rightarrow> bool" for env where
  element: "handle_element env p i w = Some w' \<Longrightarrow> session_step env (Some p) w w'"
| announce: "on_session i (\<lambda>s. Some (snd (async_round (wo_server w) s))) w = Some w' \<Longrightarrow> session_step env None w w'"
| deliver: "on_session i (\<lambda>s. do { (ms, ds) \<leftarrow> rx_managers (en_ff env) (se_quiet s) rx 0 (se_managers s);
      Some (emit (concat (map (\<lambda>(as, cs). node_text ''data'' (se_commandId s) as cs) ds)) (s\<lparr>se_managers := ms\<rparr>)) }) w = Some w'
    \<Longrightarrow> session_step env None w w'"
| events: "on_session i (\<lambda>s. map_option (\<lambda>(ev, out). s\<lparr>se_eventId := ev, se_out := out\<rparr>)
      (poll_events (se_commandId s) (en_events env) (en_ring env) (se_eventId s) (se_out s))) w = Some w' \<Longrightarrow> session_step env None w w'"
| close: "session_step env None w (Server_sessionClosed i w)"

definition Server_newSession :: "nat \<Rightarrow> nat \<Rightarrow> string \<Rightarrow> timespec \<Rightarrow> nat \<Rightarrow> ('p, 'db) world \<Rightarrow> ('p, 'db) world" where
  "Server_newSession i ntasks peer now ev w = w\<lparr>wo_sessions := om_put i (Session_new ntasks peer now ev) (wo_sessions w)\<rparr>"

inductive net_step :: "('p, 'd, 'db) menv \<Rightarrow> xparser option \<Rightarrow> ('p, 'db) world \<Rightarrow> ('p, 'db) world \<Rightarrow> bool" for env where
  turn: "session_step env po w w' \<Longrightarrow> net_step env po w w'"
| connect: "om_get (wo_sessions w) i = None \<Longrightarrow> net_step env None w (Server_newSession i n peer now ev w)"

inductive net_run :: "('p, 'd, 'db) menv \<Rightarrow> xparser list \<Rightarrow> ('p, 'db) world \<Rightarrow> ('p, 'db) world \<Rightarrow> bool" for env where
  start: "net_run env [] w w"
| command: "net_run env ps w w1 \<Longrightarrow> net_step env (Some p) w1 w2 \<Longrightarrow> net_run env (ps @ [p]) w w2"
| other: "net_run env ps w w1 \<Longrightarrow> net_step env None w1 w2 \<Longrightarrow> net_run env ps w w2"

lemma om_del_subset: "set (om_del k m) \<subseteq> set m"
  by (auto simp: om_del_def)

lemma locked_turn:
  assumes "session_step env po w w'" and "locked w" and "\<And>p. po = Some p \<Longrightarrow> \<not> grants p"
  shows "locked w' \<and> wo_main w' = wo_main w \<and> wo_persist w' = wo_persist w"
  using assms
proof cases
  case (element p i)
  then show ?thesis using locked_element assms(2,3) by blast
next
  case (announce i)
  from locked_on_session [OF announce(2) assms(2)] show ?thesis by (simp add: async_round_def Let_def)
next
  case (deliver i rx)
  from locked_on_session [OF deliver(2) assms(2)] show ?thesis by (force simp: bind_eq_Some_conv)
next
  case (events i)
  from locked_on_session [OF events(2) assms(2)] show ?thesis by force
next
  case (close i)
  then show ?thesis using assms(2) om_del_subset [of i "wo_sessions w"] by (auto simp: Server_sessionClosed_def locked_def list_all_iff)
qed

lemma locked_step:
  assumes "net_step env po w w'" and "locked w" and "\<And>p. po = Some p \<Longrightarrow> \<not> grants p"
  shows "locked w' \<and> wo_main w' = wo_main w \<and> wo_persist w' = wo_persist w"
  using assms
proof cases
  case turn
  then show ?thesis using locked_turn assms(2,3) by blast
next
  case (connect i n peer now ev)
  have "\<not> se_writeAccess (Session_new n peer now ev)" by (simp add: Session_new_def)
  then show ?thesis using assms(2) set_om_put [of i _ "wo_sessions w"]
    by (auto simp: connect(2) Server_newSession_def locked_def list_all_iff)
qed

text \<open>
  Property C33 (parameters_protected): as long as no client asks for write access (sends \<open>remote_host\<close> with an attribute \<open>access\<close>
  that has no value or the value allow, 1, true or on), no sequence of commands of any
  number of clients, interleaved in any way with connections and the output of the sessions, changes a parameter
  of the application or a stored value.
\<close>

theorem parameters_protected:
  assumes "net_run env ps w w'" and "locked w" and "\<forall>p\<in>set ps. \<not> grants p"
  shows "wo_main w' = wo_main w \<and> wo_persist w' = wo_persist w"
proof -
  have "locked w' \<and> wo_main w' = wo_main w \<and> wo_persist w' = wo_persist w"
    using assms
  proof (induction rule: net_run.induct)
    case (command ps w w1 p w2)
    then show ?case using locked_step [OF command(2)] by auto
  next
    case (other ps w w1 w2)
    then show ?case using locked_step [OF other(2)] by auto
  qed simp
  then show ?thesis by blast
qed

section \<open>Changes reach all sessions\<close>

fun async_rounds :: "msr_server \<Rightarrow> nat \<Rightarrow> session \<Rightarrow> nat list \<times> session" where
  "async_rounds sv 0 s = ([], s)"
| "async_rounds sv (Suc k) s =
     (let (cp, s1) = async_round sv s; (cps, s2) = async_rounds sv k s1 in (cp @ cps, s2))"

lemma async_round_parts:
  "fst (async_round sv s) = filter (due sv s) (se_changed s)"
  "se_changed (snd (async_round sv s)) = filter (\<lambda>x. \<not> due sv s x) (se_changed s)"
  "se_aicDelay (snd (async_round sv s)) = se_aicDelay s - 1"
  by (simp_all add: async_round_def emit_def Let_def)

lemma rounds_account: "mset (fst (async_rounds sv k s)) + mset (se_changed (snd (async_rounds sv k s))) = mset (se_changed s)"
proof (induction k arbitrary: s)
  case (Suc k)
  obtain cp s1 where r: "async_round sv s = (cp, s1)" by fastforce
  then have "mset cp + mset (se_changed s1) = mset (se_changed s)"
    using async_round_parts(1,2) [of sv s] multiset_partition [of "mset (se_changed s)" "due sv s"] by simp
  with Suc [of s1] r show ?case by (simp add: case_prod_beta Let_def add.assoc)
qed simp

lemma rounds_complete: "max 1 (se_aicDelay s) \<le> k \<Longrightarrow> se_changed (snd (async_rounds sv k s)) = []"
proof (induction k arbitrary: s)
  case (Suc k)
  obtain cp s1 where r: "async_round sv s = (cp, s1)" by fastforce
  have d: "se_aicDelay s1 = se_aicDelay s - 1" and c: "se_changed s1 = filter (\<lambda>x. \<not> due sv s x) (se_changed s)"
    using async_round_parts(2,3) [of sv s] r by simp_all
  have empty: "se_changed s2 = [] \<Longrightarrow> se_changed (snd (async_rounds sv j s2)) = []" for j s2
    using rounds_account [of sv j s2] by simp
  show ?case
  proof (cases "se_aicDelay s \<le> 1")
    case True
    then have "se_changed s1 = []" using c by (simp add: due_def)
    then show ?thesis using r empty by (simp add: case_prod_beta Let_def)
  next
    case False
    then have "max 1 (se_aicDelay s1) \<le> k" using Suc.prems d by simp
    then show ?thesis using Suc.IH r by (simp add: case_prod_beta Let_def)
  qed
qed simp

lemma parameterChanged_fold:
  assumes "\<not> se_polite s" and "sorted (se_changed s)" and "distinct (se_changed s)"
  shows "set (se_changed (fold Session_parameterChanged idxs s)) = set (se_changed s) \<union> set idxs
    \<and> distinct (se_changed (fold Session_parameterChanged idxs s)) \<and> se_aicDelay (fold Session_parameterChanged idxs s) = se_aicDelay s"
  using assms
proof (induction idxs arbitrary: s)
  case (Cons x idxs)
  let ?s = "Session_parameterChanged x s"
  have s: "\<not> se_polite ?s" "se_changed ?s = List.insort_insert x (se_changed s)" "se_aicDelay ?s = se_aicDelay s"
    using Cons.prems(1) by (simp_all add: Session_parameterChanged_def)
  have "sorted (se_changed ?s)" "distinct (se_changed ?s)" "set (se_changed ?s) = insert x (set (se_changed s))"
    using Cons.prems(2,3) s(2) by (simp_all add: sorted_insort_insert distinct_insort_insert set_insort_insert)
  with Cons.IH [OF s(1)] s(3) show ?case by simp
qed simp

text \<open>
  Property C35 (change_announced_once): after a change of a main parameter was accepted, every session that is not polite
  announces, within as many turns as its delay for input channels lasts, the parameters in the tree that \<open>parameterMap\<close> has for
  the main parameter whose bytes overlap the changed ones, and those that were pending before, each of them once and nothing else.
  The tree is well-formed as \<open>inform\<close> needs it (children inside of their parent and ordered, which holds for the trees of arrays).
  A parameter outside of this tree is not announced, even if its bytes are changed: \<open>compound_change_unannounced\<close>.
\<close>

theorem change_announced_once:
  assumes "Main_setValue_announced env main bs offset w = Some (0, w')"
    and "om_get (wo_sessions w) j = Some s" and "\<not> se_polite s" and "sorted (se_changed s)" and "distinct (se_changed s)"
    and "max 1 (se_aicDelay s) \<le> k"
    and "sv_parameterMap (wo_server w) main = Some n" and "tree_ok (param_tree (wo_server w) n)"
  shows "\<exists>s'. om_get (wo_sessions w') j = Some s'
    \<and> set (fst (async_rounds (wo_server w') k s')) = set (se_changed s) \<union>
        mpar_index ` {x \<in> set (preorder (param_tree (wo_server w) n)). overlaps offset (offset + length bs) x}
    \<and> distinct (fst (async_rounds (wo_server w') k s')) \<and> se_changed (snd (async_rounds (wo_server w') k s')) = []"
proof -
  obtain idxs where i: "Server_parameterChanged (wo_server w) main offset (length bs) = Some idxs"
      "wo_sessions w' = map (\<lambda>(i, s). (i, fold Session_parameterChanged idxs s)) (wo_sessions w)"
    using assms(1) by (auto simp: Main_setValue_announced_def Let_def all_sessions_def split: prod.splits if_splits elim!: bindE)
  let ?s = "fold Session_parameterChanged idxs s" and ?sv = "wo_server w'"
  have g: "om_get (wo_sessions w') j = Some ?s"
    using assms(2) by (simp add: i(2) om_get_def map_of_map [unfolded comp_def])
  have f: "set (se_changed ?s) = set (se_changed s) \<union> set idxs" "distinct (se_changed ?s)" "se_aicDelay ?s = se_aicDelay s"
    using parameterChanged_fold [OF assms(3-5)] by auto
  have e: "se_changed (snd (async_rounds ?sv k ?s)) = []" using rounds_complete [of ?s k ?sv] assms(6) f(3) by simp
  then have m: "mset (fst (async_rounds ?sv k ?s)) = mset (se_changed ?s)" using rounds_account [of ?sv k ?s] by simp
  then have "set (fst (async_rounds ?sv k ?s)) = set (se_changed ?s)" "distinct (fst (async_rounds ?sv k ?s))"
    using f(2) mset_eq_setD mset_eq_imp_distinct_iff by blast+
  moreover have "set idxs = mpar_index ` {x \<in> set (preorder (param_tree (wo_server w) n)). overlaps offset (offset + length bs) x}"
    using i(1) inform_equiv(1) [OF assms(8), of offset "offset + length bs"] assms(7) by (auto simp: Server_parameterChanged_def)
  ultimately show ?thesis using g f(1) e by auto
qed


section \<open>A small installation\<close>

text \<open>One signed parameter of four bytes, one client; the application takes every value.\<close>

definition demo_env :: "(u8 list, nat, unit) menv" where
  "demo_env =
     \<lparr>en_ff = (\<lambda>n T bs. []), en_rd = (\<lambda>s. None), en_conv = (\<lambda>T d. []), en_setValue = (\<lambda>main bs off m. (0, bs)),
      en_value = (\<lambda>m main. (m, (0, 0))), en_poll = (\<lambda>m sig. (0, [], (0, 0))), en_rate = (\<lambda>sig. (0, 1, ''1'')),
      en_eventReduction = (\<lambda>sig. 1), en_blockReduction = (\<lambda>sig n. 1), en_info = (\<lambda>sig. False), en_alloc = (\<lambda>m. 0),
      en_now = (0, 0), en_events = [], en_ring = \<lparr>wr_slots = [EventData_new], wr_wp = 0\<rparr>, en_put = (\<lambda>k v d. d), en_pad = []\<rparr>"

definition demo_world :: "bool \<Rightarrow> (u8 list, unit) world" where
  "demo_world acc =
     \<lparr>wo_server = demo_server\<lparr>sv_parameterMap := [7 \<mapsto> 1],
        sv_dirs := \<lparr>dr_nodes = [1 \<mapsto> \<lparr>dn_parent = 0, dn_name = ''a'',
          dn_kind = ParamN (MsrParameter_new 7 (PrimaryType C_int32) 0 (PrimaryType C_int32) [1] 0 [] [] None), dn_children = []\<rparr>], dr_next = 2\<rparr>,
        sv_parameters := [1]\<rparr>,
      wo_main = [0, 0, 0, 0], wo_persist = \<lparr>pe_map = [], pe_db = None, pe_init = []\<rparr>,
      wo_sessions = [(3, (Session_new 1 ''client'' (0, 0) 0)\<lparr>se_writeAccess := acc\<rparr>)]\<rparr>"

lemma demo_sessions: "wo_sessions (demo_world acc) = [(3, (Session_new 1 ''client'' (0, 0) 0)\<lparr>se_writeAccess := acc\<rparr>)]"
  by (simp add: demo_world_def)

text \<open>The element \<open>wp\<close>, without attributes.\<close>

definition demo_wp :: xparser where
  "demo_wp = (XmlParser_new 100)\<lparr>pbuf := ''wp'' @ [nul], xp_name := 0, attribute := []\<rparr>"

lemma demo_wp_parts: "XmlParser_tag demo_wp = ''wp''" "XmlParser_find n demo_wp = None"
  by (simp_all add: demo_wp_def XmlParser_tag_def cstr_def nul_def XmlParser_find_def)

theorem parameters_protected_witness:
  "\<exists>w'. net_run demo_env [demo_wp] (demo_world False) w' \<and> wo_main w' = [0, 0, 0, 0]
     \<and> map (se_out \<circ> snd) (wo_sessions w') = [leaf_text ''warn'' 0 [] [(''text'', ''No write access'')]]"
proof -
  have cmd: "map_of cmds ''wp'' = Some WriteParameter" by (simp add: cmds_def)
  define W :: "session \<Rightarrow> (u8 list, unit) world" where "W s = (demo_world False)\<lparr>wo_sessions := [(3, s)]\<rparr>" for s
  let ?s = "(Session_new 1 ''client'' (0, 0) 0)\<lparr>se_writeAccess := False\<rparr>" and ?warn = "leaf ''warn'' [(''text'', ''No write access'')]"
  have on: "on_session 3 (\<lambda>s. Some (g s)) (W s) = Some (W (g s))" for g s by (simp add: on_session_def om_get_def W_def)
  have start: "demo_world False = W ?s" by (simp add: W_def demo_world_def)
  have idle: "?s\<lparr>se_commandId := []\<rparr> = ?s" "acknowledge (?warn ?s) = ?warn ?s" by (simp_all add: Session_new_def acknowledge_def leaf_def emit_def)
  have "writeParameter demo_env demo_wp 3 (W ?s) = Some (W (?warn ?s))"
    unfolding writeParameter_def on by (simp add: W_def om_get_def Session_new_def)
  then have p: "processCommand demo_env demo_wp 3 (W ?s) = Some (W (?warn ?s))" by (simp add: processCommand_def demo_wp_parts cmd)
  have g: "XmlParser_getString ''id'' demo_wp = Some (False, [])" by (simp add: XmlParser_getString_def demo_wp_parts)
  define w' where "w' = W (?warn ?s)"
  have w': "handle_element demo_env demo_wp 3 (demo_world False) = Some w'"
    unfolding handle_element_def g start by (simp only: Option.bind.simps prod.case on idle p w'_def)
  have out: "map (se_out \<circ> snd) (wo_sessions w') = [leaf_text ''warn'' 0 [] [(''text'', ''No write access'')]]"
    by (simp add: w'_def W_def leaf_def emit_def Session_new_def)
  have r: "net_run demo_env ([] @ [demo_wp]) (demo_world False) w'"
    by (rule net_run.command [OF net_run.start]) (rule net_step.turn [OF session_step.element [OF w']])
  have l: "locked (demo_world False)" by (simp add: locked_def demo_world_def)
  have "wo_main w' = wo_main (demo_world False)"
    using parameters_protected [OF r l] by (simp add: grants_def demo_wp_parts cmd)
  then show ?thesis using r out by (auto simp: demo_world_def)
qed

theorem change_announced_once_witness:
  "\<exists>w' s'. Main_setValue_announced demo_env 7 [1, 2, 3, 4] 0 (demo_world True) = Some (0, w') \<and> om_get (wo_sessions w') 3 = Some s'
     \<and> set (fst (async_rounds (wo_server w') 1 s')) = {0} \<and> se_changed (snd (async_rounds (wo_server w') 1 s')) = []"
proof -
  have t: "param_tree (wo_server (demo_world True)) 1 = MPar 0 0 4 []"
    by (subst param_tree.simps) (simp add: demo_world_def param_at_def MsrParameter_new_def Variable_new_def msr_var.defs nelem_def
        demo_server_def Server_new_def new_node_def Server_createParameters_def)
  have c: "Server_parameterChanged (wo_server (demo_world True)) 7 0 (length [1, 2, 3, 4 :: u8]) = Some [0]"
    using t by (simp add: Server_parameterChanged_def) (simp add: demo_world_def)
  then obtain w' where w': "Main_setValue_announced demo_env 7 [1, 2, 3, 4] 0 (demo_world True) = Some (0, w')"
    by (auto simp: Main_setValue_announced_def demo_env_def Let_def)
  let ?s = "(Session_new 1 ''client'' (0, 0) 0)\<lparr>se_writeAccess := True\<rparr>"
  have s: "om_get (wo_sessions (demo_world True)) 3 = Some ?s" by (simp add: demo_world_def om_get_def)
  have m: "sv_parameterMap (wo_server (demo_world True)) 7 = Some 1" by (simp add: demo_world_def)
  from change_announced_once [OF w' s _ _ _ _ m, of 1] t w' show ?thesis
    by (auto simp: Session_new_def overlaps_def image_iff)
qed

end
