(* ===== verification/Listener.thy ===== *)
theory Listener
  imports Session_Access
begin

text \<open>
  The thread of the MSR server (\<open>Server::run\<close> and \<open>final\<close> of \<open>msrproto/Server.cpp\<close>): the search for a port, the acceptance of
  connections up to \<open>maxconnections\<close> while the sessions run and close on their own threads, and the end of the server.
\<close>

section \<open>The port\<close>

definition EADDRINUSE :: int where "EADDRINUSE = 98"

text \<open>\<open>port\<close> of the configuration is an \<open>int\<close>, that of the socket (\<open>tpport_t\<close>) has 16 bits.\<close>

definition first_port :: "int \<Rightarrow> 16 word" where
  "first_port cfg = (if cfg \<noteq> 0 then of_int cfg else 2345)"

text \<open>
  \<open>bnd k p\<close> is the outcome of the construction of the socket on port \<open>p\<close> in round \<open>k\<close>: 0, or the error number of the exception. The result of
  the loop is the port, \<open>None\<close> for the \<open>return\<close> after an error message.
\<close>

partial_function (option) open_loop :: "(nat \<Rightarrow> 16 word \<Rightarrow> int) \<Rightarrow> int \<Rightarrow> nat \<Rightarrow> 16 word \<Rightarrow> 16 word option option" where
  "open_loop bnd cfg k port =
     (let err = bnd k port
      in if err = 0 then Some (Some port)
         else if cfg \<noteq> 0 \<or> err \<noteq> EADDRINUSE then Some None
         else open_loop bnd cfg (Suc k) (port + 1))"

definition Server_open :: "(nat \<Rightarrow> 16 word \<Rightarrow> int) \<Rightarrow> int \<Rightarrow> 16 word option option" where
  "Server_open bnd cfg = open_loop bnd cfg 0 (first_port cfg)"

definition busy :: "(nat \<Rightarrow> 16 word \<Rightarrow> int) \<Rightarrow> nat \<Rightarrow> 16 word \<Rightarrow> nat \<Rightarrow> bool" where
  "busy bnd k port j \<longleftrightarrow> bnd (k + j) (port + of_nat j) = EADDRINUSE"

lemma busy_Suc: "busy bnd (Suc k) (port + 1) j = busy bnd k port (Suc j)"
  by (simp add: busy_def ac_simps)

lemma open_loop_first:
  "\<forall>i<j. busy bnd k port i \<Longrightarrow> \<not> busy bnd k port j \<Longrightarrow>
   open_loop bnd 0 k port = Some (if bnd (k + j) (port + of_nat j) = 0 then Some (port + of_nat j) else None)"
proof (induction j arbitrary: k port)
  case 0
  then show ?case by (subst open_loop.simps) (simp add: busy_def Let_def)
next
  case (Suc j)
  have "busy bnd k port 0" using Suc.prems(1) by simp
  then have "open_loop bnd 0 k port = open_loop bnd 0 (Suc k) (port + 1)"
    by (subst open_loop.simps) (simp add: busy_def EADDRINUSE_def Let_def)
  moreover have "\<forall>i<j. busy bnd (Suc k) (port + 1) i" using Suc.prems(1) by (auto simp: busy_Suc)
  moreover have "\<not> busy bnd (Suc k) (port + 1) j" using Suc.prems(2) by (simp add: busy_Suc)
  ultimately show ?case using Suc.IH by (simp add: add_ac)
qed

lemma open_loop_returns:
  assumes "open_loop bnd cfg k port = Some r" and "cfg = 0"
  shows "\<exists>j. \<not> busy bnd k port j"
proof -
  have "cfg = 0 \<longrightarrow> (\<exists>j. \<not> busy bnd k port j)"
  proof (rule open_loop.raw_induct [OF _ assms(1)])
    fix f bd cfg k port r
    assume IH: "\<And>bd cfg k port r. f bd cfg k port = Some r \<Longrightarrow> cfg = 0 \<longrightarrow> (\<exists>j. \<not> busy bd k port j)"
      and b: "(let err = bd k port in if err = 0 then Some (Some port) else if cfg \<noteq> 0 \<or> err \<noteq> EADDRINUSE then Some None
        else f bd cfg (Suc k) (port + 1)) = Some r"
    show "cfg = 0 \<longrightarrow> (\<exists>j. \<not> busy bd k port j)"
    proof (cases "busy bd k port 0 \<and> cfg = 0")
      case True
      then have "f bd cfg (Suc k) (port + 1) = Some r" using b by (simp add: busy_def EADDRINUSE_def Let_def)
      then show ?thesis using IH busy_Suc by blast
    qed auto
  qed
  then show ?thesis using assms(2) by simp
qed

lemma Server_open_search:
  "Server_open bnd 0 = Some r \<longleftrightarrow>
     (\<exists>j. (\<forall>i<j. busy bnd 0 2345 i) \<and> \<not> busy bnd 0 2345 j
        \<and> r = (if bnd j (2345 + of_nat j) = 0 then Some (2345 + of_nat j) else None))"
proof
  assume a: "Server_open bnd 0 = Some r"
  then have ex: "\<exists>j. \<not> busy bnd 0 2345 j" using open_loop_returns by (simp add: Server_open_def first_port_def)
  define j where "j = (LEAST j. \<not> busy bnd 0 2345 j)"
  have j: "\<not> busy bnd 0 2345 j" "\<forall>i<j. busy bnd 0 2345 i"
    unfolding j_def using LeastI_ex [OF ex] not_less_Least by blast+
  from open_loop_first [OF j(2,1)] j a
  show "\<exists>j. (\<forall>i<j. busy bnd 0 2345 i) \<and> \<not> busy bnd 0 2345 j
        \<and> r = (if bnd j (2345 + of_nat j) = 0 then Some (2345 + of_nat j) else None)"
    by (auto simp: Server_open_def first_port_def)
next
  assume "\<exists>j. (\<forall>i<j. busy bnd 0 2345 i) \<and> \<not> busy bnd 0 2345 j
        \<and> r = (if bnd j (2345 + of_nat j) = 0 then Some (2345 + of_nat j) else None)"
  then show "Server_open bnd 0 = Some r"
    using open_loop_first [of _ bnd 0 2345] by (auto simp: Server_open_def first_port_def)
qed

text \<open>With a port in the configuration there is one attempt, on the port modulo \<open>2 ^ 16\<close>.\<close>

lemma configured_port:
  "cfg \<noteq> 0 \<Longrightarrow> Server_open bnd cfg = Some (if bnd 0 (of_int cfg) = 0 then Some (of_int cfg) else None)"
  by (simp add: Server_open_def first_port_def open_loop.simps Let_def)

lemma large_port_truncated: "Server_open (\<lambda>k p. if p = 2345 then 0 else 13) 67881 = Some (Some 2345)"
  by (simp add: configured_port)

section \<open>Connections\<close>

text \<open>
  Where the thread stands: it waits for a connection, it is between the test of the number of sessions, which is done without
  the lock, and the construction of the session, or it has ended.
\<close>

datatype accept_pc = Waiting | Accepting

text \<open>
  The steps of the server thread and of the sessions: the thread rejects a connection, passes the test, opens a session (under the lock) or catches
  the exception of the socket; a session takes a turn or closes.
\<close>

inductive accept_step ::
  "('p, 'd, 'db) menv \<Rightarrow> nat \<Rightarrow> xparser option \<Rightarrow> accept_pc \<times> ('p, 'db) world \<Rightarrow> accept_pc \<times> ('p, 'db) world \<Rightarrow> bool"
  for env maxConnections where
  reject: "length (wo_sessions w) = maxConnections \<Longrightarrow> accept_step env maxConnections None (Waiting, w) (Waiting, w)"
| pass: "length (wo_sessions w) \<noteq> maxConnections \<Longrightarrow> accept_step env maxConnections None (Waiting, w) (Accepting, w)"
| opened: "om_get (wo_sessions w) i = None
    \<Longrightarrow> accept_step env maxConnections None (Accepting, w) (Waiting, Server_newSession i n peer now ev w)"
| failed: "accept_step env maxConnections None (Accepting, w) (Waiting, w)"
| session: "session_step env po w w' \<Longrightarrow> accept_step env maxConnections po (pc, w) (pc, w')"

inductive accept_run ::
  "('p, 'd, 'db) menv \<Rightarrow> nat \<Rightarrow> xparser list \<Rightarrow> ('p, 'db) world \<Rightarrow> accept_pc \<times> ('p, 'db) world \<Rightarrow> bool"
  for env maxConnections where
  start: "accept_run env maxConnections [] w (Waiting, w)"
| command: "accept_run env maxConnections ps w s \<Longrightarrow> accept_step env maxConnections (Some p) s s'
    \<Longrightarrow> accept_run env maxConnections (ps @ [p]) w s'"
| other: "accept_run env maxConnections ps w s \<Longrightarrow> accept_step env maxConnections None s s' \<Longrightarrow> accept_run env maxConnections ps w s'"

section \<open>Sessions do not open sessions\<close>

abbreviation session_ids :: "('p, 'db) world \<Rightarrow> nat list" where
  "session_ids w \<equiv> map fst (wo_sessions w)"

lemma om_put_ids: "om_ok m \<Longrightarrow> om_get m k \<noteq> None \<Longrightarrow> map fst (om_put k v m) = map fst m"
proof (induction k v m rule: om_put.induct)
  case (2 k v j w m)
  then show ?case by (auto simp: om_ok_def om_get_def split: if_splits dest!: map_of_SomeD)
qed simp

lemma on_session_ids:
  assumes "on_session i f w = Some w'" and "om_ok (wo_sessions w)"
  shows "session_ids w' = session_ids w"
  using assms(1) by (rule on_session_cases) (auto simp: om_put_ids assms(2))

lemma all_sessions_ids: "session_ids (all_sessions f w) = session_ids w"
  by (simp add: all_sessions_def comp_def case_prod_beta)

lemma set_value_ids: "Main_setValue_announced env main bs off w = Some (rv, w') \<Longrightarrow> session_ids w' = session_ids w"
  by (auto simp: Main_setValue_announced_def Let_def bind_eq_Some_conv all_sessions_ids split: prod.splits if_splits)

lemma set_through_ids: "snd (set_through env main bs off (Some w)) = Some w' \<Longrightarrow> session_ids w' = session_ids w"
  by (auto simp: set_through_def set_value_ids split: option.splits)

lemma write_value_ids: "write_value env prm p si w = Some (rv, w') \<Longrightarrow> session_ids w' = session_ids w"
  unfolding write_value_def Let_def
  by (auto simp: Parameter_setHexValue_def Parameter_setDoubleValue_def set_through_ids
      split: option.split_asm aval.split_asm sum.split_asm prod.split_asm if_split_asm)

lemma ids_ok: "session_ids w' = session_ids w \<Longrightarrow> om_ok (wo_sessions w) \<Longrightarrow> om_ok (wo_sessions w')"
  by (rule om_ok_keys)

lemma writeParameter_ids:
  assumes "writeParameter env p i w = Some w'" and "om_ok (wo_sessions w)"
  shows "session_ids w' = session_ids w"
proof -
  have aic: "session_ids (Server_setAic main w) = session_ids w" for main
    by (simp add: Server_setAic_def all_sessions_ids)
  have fin: "on_session i f w2 = Some w' \<Longrightarrow> session_ids w2 = session_ids w \<Longrightarrow> session_ids w' = session_ids w" for f w2
    using on_session_ids [of i f w2 w'] ids_ok [OF _ assms(2), of w2] by simp
  show ?thesis
    using assms(1) unfolding writeParameter_def Let_def
    by (elim bindE) (auto simp: aic split: if_split_asm target.split_asm elim!: bindE dest!: write_value_ids, (erule fin, simp)+)
qed

lemma run_command_ids:
  assumes "run_command env c p i w = Some w'" and "om_ok (wo_sessions w)"
  shows "session_ids w' = session_ids w"
  using assms writeParameter_ids on_session_ids
  by (cases c) (auto simp: broadcast_command_def Server_broadcast_def all_sessions_ids bind_eq_Some_conv)

lemma handle_element_ids:
  assumes "handle_element env p i w = Some w'" and ok: "om_ok (wo_sessions w)"
  shows "session_ids w' = session_ids w"
proof -
  obtain ident w1 w2 where w: "on_session i (\<lambda>s. Some (s\<lparr>se_commandId := ident\<rparr>)) w = Some w1" "processCommand env p i w1 = Some w2"
      "on_session i (\<lambda>s. Some (acknowledge s)) w2 = Some w'"
    using assms(1) by (auto simp: handle_element_def split: prod.splits elim!: bindE)
  note a = on_session_ids [OF w(1) ok]
  have b: "session_ids w2 = session_ids w1"
    using w(2) run_command_ids on_session_ids ids_ok [OF a ok] by (auto simp: processCommand_def split: option.splits)
  then have "om_ok (wo_sessions w2)" using a ids_ok ok by metis
  from on_session_ids [OF w(3) this] a b show ?thesis by simp
qed

lemma session_step_ids:
  assumes "session_step env po w w'" and "om_ok (wo_sessions w)"
  shows "om_ok (wo_sessions w') \<and> set (session_ids w') \<subseteq> set (session_ids w) \<and> length (wo_sessions w') \<le> length (wo_sessions w)"
proof -
  have same: ?thesis if "session_ids w' = session_ids w"
    using that ids_ok [OF that assms(2)] map_eq_imp_length_eq [OF that] by simp
  from assms(1) show ?thesis
  proof cases
    case (element p i)
    then show ?thesis using handle_element_ids assms(2) same by blast
  next
    case (close i)
    then show ?thesis using assms(2) om_del_subset [of i "wo_sessions w"]
      by (auto simp: Server_sessionClosed_def) (simp add: om_del_def)
  qed (use on_session_ids assms(2) same in blast)+
qed

section \<open>The limit holds\<close>

definition within_limit :: "nat \<Rightarrow> accept_pc \<times> ('p, 'db) world \<Rightarrow> bool" where
  "within_limit n s \<longleftrightarrow> om_ok (wo_sessions (snd s)) \<and> length (wo_sessions (snd s)) \<le> n
     \<and> (fst s = Accepting \<longrightarrow> length (wo_sessions (snd s)) < n)"

lemma om_put_length: "length (om_put k v m) \<le> Suc (length m)"
  by (induction k v m rule: om_put.induct) auto

lemma within_limit_step:
  assumes "accept_step env n po s s'" and "within_limit n s"
  shows "within_limit n s'"
  using assms
proof cases
  case (opened w i nt peer now ev)
  then show ?thesis
    using assms(2) om_put_length [of i "Session_new nt peer now ev" "wo_sessions w"] by (auto simp: within_limit_def Server_newSession_def)
next
  case (session w w' pc)
  then show ?thesis using assms(2) session_step_ids [OF session(3)] by (auto simp: within_limit_def)
qed (auto simp: within_limit_def)

lemma within_limit_run: "accept_run env n ps w s \<Longrightarrow> within_limit n (Waiting, w) \<Longrightarrow> within_limit n s"
  by (induction rule: accept_run.induct) (auto dest: within_limit_step)

text \<open>
  Property C34 (connections_bounded): in every interleaving of the server thread with the turns and ends of the
  sessions there are never more sessions than \<open>maxconnections\<close>, every session is registered once, and the room that the
  test without the lock has found is still there when the session is opened.
\<close>

theorem connections_bounded:
  assumes "accept_run env maxConnections ps w (pc, w')" and "wo_sessions w = []"
  shows "length (wo_sessions w') \<le> maxConnections \<and> distinct (session_ids w')
    \<and> (pc = Accepting \<longrightarrow> length (wo_sessions w') < maxConnections)"
proof -
  have "within_limit maxConnections (Waiting, w)" using assms(2) by (simp add: within_limit_def om_ok_def)
  from within_limit_run [OF assms(1) this] show ?thesis by (auto simp: within_limit_def dest: om_ok_distinct)
qed

text \<open>Two clients, a limit of one: the second is accepted only after the first has left.\<close>

definition empty_world :: "(u8 list, unit) world" where
  "empty_world = (demo_world False)\<lparr>wo_sessions := []\<rparr>"

definition first_client :: "(u8 list, unit) world" where
  "first_client = Server_newSession 3 1 ''first'' (0, 0) 0 empty_world"

lemma first_client_sessions: "wo_sessions first_client = [(3, Session_new 1 ''first'' (0, 0) 0)]"
  by (simp add: first_client_def empty_world_def Server_newSession_def)

lemma first_client_run: "accept_run demo_env 1 [] empty_world (Waiting, first_client)"
proof -
  have "accept_run demo_env 1 [] empty_world (Accepting, empty_world)"
    by (rule accept_run.other [OF accept_run.start]) (rule accept_step.pass, simp add: empty_world_def)
  then show ?thesis
    by (rule accept_run.other) (simp only: first_client_def, rule accept_step.opened, simp add: empty_world_def)
qed

theorem connections_bounded_witness:
  "\<exists>pc w'. accept_run demo_env 1 [] empty_world (pc, w') \<and> pc = Accepting \<and> length (wo_sessions w') < 1
    \<and> (\<exists>w1. accept_run demo_env 1 [] empty_world (Waiting, w1) \<and> length (wo_sessions w1) = 1)"
proof -
  let ?w = "Server_sessionClosed 3 first_client"
  have "accept_run demo_env 1 [] empty_world (Waiting, ?w)"
    by (rule accept_run.other [OF first_client_run]) (rule accept_step.session, rule session_step.close)
  then have r: "accept_run demo_env 1 [] empty_world (Accepting, ?w)"
    by (rule accept_run.other) (rule accept_step.pass, simp add: Server_sessionClosed_def first_client_sessions om_del_def)
  have "wo_sessions empty_world = []" by (simp add: empty_world_def)
  with connections_bounded [OF r] have "length (wo_sessions ?w) < 1" by blast
  moreover have "length (wo_sessions first_client) = 1" by (simp add: first_client_sessions)
  ultimately show ?thesis using r first_client_run by blast
qed

text \<open>The limit and the protection of the parameters hold together: what the server thread and the sessions do is a run of the sessions.\<close>

lemma accept_step_net:
  assumes "accept_step env n po s s'"
  shows "(po = None \<and> snd s' = snd s) \<or> net_step env po (snd s) (snd s')"
  using assms by cases (auto intro: net_step.intros)

lemma accept_run_net: "accept_run env n ps w s \<Longrightarrow> net_run env ps w (snd s)"
proof (induction rule: accept_run.induct)
  case (command ps w s p s')
  then show ?case using accept_step_net [OF command(2)] net_run.command by blast
next
  case (other ps w s s')
  then show ?case using accept_step_net [OF other(2)] net_run.other by metis
qed (simp add: net_run.start)

section \<open>The end of the server\<close>

text \<open>
  \<open>final\<close>: with \<open>_active\<close> false every session leaves its loop at the next turn and its destructor calls \<open>sessionClosed\<close>; the thread sleeps until
  the set is empty. \<open>ids\<close> are the sessions that have closed so far.
\<close>

definition Server_final_waits :: "nat list \<Rightarrow> ('p, 'db) world \<Rightarrow> bool" where
  "Server_final_waits ids w = (wo_sessions (fold Server_sessionClosed ids w) \<noteq> [])"

lemma closed_sessions: "wo_sessions (fold Server_sessionClosed ids w) = filter (\<lambda>e. fst e \<notin> set ids) (wo_sessions w)"
  by (induction ids arbitrary: w) (auto simp: Server_sessionClosed_def om_del_def filter_filter intro: filter_cong)

text \<open>The wait ends exactly when all sessions have closed, in whatever order.\<close>

lemma final_waits_iff: "Server_final_waits ids w \<longleftrightarrow> \<not> set (session_ids w) \<subseteq> set ids"
  by (auto simp: Server_final_waits_def closed_sessions filter_empty_conv)

end
