(* ===== verification/Stream_Buffer.thy ===== *)
theory Stream_Buffer
  imports Pds_Prelude
begin

text \<open>
  \<open>src/Session.cpp\<close>: the stream buffer between a session and its socket, with the states of the TLS handshake. The
  results of the calls that write to the socket, or to the TLS layer above it, are a list; they are at most the
  number of bytes offered, zero when the peer has closed and negative for an error. A result \<open>None\<close> means that the code
  does not return with the results at hand.
\<close>

section \<open>State\<close>

datatype tls = NoTLS | InitTLS | RunTLS

text \<open>The bytes between \<open>pbase\<close> and \<open>pptr\<close>, the size up to \<open>epptr\<close>, and the bytes handed on so far.\<close>

record sbuf =
  sb_size :: nat
  sb_buf :: "u8 list"
  sb_eof :: bool
  sb_tls :: tls
  sb_sent :: "u8 list"

definition sbuf_new :: "nat \<Rightarrow> sbuf" where
  "sbuf_new bufsize = \<lparr>sb_size = bufsize, sb_buf = [], sb_eof = False, sb_tls = NoTLS, sb_sent = []\<rparr>"

text \<open>\<open>startTLS\<close>, with the result of \<open>gnutls_init\<close>.\<close>

definition sbuf_startTLS :: "int \<Rightarrow> sbuf \<Rightarrow> int \<times> sbuf" where
  "sbuf_startTLS result s = (if result \<noteq> 0 then (result, s) else (0, s\<lparr>sb_tls := InitTLS\<rparr>))"

definition EAGAIN :: int where "EAGAIN = 11"
definition EINTR :: int where "EINTR = 4"
definition ENOSPC :: int where "ENOSPC = 28"

section \<open>Output\<close>

text \<open>The loop of \<open>flush\<close>: the last result, what is left of the buffer, the bytes handed on.\<close>

fun flush_loop :: "bool \<Rightarrow> u8 list \<Rightarrow> u8 list \<Rightarrow> int list \<Rightarrow> (int \<times> u8 list \<times> u8 list \<times> int list) option" where
  "flush_loop part buf sent [] = None"
| "flush_loop part buf sent (r # rs) =
     (if r \<le> 0 then Some (r, buf, sent, rs)
      else let buf' = drop (nat r) buf; sent' = sent @ take (nat r) buf
           in if buf' \<noteq> [] \<and> \<not> part then flush_loop part buf' sent' rs else Some (r, buf', sent', rs))"

text \<open>\<open>fatal\<close> is \<open>gnutls_error_is_fatal\<close>.\<close>

definition eof_of :: "(int \<Rightarrow> bool) \<Rightarrow> tls \<Rightarrow> int \<Rightarrow> bool" where
  "eof_of fatal st result =
     (if st = NoTLS then result \<le> 0 \<and> result \<noteq> - EAGAIN \<and> result \<noteq> - EINTR else fatal result \<or> result = 0)"

definition flush_end :: "(int \<Rightarrow> bool) \<Rightarrow> int \<Rightarrow> sbuf \<Rightarrow> int \<times> sbuf" where
  "flush_end fatal result s =
     (let e = (sb_eof s \<or> eof_of fatal (sb_tls s) result) in (if e then - 1 else 0, s\<lparr>sb_eof := e\<rparr>))"

definition sb_flush :: "(int \<Rightarrow> bool) \<Rightarrow> bool \<Rightarrow> sbuf \<Rightarrow> int list \<Rightarrow> (int \<times> sbuf \<times> int list) option" where
  "sb_flush fatal part s rs =
     (if sb_eof s then Some (- 1, s, rs)
      else if sb_buf s = [] then Some (0, s, rs)
      else if sb_tls s = InitTLS
      then if \<not> part then Some (0, s, rs)
           else let (rv, s1) = flush_end fatal (- ENOSPC) s in Some (rv, s1, rs)
      else case flush_loop part (sb_buf s) (sb_sent s) rs of
             None \<Rightarrow> None
           | Some (result, buf, sent, rs1) \<Rightarrow>
               let (rv, s1) = flush_end fatal result (s\<lparr>sb_buf := buf, sb_sent := sent\<rparr>) in Some (rv, s1, rs1))"

definition sb_sync :: "(int \<Rightarrow> bool) \<Rightarrow> sbuf \<Rightarrow> int list \<Rightarrow> (int \<times> sbuf \<times> int list) option" where
  "sb_sync fatal s rs = sb_flush fatal False s rs"

text \<open>\<open>xsputn\<close>: the number of bytes taken so far is \<open>done\<close>.\<close>

definition sb_fill :: "u8 list \<Rightarrow> sbuf \<Rightarrow> nat \<times> sbuf" where
  "sb_fill data s =
     (let n = min (sb_size s - length (sb_buf s)) (length data) in (n, s\<lparr>sb_buf := sb_buf s @ take n data\<rparr>))"

partial_function (option) sb_xsputn ::
  "(int \<Rightarrow> bool) \<Rightarrow> u8 list \<Rightarrow> nat \<Rightarrow> sbuf \<Rightarrow> int list \<Rightarrow> (nat \<times> sbuf \<times> int list) option" where
  "sb_xsputn fatal data taken s rs =
     (let (n, s1) = sb_fill data s
      in Option.bind (if length (sb_buf s1) = sb_size s1 then sb_flush fatal True s1 rs else Some (0, s1, rs))
           (\<lambda>(rv, s2, rs2).
              if rv = 0 \<and> drop n data \<noteq> [] then sb_xsputn fatal (drop n data) (taken + n) s2 rs2
              else Some (taken + n, s2, rs2)))"

definition sb_overflow :: "(int \<Rightarrow> bool) \<Rightarrow> u8 \<Rightarrow> sbuf \<Rightarrow> int list \<Rightarrow> (int \<times> sbuf \<times> int list) option" where
  "sb_overflow fatal c s rs =
     map_option (\<lambda>(n, s1, rs1). (if n \<noteq> 0 then sint c else - 1, s1, rs1)) (sb_xsputn fatal [c] 0 s rs)"

section \<open>Input\<close>

text \<open>
  \<open>xsgetn\<close>: \<open>rd\<close> is the result of \<open>read\<close> or \<open>gnutls_record_recv\<close> with the bytes, \<open>shake\<close> the result of the handshake and \<open>pending\<close> the
  number of bytes the TLS layer holds. The result is the number of bytes, negative for an error that is
  not the end.
\<close>

definition get_end :: "(int \<Rightarrow> bool) \<Rightarrow> int \<times> u8 list \<Rightarrow> sbuf \<Rightarrow> (int \<times> u8 list) \<times> sbuf" where
  "get_end fatal res s =
     (if fst res > 0 then (res, s)
      else let e = (sb_eof s \<or> eof_of fatal (sb_tls s) (fst res))
           in (if e then (0, []) else (fst res, []), s\<lparr>sb_eof := e\<rparr>))"

definition sb_xsgetn ::
  "(int \<Rightarrow> bool) \<Rightarrow> int \<Rightarrow> nat \<Rightarrow> (nat \<Rightarrow> int \<times> u8 list) \<Rightarrow> nat \<Rightarrow> sbuf \<Rightarrow> int list \<Rightarrow> ((int \<times> u8 list) \<times> sbuf \<times> int list) option" where
  "sb_xsgetn fatal shake pending rd n s rs =
     (case sb_tls s of
        InitTLS \<Rightarrow>
          if shake \<noteq> 0 then let (res, s1) = get_end fatal (shake, []) s in Some (res, s1, rs)
          else (case sb_sync fatal (s\<lparr>sb_tls := RunTLS\<rparr>) rs of
                  None \<Rightarrow> None
                | Some (_, s1, rs1) \<Rightarrow>
                    if pending = 0 then Some ((0, []), s1, rs1)
                    else let (res, s2) = get_end fatal (rd pending) s1 in Some (res, s2, rs1))
      | _ \<Rightarrow> let (res, s1) = get_end fatal (rd n) s in Some (res, s1, rs))"

text \<open>
  \<open>read\<close> and \<open>write\<close> of \<open>msrproto/Session.cpp\<close> on the socket: \<open>pending\<close> tells whether there is data, \<open>errInput\<close> whether the socket
  reports an error of the input; \<open>errno\<close> is the error number of the system.
\<close>

definition msr_read :: "bool \<Rightarrow> bool \<Rightarrow> int \<Rightarrow> (nat \<Rightarrow> int \<times> u8 list) \<Rightarrow> nat \<Rightarrow> int \<times> u8 list" where
  "msr_read pending errInput errno readData count =
     (if \<not> pending then (- EAGAIN, [])
      else if fst (readData count) < 0 then (if errInput then - errno else - EAGAIN, []) else readData count)"

definition msr_write :: "int \<Rightarrow> (u8 list \<Rightarrow> int) \<Rightarrow> u8 list \<Rightarrow> int" where
  "msr_write errno writeData buf = (if writeData buf < 0 then - errno else writeData buf)"

section \<open>Nothing is lost\<close>

lemma flush_loop_keeps:
  "flush_loop part buf sent rs = Some (q, buf', sent', rs') \<Longrightarrow> sent' @ buf' = sent @ buf \<and> length buf' \<le> length buf"
proof (induction part buf sent rs rule: flush_loop.induct)
  case (2 part buf sent r rs)
  show ?case
  proof (cases "0 < r \<and> drop (nat r) buf \<noteq> [] \<and> \<not> part")
    case True
    then have "flush_loop part (drop (nat r) buf) (sent @ take (nat r) buf) rs = Some (q, buf', sent', rs')"
      using 2(2) by (auto simp: Let_def)
    with 2(1) True have "sent' @ buf' = (sent @ take (nat r) buf) @ drop (nat r) buf \<and> length buf' \<le> length (drop (nat r) buf)"
      by (simp add: Let_def)
    then show ?thesis by auto
  qed (use 2(2) in \<open>auto simp: Let_def split: if_splits\<close>)
qed simp

lemma flush_loop_partial: "flush_loop True buf sent rs = Some (q, buf', sent', rs') \<Longrightarrow> q \<le> 0 \<Longrightarrow> buf' = buf"
  by (cases rs) (auto simp: Let_def split: if_splits)

text \<open>What every flush keeps; a partial flush that ends the connection hands nothing on.\<close>

definition flushed :: "bool \<Rightarrow> sbuf \<Rightarrow> int \<Rightarrow> sbuf \<Rightarrow> bool" where
  "flushed part s rv s' \<longleftrightarrow>
     sb_sent s' @ sb_buf s' = sb_sent s @ sb_buf s \<and> length (sb_buf s') \<le> length (sb_buf s) \<and> sb_size s' = sb_size s
     \<and> (sb_eof s \<longrightarrow> sb_eof s' \<and> sb_buf s' = sb_buf s) \<and> (rv = 0 \<or> sb_eof s' \<and> (part \<longrightarrow> sb_buf s' = sb_buf s))"

text \<open>Documented for \<open>gnutls_error_is_fatal\<close>: a positive value is no fatal error.\<close>

definition benign :: "(int \<Rightarrow> bool) \<Rightarrow> bool" where
  "benign fatal \<longleftrightarrow> (\<forall>r > 0. \<not> fatal r)"

lemma eof_of_pos: "\<lbrakk>benign fatal; eof_of fatal st r\<rbrakk> \<Longrightarrow> r \<le> 0"
  by (rule ccontr) (auto simp: eof_of_def benign_def split: if_splits)

lemma flush_keeps:
  assumes pos: "benign fatal" and "sb_flush fatal part s rs = Some (rv, s', rs')"
  shows "flushed part s rv s'"
proof (cases "sb_eof s \<or> sb_buf s = [] \<or> sb_tls s = InitTLS")
  case True
  then show ?thesis using assms(2) by (auto simp: flushed_def sb_flush_def flush_end_def Let_def split: if_splits)
next
  case False
  then obtain r buf sent rs1 where f: "flush_loop part (sb_buf s) (sb_sent s) rs = Some (r, buf, sent, rs1)"
    using assms(2) by (auto simp: sb_flush_def split: option.split_asm)
  have e: "buf = sb_buf s" if "part" "eof_of fatal (sb_tls s) r"
    using flush_loop_partial [of "sb_buf s" "sb_sent s" rs r buf sent rs1] f that eof_of_pos [OF pos that(2)] by simp
  show ?thesis using flush_loop_keeps [OF f] e False assms(2) f
    by (auto simp: flushed_def sb_flush_def flush_end_def Let_def split: if_splits)
qed

lemma fill_keeps:
  assumes "sb_fill data s = (n, s1)" and "length (sb_buf s) \<le> sb_size s"
  shows "n \<le> length data" and "sb_sent s1 @ sb_buf s1 = (sb_sent s @ sb_buf s) @ take n data" and "length (sb_buf s1) \<le> sb_size s1" and "sb_size s1 = sb_size s"
    and "sb_eof s1 = sb_eof s" and "drop n data \<noteq> [] \<Longrightarrow> length (sb_buf s1) = sb_size s1" and "sb_buf s1 = sb_buf s @ take n data"
    and "sb_tls s1 = sb_tls s" and "length (sb_buf s) < sb_size s \<Longrightarrow> data \<noteq> [] \<Longrightarrow> 0 < n"
  using assms by (auto simp: sb_fill_def Let_def)

text \<open>What \<open>xsputn\<close> keeps: the bytes it took follow those handed on and waiting before, and all are taken unless the connection has ended.\<close>

definition kept :: "u8 list \<Rightarrow> nat \<Rightarrow> sbuf \<Rightarrow> nat \<Rightarrow> sbuf \<Rightarrow> bool" where
  "kept data taken s n s' \<longleftrightarrow>
     taken \<le> n \<and> n - taken \<le> length data \<and> sb_sent s' @ sb_buf s' = (sb_sent s @ sb_buf s) @ take (n - taken) data
     \<and> length (sb_buf s') \<le> sb_size s' \<and> sb_size s' = sb_size s \<and> (sb_eof s \<longrightarrow> sb_eof s' \<and> sb_sent s' = sb_sent s)
     \<and> (n = taken + length data \<or> sb_eof s' \<and> length (sb_buf s') = sb_size s')"

definition took :: "u8 list \<Rightarrow> nat \<Rightarrow> sbuf \<Rightarrow> nat \<Rightarrow> sbuf \<Rightarrow> bool" where
  "took data taken s n s' \<longleftrightarrow> (length (sb_buf s) \<le> sb_size s \<longrightarrow> kept data taken s n s')"

lemma tookI: "(length (sb_buf s) \<le> sb_size s \<Longrightarrow> kept data taken s n s') \<Longrightarrow> took data taken s n s'"
  unfolding took_def by blast

lemma xsputn_step_keeps:
  assumes pos: "benign fatal"
    and IH: "\<And>data taken s rs n s' rs'. f data taken s rs = Some (n, s', rs') \<Longrightarrow> took data taken s n s'"
    and b: "(let (n, s1) = sb_fill data s
      in Option.bind (if length (sb_buf s1) = sb_size s1 then sb_flush fatal True s1 rs else Some (0, s1, rs))
           (\<lambda>(rv, s2, rs2).
              if rv = 0 \<and> drop n data \<noteq> [] then f (drop n data) (taken + n) s2 rs2
              else Some (taken + n, s2, rs2))) = Some (m, s', rs')"
  shows "took data taken s m s'"
proof (rule tookI)
  assume fits: "length (sb_buf s) \<le> sb_size s"
  obtain n s1 where fl: "sb_fill data s = (n, s1)" by (cases "sb_fill data s")
  note fk = fill_keeps [OF fl fits]
  obtain rv s2 rs2 where st: "(if length (sb_buf s1) = sb_size s1 then sb_flush fatal True s1 rs else Some (0, s1, rs)) = Some (rv, s2, rs2)"
    and rest: "(if rv = 0 \<and> drop n data \<noteq> [] then f (drop n data) (taken + n) s2 rs2 else Some (taken + n, s2, rs2)) = Some (m, s', rs')"
    using b fl by (auto simp: Option.bind_eq_Some_conv simp del: drop_eq_Nil)
  have "flushed True s1 rv s2 \<and> (rv = 0 \<or> length (sb_buf s1) = sb_size s1)"
    using st flush_keeps [OF pos, of True s1 rs rv s2 rs2] by (auto simp: flushed_def split: if_splits)
  then have mid: "sb_sent s2 @ sb_buf s2 = (sb_sent s @ sb_buf s) @ take n data" "sb_size s2 = sb_size s" "length (sb_buf s2) \<le> sb_size s2"
    "sb_eof s \<longrightarrow> sb_eof s2 \<and> sb_sent s2 = sb_sent s" "rv = 0 \<or> sb_eof s2 \<and> length (sb_buf s2) = sb_size s2"
    using fk by (auto simp: flushed_def)
  show "kept data taken s m s'"
  proof (cases "rv = 0 \<and> drop n data \<noteq> []")
    case True
    then have "took (drop n data) (taken + n) s2 m s'" using rest IH by simp
    then have k: "kept (drop n data) (taken + n) s2 m s'" using mid(3) by (simp add: took_def)
    then have "take n data @ take (m - (taken + n)) (drop n data) = take (m - taken) data"
      using take_add [of n "m - (taken + n)" data] by (simp add: kept_def)
    with k mid fk(1) show ?thesis by (auto simp: kept_def)
  next
    case False
    then have "m = taken + n" "s' = s2" using rest by (auto split: if_splits)
    then show ?thesis using mid fk(1) False by (auto simp: kept_def)
  qed
qed

lemma xsputn_took:
  assumes pos: "benign fatal" and "sb_xsputn fatal data taken s rs = Some (n, s', rs')"
  shows "took data taken s n s'"
proof -
  have "benign fatal \<longrightarrow> took data taken s (fst (n, s', rs')) (fst (snd (n, s', rs')))"
  proof (rule sb_xsputn.raw_induct [OF _ assms(2)])
    fix f fatal data taken s rs y
    assume IH: "\<And>fatal data taken s rs y. f fatal data taken s rs = Some y \<Longrightarrow>
        benign fatal \<longrightarrow> took data taken s (fst y) (fst (snd y))"
      and b: "(let (n, s1) = sb_fill data s
      in Option.bind (if length (sb_buf s1) = sb_size s1 then sb_flush fatal True s1 rs else Some (0, s1, rs))
           (\<lambda>(rv, s2, rs2).
              if rv = 0 \<and> drop n data \<noteq> [] then f fatal (drop n data) (taken + n) s2 rs2
              else Some (taken + n, s2, rs2))) = Some y"
    show "benign fatal \<longrightarrow> took data taken s (fst y) (fst (snd y))"
    proof
      assume "benign fatal"
      then show "took data taken s (fst y) (fst (snd y))"
        using xsputn_step_keeps [of fatal "f fatal" data s rs taken "fst y" "fst (snd y)" "snd (snd y)"] IH [of fatal] b
        by (cases y) (auto simp del: drop_eq_Nil)
    qed
  qed
  then show ?thesis using pos by simp
qed

section \<open>A connection\<close>

text \<open>
  Everything the session and its reader do with the buffer, with the bytes that the session writes. \<open>sb_run\<close> collects them from
  the creation of the session.
\<close>

inductive sb_step :: "(int \<Rightarrow> bool) \<Rightarrow> u8 list \<Rightarrow> sbuf \<Rightarrow> sbuf \<Rightarrow> bool" for fatal where
  put: "sb_xsputn fatal data 0 s rs = Some (n, s', rs') \<Longrightarrow> sb_step fatal data s s'"
| put_char: "sb_overflow fatal c s rs = Some (v, s', rs') \<Longrightarrow> sb_step fatal [c] s s'"
| sync: "sb_sync fatal s rs = Some (rv, s', rs') \<Longrightarrow> sb_step fatal [] s s'"
| get: "sb_xsgetn fatal shake pending rd n s rs = Some (res, s', rs') \<Longrightarrow> sb_step fatal [] s s'"
| tls: "sbuf_startTLS r s = (rv, s') \<Longrightarrow> sb_step fatal [] s s'"

inductive sb_run :: "(int \<Rightarrow> bool) \<Rightarrow> nat \<Rightarrow> u8 list \<Rightarrow> sbuf \<Rightarrow> bool" for fatal bufsize where
  created: "sb_run fatal bufsize [] (sbuf_new bufsize)"
| step: "\<lbrakk>sb_run fatal bufsize out s; sb_step fatal data s s'\<rbrakk> \<Longrightarrow> sb_run fatal bufsize (out @ data) s'"

text \<open>Either all that was written is handed on or waits, or the connection has ended, the buffer is full and the rest is dropped.\<close>

definition in_order :: "nat \<Rightarrow> u8 list \<Rightarrow> sbuf \<Rightarrow> bool" where
  "in_order bufsize out s \<longleftrightarrow>
     sb_size s = bufsize \<and> length (sb_buf s) \<le> bufsize
     \<and> (out = sb_sent s @ sb_buf s \<or> sb_eof s \<and> length (sb_buf s) = bufsize \<and> (\<exists>lost. out = sb_sent s @ sb_buf s @ lost))"

lemma in_order_kept:
  assumes "in_order bufsize out s" and "kept data 0 s n s'"
  shows "in_order bufsize (out @ data) s'"
proof (cases "out = sb_sent s @ sb_buf s")
  case True
  then have "out @ take n data = sb_sent s' @ sb_buf s'" using assms(2) by (simp add: kept_def)
  then have w: "out @ data = sb_sent s' @ sb_buf s' @ drop n data" by (metis append.assoc append_take_drop_id)
  show ?thesis
  proof (cases "n = length data")
    case True
    then show ?thesis using w assms by (simp add: in_order_def kept_def)
  next
    case False
    then have "sb_eof s' \<and> length (sb_buf s') = bufsize" "sb_size s' = bufsize" using assms by (auto simp: in_order_def kept_def)
    then show ?thesis using w unfolding in_order_def by blast
  qed
next
  case False
  then obtain lost where l: "out = sb_sent s @ sb_buf s @ lost" "sb_eof s" "length (sb_buf s) = bufsize"
    using assms(1) by (auto simp: in_order_def)
  then have k: "sb_eof s'" "sb_sent s' = sb_sent s" "sb_buf s' = sb_buf s @ take n data" "length (sb_buf s') \<le> bufsize" "sb_size s' = bufsize"
    using assms by (auto simp: kept_def in_order_def)
  then have "sb_buf s' = sb_buf s" using l(3) by (auto simp: min_def split: if_splits)
  then have "out @ data = sb_sent s' @ sb_buf s' @ lost @ data" "length (sb_buf s') = bufsize" using k l by simp_all
  then show ?thesis using k(1,5) unfolding in_order_def by blast
qed

lemma in_order_flushed: "\<lbrakk>in_order bufsize out s; flushed part s rv s'\<rbrakk> \<Longrightarrow> in_order bufsize out s'"
  by (auto simp: in_order_def flushed_def)

lemma flushed_get_end: "get_end fatal res s = (res', s') \<Longrightarrow> flushed False s 0 s'"
  by (auto simp: get_end_def flushed_def Let_def split: if_splits)

lemma in_order_xsgetn:
  assumes "benign fatal" and "sb_xsgetn fatal shake pending rd n s rs = Some (res, s', rs')" and "in_order bufsize out s"
  shows "in_order bufsize out s'"
proof (cases "sb_tls s = InitTLS \<and> shake = 0")
  case True
  have g: "in_order bufsize out s2" if "get_end fatal (rd pending) s1 = (res2, s2)" and "in_order bufsize out s1" for s1 s2 res2
    by (rule in_order_flushed [OF that(2) flushed_get_end [OF that(1)]])
  obtain rv s1 rs1 where y: "sb_sync fatal (s\<lparr>sb_tls := RunTLS\<rparr>) rs = Some (rv, s1, rs1)"
    using True assms(2) by (auto simp: sb_xsgetn_def split: option.split_asm)
  have "in_order bufsize out (s\<lparr>sb_tls := RunTLS\<rparr>)" using assms(3) by (simp add: in_order_def)
  then have "in_order bufsize out s1" by (rule in_order_flushed [OF _ flush_keeps [OF assms(1) y [unfolded sb_sync_def]]])
  then show ?thesis using True y assms(2) g by (auto simp: sb_xsgetn_def split: if_splits prod.splits)
next
  case False
  then obtain r r' where "get_end fatal r s = (r', s')"
    using assms(2) by (auto simp: sb_xsgetn_def split: tls.split_asm prod.split_asm)
  then show ?thesis by (rule in_order_flushed [OF assms(3) flushed_get_end])
qed

lemma in_order_step:
  assumes pos: "benign fatal" and "sb_step fatal data s s'" and i: "in_order bufsize out s"
  shows "in_order bufsize (out @ data) s'"
  using assms(2)
proof cases
  case (put rs n rs')
  then have "kept data 0 s n s'" using xsputn_took [OF pos put] i by (simp add: took_def in_order_def)
  then show ?thesis by (rule in_order_kept [OF i])
next
  case (put_char c rs v rs')
  then obtain n where "sb_xsputn fatal [c] 0 s rs = Some (n, s', rs')" by (auto simp: sb_overflow_def)
  then have "kept data 0 s n s'" using xsputn_took [OF pos, of data 0 s rs n s' rs'] i put_char(1) by (simp add: took_def in_order_def)
  then show ?thesis by (rule in_order_kept [OF i])
next
  case (sync rs rv rs')
  then show ?thesis using in_order_flushed [OF i flush_keeps [OF pos, of False s rs rv s' rs']] by (simp add: sb_sync_def)
next
  case (get shake pending rd n rs res rs')
  then show ?thesis using in_order_xsgetn [OF pos get(2) i] by simp
next
  case (tls r rv)
  then show ?thesis using i by (auto simp: sbuf_startTLS_def in_order_def split: if_splits)
qed

lemma in_order_run:
  assumes pos: "benign fatal" and "sb_run fatal bufsize out s"
  shows "in_order bufsize out s"
  using assms(2)
proof (induction rule: sb_run.induct)
  case created
  then show ?case by (simp add: in_order_def sbuf_new_def)
next
  case (step out s data s')
  then show ?case using in_order_step [OF pos] by blast
qed

text \<open>
  Property C36 (output_in_order): whatever the session writes and reads, and whatever the socket and the handshake answer, the
  bytes handed on to the peer are a prefix of the bytes written, followed without a gap by the bytes in the buffer, which never
  overruns; bytes are missing only after the connection has ended. \<close>

theorem output_in_order:
  assumes "benign fatal" and "sb_run fatal bufsize out s"
  shows "(\<exists>lost. out = sb_sent s @ sb_buf s @ lost \<and> (\<not> sb_eof s \<longrightarrow> lost = [])) \<and> length (sb_buf s) \<le> bufsize"
  using in_order_run [OF assms] by (auto simp: in_order_def)

lemma put_example:
  "sb_xsputn (\<lambda>r. r < 0) [7, 8, 9] 0 (sbuf_new 2) [1, 1] =
   Some (3, \<lparr>sb_size = 2, sb_buf = [9], sb_eof = False, sb_tls = NoTLS, sb_sent = [7, 8]\<rparr>, [])"
  by (subst sb_xsputn.simps, simp add: sbuf_new_def sb_fill_def sb_flush_def flush_end_def eof_of_def Let_def)+

theorem output_in_order_witness:
  "benign (\<lambda>r. r < 0) \<and>
   sb_run (\<lambda>r. r < 0) 2 ([] @ [7, 8, 9]) \<lparr>sb_size = 2, sb_buf = [9], sb_eof = False, sb_tls = NoTLS, sb_sent = [7, 8]\<rparr> \<and>
   (\<exists>lost. [7, 8, 9] = [7, 8] @ [9] @ (lost :: u8 list) \<and> (True \<longrightarrow> lost = []))"
proof -
  have b: "benign (\<lambda>r. r < 0)" by (simp add: benign_def)
  have r: "sb_run (\<lambda>r. r < 0) 2 ([] @ [7, 8, 9]) \<lparr>sb_size = 2, sb_buf = [9], sb_eof = False, sb_tls = NoTLS, sb_sent = [7, 8]\<rparr>"
    by (rule sb_run.step [OF sb_run.created sb_step.put [OF put_example]])
  show ?thesis using output_in_order [OF b r] b r by simp
qed

section \<open>Writing returns\<close>

lemma flush_loop_pos: "\<lbrakk>rs \<noteq> []; \<forall>r \<in> set rs. 0 < r\<rbrakk> \<Longrightarrow> flush_loop True buf sent rs = Some (hd rs, drop (nat (hd rs)) buf, sent @ take (nat (hd rs)) buf, tl rs)"
  by (cases rs) (auto simp: Let_def)

lemma flush_pos:
  assumes "rs \<noteq> []" and "\<forall>r \<in> set rs. 0 < r" and "sb_tls s \<noteq> InitTLS" and "\<not> sb_eof s" and "benign fatal" and "sb_buf s \<noteq> []"
  shows "sb_flush fatal True s rs = Some (0, s\<lparr>sb_buf := drop (nat (hd rs)) (sb_buf s), sb_sent := sb_sent s @ take (nat (hd rs)) (sb_buf s)\<rparr>, tl rs)"
  using assms flush_loop_pos [OF assms(1,2)] by (cases rs) (auto simp: sb_flush_def flush_end_def eof_of_def benign_def Let_def)

lemma xsputn_returns:
  assumes "length data + (if length (sb_buf s) = sb_size s then 1 else 0) \<le> length rs" and "\<forall>r \<in> set rs. 0 < r" and "sb_tls s \<noteq> InitTLS"
    and "\<not> sb_eof s" and pos: "benign fatal" and "length (sb_buf s) \<le> sb_size s" and "0 < sb_size s"
  shows "\<exists>s' rs'. sb_xsputn fatal data taken s rs = Some (taken + length data, s', rs') \<and> \<not> sb_eof s'"
  using assms
proof (induction "length rs" arbitrary: data taken s rs rule: less_induct)
  case less
  obtain n s1 where fl: "sb_fill data s = (n, s1)" by (cases "sb_fill data s")
  note fk = fill_keeps [OF fl less.prems(6)]
  show ?case
  proof (cases "length (sb_buf s1) = sb_size s1")
    case False
    then have "drop n data = []" using fk(6) by blast
    then show ?thesis using False fl fk less.prems(4) by (subst sb_xsputn.simps) simp
  next
    case True
    let ?s2 = "s1\<lparr>sb_buf := drop (nat (hd rs)) (sb_buf s1), sb_sent := sb_sent s1 @ take (nat (hd rs)) (sb_buf s1)\<rparr>"
    have ne: "rs \<noteq> []" using less.prems(1) True fk(4,7) by (auto split: if_splits)
    then have hd: "0 < hd rs" using less.prems(2) by simp
    have bne: "sb_buf s1 \<noteq> []" using True fk(4) less.prems(7) by auto
    have f: "sb_flush fatal True s1 rs = Some (0, ?s2, tl rs)"
      by (rule flush_pos) (use ne less.prems fk bne in auto)
    show ?thesis
    proof (cases "drop n data = []")
      case all: True
      then show ?thesis using True fl f fk less.prems(4) by (subst sb_xsputn.simps) simp
    next
      case more: False
      have room: "length (sb_buf ?s2) < sb_size ?s2" using hd bne True by (cases "sb_buf s1") auto
      have "length (drop n data) \<le> length (tl rs)"
        using less.prems(1,6) fk(9) more ne by (cases data) (auto split: if_splits)
      then have "length (drop n data) + (if length (sb_buf ?s2) = sb_size ?s2 then 1 else 0) \<le> length (tl rs)" using room by simp
      moreover have "\<forall>r \<in> set (tl rs). 0 < r" using less.prems(2) list.set_sel(2) [OF ne] by blast
      ultimately have "\<exists>s' rs'. sb_xsputn fatal (drop n data) (taken + n) ?s2 (tl rs) = Some (taken + n + length (drop n data), s', rs') \<and> \<not> sb_eof s'"
        by (intro less.hyps) (use ne room fk less.prems(3,4,7) pos in simp_all)
      then show ?thesis using True fl f fk(1) more by (subst sb_xsputn.simps) (auto simp del: drop_eq_Nil)
    qed
  qed
qed

text \<open>
  Property C37 (write_returns): on a connection that is not in the handshake a write returns as soon as the peer has accepted
  at least one byte in at most one call more than there are bytes to write; all bytes are taken, in order, and the connection stays open.
\<close>

theorem write_returns:
  assumes "benign fatal" and "sb_run fatal bufsize out s" and "0 < bufsize" and "\<not> sb_eof s" and "sb_tls s \<noteq> InitTLS"
    and "\<forall>r \<in> set rs. 0 < r" and "length data < length rs"
  shows "\<exists>s' rs'. sb_xsputn fatal data 0 s rs = Some (length data, s', rs') \<and> \<not> sb_eof s' \<and> sb_sent s' @ sb_buf s' = out @ data"
proof -
  note i = in_order_run [OF assms(1,2)]
  then have "\<exists>s' rs'. sb_xsputn fatal data 0 s rs = Some (0 + length data, s', rs') \<and> \<not> sb_eof s'"
    by (intro xsputn_returns) (use assms i in \<open>auto simp: in_order_def\<close>)
  then obtain s' rs' where x: "sb_xsputn fatal data 0 s rs = Some (length data, s', rs')" "\<not> sb_eof s'" by auto
  have "in_order bufsize (out @ data) s'" by (rule in_order_step [OF assms(1) sb_step.put [OF x(1)] i])
  with x show ?thesis by (auto simp: in_order_def)
qed

theorem write_returns_witness:
  "\<exists>s' rs'. sb_xsputn (\<lambda>r. r < 0) [7, 8, 9] 0 (sbuf_new 2) [1, 2, 1, 1] = Some (3, s', rs') \<and> \<not> sb_eof s' \<and> sb_sent s' @ sb_buf s' = [7, 8, 9]"
  using write_returns [of "\<lambda>r. r < 0" 2 "[]" "sbuf_new 2" "[1, 2, 1, 1]" "[7, 8, 9]"]
  by (simp add: benign_def sb_run.created) (simp add: sbuf_new_def numeral_3_eq_3)

text \<open>Reading without data does not end a connection, but a peer that has closed it does.\<close>

lemma no_data_no_end:
  "sb_tls s = NoTLS \<Longrightarrow> sb_xsgetn fatal shake pend (msr_read False err errno rd) n s rs = Some ((- EAGAIN, []), s, rs) \<or> sb_eof s"
  by (auto simp: sb_xsgetn_def get_end_def eof_of_def msr_read_def EAGAIN_def Let_def)

lemma closed_peer_ends:
  "\<lbrakk>sb_tls s = NoTLS; rd n = (0, [])\<rbrakk> \<Longrightarrow> sb_xsgetn fatal shake pend (msr_read True err errno rd) n s rs = Some ((0, []), s\<lparr>sb_eof := True\<rparr>, rs)"
  by (simp add: sb_xsgetn_def get_end_def eof_of_def msr_read_def EAGAIN_def EINTR_def Let_def)

section \<open>The handshake\<close>

text \<open>
  A full buffer during the handshake is meant to end the connection, but the code chosen for it, \<open>-ENOSPC = -28\<close>, is \<open>GNUTLS_E_AGAIN\<close>,
  which is not fatal: the flush reports success and the write never returns.
\<close>

lemma flush_in_handshake:
  "\<lbrakk>sb_tls s = InitTLS; \<not> sb_eof s; sb_buf s \<noteq> []; \<not> fatal (- 28)\<rbrakk> \<Longrightarrow> sb_flush fatal True s rs = Some (0, s, rs)"
  by (simp add: sb_flush_def flush_end_def eof_of_def ENOSPC_def Let_def)

lemma handshake_write_hangs:
  assumes "sb_tls s = InitTLS" and "\<not> sb_eof s" and "length (sb_buf s) = sb_size s" and "0 < sb_size s" and "\<not> fatal (- 28)" and "data \<noteq> []"
  shows "sb_xsputn fatal data taken s rs = None"
proof (rule ccontr)
  assume "sb_xsputn fatal data taken s rs \<noteq> None"
  then obtain y where y: "sb_xsputn fatal data taken s rs = Some y" by blast
  have "\<not> (sb_tls s = InitTLS \<and> \<not> sb_eof s \<and> length (sb_buf s) = sb_size s \<and> 0 < sb_size s \<and> \<not> fatal (- 28) \<and> data \<noteq> [])"
  proof (rule sb_xsputn.raw_induct [OF _ y], rule notI)
    fix f fatal data taken s rs y
    assume IH: "\<And>fatal data taken s rs y. f fatal data taken s rs = Some y \<Longrightarrow>
        \<not> (sb_tls s = InitTLS \<and> \<not> sb_eof s \<and> length (sb_buf s) = sb_size s \<and> 0 < sb_size s \<and> \<not> fatal (- 28) \<and> data \<noteq> [])"
      and b: "(let (n, s1) = sb_fill data s
        in Option.bind (if length (sb_buf s1) = sb_size s1 then sb_flush fatal True s1 rs else Some (0, s1, rs))
             (\<lambda>(rv, s2, rs2).
                if rv = 0 \<and> drop n data \<noteq> [] then f fatal (drop n data) (taken + n) s2 rs2
                else Some (taken + n, s2, rs2))) = Some y"
      and h: "sb_tls s = InitTLS \<and> \<not> sb_eof s \<and> length (sb_buf s) = sb_size s \<and> 0 < sb_size s \<and> \<not> fatal (- 28) \<and> data \<noteq> []"
    have "sb_fill data s = (0, s)" using h by (simp add: sb_fill_def Let_def)
    moreover have "sb_flush fatal True s rs = Some (0, s, rs)" using h by (intro flush_in_handshake) auto
    ultimately have "f fatal data taken s rs = Some y" using b h by simp
    then show False using IH h by blast
  qed
  then show False using assms by simp
qed

text \<open>After the handshake the caller's limit is replaced by the number of pending bytes, which may be more than its array holds.\<close>

lemma read_exceeds_request:
  "sb_tls s = InitTLS \<and> \<not> sb_eof s \<and> sb_buf s = [] \<and> 0 < pending \<and> (\<forall>n. rd n = (int n, replicate n c)) \<longrightarrow>
   (\<exists>s'. sb_xsgetn fatal 0 pending rd n s rs = Some ((int pending, replicate pending c), s', rs))"
  by (auto simp: sb_xsgetn_def sb_sync_def sb_flush_def get_end_def)

text \<open>A byte \<open>0xFF\<close> that was written is reported by \<open>overflow\<close> as the end of the file.\<close>

lemma overflow_hides_success:
  "sb_xsputn fatal [0xFF] 0 s rs = Some (1, s', rs') \<Longrightarrow> sb_overflow fatal 0xFF s rs = Some (- 1, s', rs')"
  by (simp add: sb_overflow_def)

end
