(* ===== verification/Yaml_Config.thy ===== *)
theory Yaml_Config
  imports Xml_Parser
begin

text \<open>
  \<open>src/Config.cpp\<close>: access to the configuration file, and \<open>readConfiguration\<close> of \<open>lib/Main.cpp\<close>. The file is read by a
  YAML library. A document is what \<open>yaml_document_get_node\<close> of that library returns for every number of a node; opening
  and parsing a file are arguments. A result \<open>None\<close> is undefined behaviour: a null pointer is followed, a deleted
  document is used, or an item that does not exist is read.
\<close>

section \<open>Documents\<close>

datatype ynode =
    YAML_NO_NODE
  | YAML_SCALAR_NODE string
  | YAML_SEQUENCE_NODE "nat list"
  | YAML_MAPPING_NODE "(nat \<times> nat) list"

type_synonym ydoc = "nat \<Rightarrow> ynode option"

text \<open>\<open>cf_document\<close> is \<open>None\<close> when the document was deleted or never set, \<open>cf_node\<close> is \<open>None\<close> for a null pointer.\<close>

record config =
  cf_file :: string
  cf_document :: "ydoc option"
  cf_node :: "ynode option"

definition Config_new :: config where
  "Config_new = \<lparr>cf_file = [], cf_document = None, cf_node = None\<rparr>"

definition Config_at :: "ydoc option \<Rightarrow> ynode option \<Rightarrow> config" where
  "Config_at d n = \<lparr>cf_file = [], cf_document = d, cf_node = n\<rparr>"

definition Config_copy :: "config \<Rightarrow> config" where
  "Config_copy other = \<lparr>cf_file = [], cf_document = cf_document other, cf_node = cf_node other\<rparr>"

definition Config_assign :: "config \<Rightarrow> config \<Rightarrow> config" where
  "Config_assign other c = c\<lparr>cf_document := cf_document other, cf_node := cf_node other\<rparr>"

definition Config_clear :: "config \<Rightarrow> config" where
  "Config_clear c = (if cf_file c \<noteq> [] then c\<lparr>cf_document := None, cf_file := []\<rparr> else c)"

section \<open>Loading\<close>

text \<open>The message buffer holds 100 bytes with the terminating zero.\<close>

definition error_text :: "string \<Rightarrow> string" where
  "error_text s = take 99 s"

text \<open>
  \<open>init\<close> is the result of \<open>yaml_parser_initialize\<close>, \<open>open_file\<close> the outcome of \<open>fopen\<close> (a message of the system for a failure),
  \<open>parse\<close> that of \<open>yaml_parser_load\<close>: line and problem, or the document with its root.
\<close>

type_synonym parse_result = "(nat \<times> string) + (ydoc \<times> ynode option)"

definition Config_load :: "bool \<Rightarrow> (string \<Rightarrow> string option) \<Rightarrow> (string \<Rightarrow> parse_result) \<Rightarrow> string \<Rightarrow> config \<Rightarrow> string option \<times> config" where
  "Config_load init open_file parse filename c =
     (if \<not> init then (Some (error_text ''Could not initialize YAML parser''), c)
      else case open_file filename of
        Some problem \<Rightarrow> (Some (error_text (''Could not open config file '' @ filename @ '': '' @ problem)), c)
      | None \<Rightarrow>
          let c1 = (Config_clear c)\<lparr>cf_file := filename\<rparr>
          in case parse filename of
               Inl (line, problem) \<Rightarrow>
                 (Some (error_text (''YAML parser failure at line '' @ show_nat line @ '': '' @ problem)), Config_clear (c1\<lparr>cf_document := Some (\<lambda>_. None)\<rparr>))
             | Inr (d, root) \<Rightarrow> (None, c1\<lparr>cf_document := Some d, cf_node := root\<rparr>))"

definition Config_reload :: "bool \<Rightarrow> (string \<Rightarrow> string option) \<Rightarrow> (string \<Rightarrow> parse_result) \<Rightarrow> config \<Rightarrow> string option \<times> config" where
  "Config_reload init open_file parse c = Config_load init open_file parse (cf_file c) c"

section \<open>Access\<close>

definition Config_bool :: "config \<Rightarrow> bool" where
  "Config_bool c \<longleftrightarrow> cf_node c \<noteq> None"

text \<open>The text of \<open>c_str()\<close> up to the first zero byte.\<close>

definition c_text :: "string \<Rightarrow> string" where
  "c_text s = takeWhile (\<lambda>c. c \<noteq> CHR 0x00) s"

text \<open>The loop over the pairs of a mapping. \<open>strncmp\<close> compares up to a zero byte.\<close>

fun find_key :: "ydoc \<Rightarrow> string \<Rightarrow> (nat \<times> nat) list \<Rightarrow> config option" where
  "find_key d key [] = Some Config_new"
| "find_key d key ((k, v) # ps) =
     (case d k of
        None \<Rightarrow> None
      | Some (YAML_SCALAR_NODE s) \<Rightarrow>
          if length key = length s \<and> c_text s = c_text key
          then Some (Config_at (Some d) (d v)) else find_key d key ps
      | Some _ \<Rightarrow> find_key d key ps)"

definition Config_key :: "config \<Rightarrow> string \<Rightarrow> config option" where
  "Config_key c key =
     (case cf_node c of
        Some (YAML_MAPPING_NODE ps) \<Rightarrow> (case cf_document c of None \<Rightarrow> None | Some d \<Rightarrow> find_key d key ps)
      | _ \<Rightarrow> Some Config_new)"

text \<open>
  The two loops of \<open>operator[](size_t)\<close>. They look at the first item before they compare with the end: without items
  an item that does not exist is read.
\<close>

fun item_at :: "ydoc \<Rightarrow> nat list \<Rightarrow> nat \<Rightarrow> config option" where
  "item_at d [] index = None"
| "item_at d (n # ns) index =
     (if index = 0 then Some (Config_at (Some d) (d n))
      else if ns = [] then Some Config_new else item_at d ns (index - 1))"

definition Config_index :: "config \<Rightarrow> nat \<Rightarrow> config option" where
  "Config_index c index =
     (case cf_node c of
        None \<Rightarrow> Some Config_new
      | Some (YAML_SEQUENCE_NODE ns) \<Rightarrow> (case cf_document c of None \<Rightarrow> None | Some d \<Rightarrow> item_at d ns index)
      | Some (YAML_MAPPING_NODE ps) \<Rightarrow> (case cf_document c of None \<Rightarrow> None | Some d \<Rightarrow> item_at d (map fst ps) index)
      | Some (YAML_SCALAR_NODE s) \<Rightarrow> if index = 0 then Some (Config_copy c) else Some Config_new
      | Some YAML_NO_NODE \<Rightarrow> Some Config_new)"

definition Config_isMapping :: "config \<Rightarrow> bool" where
  "Config_isMapping c = (case cf_node c of Some (YAML_MAPPING_NODE _) \<Rightarrow> True | _ \<Rightarrow> False)"

definition Config_toString :: "string \<Rightarrow> config \<Rightarrow> string" where
  "Config_toString defaultString c = (case cf_node c of Some (YAML_SCALAR_NODE s) \<Rightarrow> s | _ \<Rightarrow> defaultString)"

text \<open>The numbers. \<open>strtol\<close> saturates at the bounds of \<open>long\<close>, then the value is cut to \<open>int\<close>.\<close>

definition strtol_clip :: "string \<Rightarrow> int" where
  "strtol_clip s =
     (let (neg, t) = sign_of (dropWhile isspace s);
          v = int (if take 2 t \<in> {''0x'', ''0X''} \<and> digit_of (t ! 2) < 16 \<and> 2 < length t then digits_value 16 (drop 2 t)
                   else if take 1 t = ''0'' then digits_value 8 t else digits_value 10 t)
      in if neg then max (- (2 ^ 63)) (- v) else min (2 ^ 63 - 1) v)"

definition Config_toInt :: "32 word \<Rightarrow> config \<Rightarrow> 32 word" where
  "Config_toInt dflt c =
     (let sval = Config_toString [] c in if sval = [] then dflt else of_int (strtol_clip (c_text sval)))"

definition Config_toUInt :: "u32 \<Rightarrow> config \<Rightarrow> u32" where
  "Config_toUInt dflt c =
     (let sval = Config_toString [] c in if sval = [] then dflt else of_nat (strtoul (c_text sval)))"

text \<open>The loop \<open>while (Config item = config[i++])\<close> over the items of a configuration; \<open>act\<close> is its body.\<close>

partial_function (option) each_item :: "(config \<Rightarrow> 'm \<Rightarrow> 'm) \<Rightarrow> config \<Rightarrow> nat \<Rightarrow> 'm \<Rightarrow> 'm option" where
  "each_item act c i m =
     (case Config_index c i of
        None \<Rightarrow> None
      | Some item \<Rightarrow> if Config_bool item then each_item act c (Suc i) (act item m) else Some m)"

section \<open>The configuration file of an application\<close>

text \<open>
  The file named by the application, by the environment, or the default \<open>sysconf\<close>: the text on the standard
  output and the configuration. \<open>readable\<close> is the test of \<open>access\<close>.
\<close>

definition Main_readConfiguration ::
  "(string \<Rightarrow> config \<Rightarrow> string option \<times> config) \<Rightarrow> string \<Rightarrow> (string \<Rightarrow> bool) \<Rightarrow> string \<Rightarrow> string option \<Rightarrow> config \<Rightarrow> string \<times> config" where
  "Main_readConfiguration load sysconf readable configFile env m_config =
     (if configFile \<noteq> []
      then let (err, c) = load configFile m_config
           in (case err of None \<Rightarrow> []
               | Some e \<Rightarrow> ''Error loading configuration file '' @ configFile @ '' specified on command line: '' @ e @ [CHR 0x0A], c)
      else if env \<noteq> None \<and> the env \<noteq> []
      then let (err, c) = load (the env) m_config
           in (case err of None \<Rightarrow> []
               | Some e \<Rightarrow> ''Error loading config file '' @ the env @ '' specified in environment variable PDSERV_CONFIG: '' @ e @ [CHR 0x0A], c)
      else let (err, c) = load sysconf m_config
           in (case err of None \<Rightarrow> []
               | Some e \<Rightarrow> ''Error loading default config file '' @ sysconf @ '': ''
                   @ (if readable sysconf then e else '': File is not readable'') @ [CHR 0x0A], c))"

definition Main_config :: "config \<Rightarrow> string \<Rightarrow> config option" where
  "Main_config m_config key = Config_key m_config key"

section \<open>Lookup\<close>

lemma c_text_id: "\<forall>c \<in> set s. c \<noteq> CHR 0x00 \<Longrightarrow> c_text s = s"
  by (simp add: c_text_def takeWhile_eq_all_conv)

text \<open>The value of the first pair whose key is the given text.\<close>

lemma find_key_first:
  assumes "\<forall>p \<in> set ps. \<exists>t. d (fst p) = Some (YAML_SCALAR_NODE t) \<and> t \<noteq> key \<and> (\<forall>c \<in> set t. c \<noteq> CHR 0x00)"
    and "\<forall>c \<in> set key. c \<noteq> CHR 0x00" and "d k = Some (YAML_SCALAR_NODE key)"
  shows "find_key d key (ps @ (k, v) # qs) = Some (Config_at (Some d) (d v))"
  using assms(1)
proof (induction ps)
  case Nil
  then show ?case using assms(3) by simp
next
  case (Cons p ps)
  obtain j w where p: "p = (j, w)" by (cases p)
  obtain t where t: "d j = Some (YAML_SCALAR_NODE t)" "t \<noteq> key" "\<forall>c \<in> set t. c \<noteq> CHR 0x00" using Cons.prems p by auto
  have "c_text t = t" "c_text key = key" using t assms(2) by (simp_all add: c_text_id)
  then show ?case using Cons t p by simp
qed

section \<open>Iteration\<close>

definition items_of :: "config \<Rightarrow> config list" where
  "items_of c =
     (case (cf_node c, cf_document c) of
        (Some (YAML_SEQUENCE_NODE ns), Some d) \<Rightarrow> map (\<lambda>n. Config_at (Some d) (d n)) ns
      | (Some (YAML_MAPPING_NODE ps), Some d) \<Rightarrow> map (\<lambda>p. Config_at (Some d) (d (fst p))) ps
      | (Some (YAML_SCALAR_NODE s), _) \<Rightarrow> [Config_copy c]
      | _ \<Rightarrow> [])"

text \<open>A configuration whose nodes exist and whose sequences and mappings are not empty.\<close>

definition proper :: "config \<Rightarrow> bool" where
  "proper c =
     (case cf_node c of
        Some (YAML_SEQUENCE_NODE ns) \<Rightarrow> ns \<noteq> [] \<and> cf_document c \<noteq> None \<and> (\<forall>n \<in> set ns. the (cf_document c) n \<noteq> None)
      | Some (YAML_MAPPING_NODE ps) \<Rightarrow> ps \<noteq> [] \<and> cf_document c \<noteq> None \<and> (\<forall>p \<in> set ps. the (cf_document c) (fst p) \<noteq> None)
      | _ \<Rightarrow> True)"

lemma item_at_nth: "ns \<noteq> [] \<Longrightarrow> item_at d ns i = Some (if i < length ns then Config_at (Some d) (d (ns ! i)) else Config_new)"
  by (induction d ns i rule: item_at.induct) (auto simp: nth_Cons')

lemma Config_index_proper:
  assumes "proper c"
  shows "Config_index c i = Some (if i < length (items_of c) then items_of c ! i else Config_new)"
  using assms
  by (auto simp: proper_def Config_index_def items_of_def item_at_nth split: option.splits ynode.splits)

lemma items_of_bool: "proper c \<Longrightarrow> item \<in> set (items_of c) \<Longrightarrow> Config_bool item"
  by (auto simp: proper_def items_of_def Config_bool_def Config_at_def Config_copy_def split: option.splits ynode.splits)

lemma each_item_drop: "proper c \<Longrightarrow> each_item act c i m = Some (fold act (drop i (items_of c)) m)"
proof (induction "length (items_of c) - i" arbitrary: i m)
  case 0
  then show ?case by (subst each_item.simps) (simp add: Config_index_proper Config_bool_def Config_new_def)
next
  case (Suc k)
  then have i: "i < length (items_of c)" by simp
  then have "drop i (items_of c) = items_of c ! i # drop (Suc i) (items_of c)" by (simp add: Cons_nth_drop_Suc)
  moreover have "each_item act c (Suc i) (act (items_of c ! i) m) = Some (fold act (drop (Suc i) (items_of c)) (act (items_of c ! i) m))"
    using Suc by simp
  ultimately show ?case using i Suc.prems items_of_bool [OF Suc.prems nth_mem [OF i]]
    by (subst each_item.simps) (simp add: Config_index_proper)
qed

lemma each_item_all: "proper c \<Longrightarrow> each_item act c 0 m = Some (fold act (items_of c) m)"
  by (simp add: each_item_drop)

text \<open>An empty sequence in the configuration file is read beyond its end.\<close>

lemma empty_sequence_overread: "cf_node c = Some (YAML_SEQUENCE_NODE []) \<Longrightarrow> each_item act c 0 m = None"
  by (subst each_item.simps) (simp add: Config_index_def split: option.split)

section \<open>Numbers\<close>

lemma digit_char_zero: "d < 10 \<Longrightarrow> digit_char d = CHR ''0'' \<longleftrightarrow> d = 0"
  by (auto simp: digit_char_def char_of_eq_iff take_bit_eq_mod)

lemma show_nat_head: "0 < n \<Longrightarrow> hd (show_nat n) \<noteq> CHR ''0''"
proof (induction n rule: show_nat.induct)
  case (1 n)
  show ?case
  proof (cases "n < 10")
    case True
    then show ?thesis using 1(2) by (simp add: show_nat.simps [of n] digit_char_zero)
  next
    case False
    then show ?thesis using 1(1) by (simp add: show_nat.simps [of n])
  qed
qed

lemma strtoul_show_nat:
  assumes "n < 2 ^ 32"
  shows "strtoul (show_nat n) = n"
proof -
  obtain c cs where c: "show_nat n = c # cs" by (cases "show_nat n") auto
  with show_nat_all_digits [of n] have d: "\<not> isspace c" "c \<noteq> CHR ''-''" "c \<noteq> CHR ''+''" by auto
  then have s: "sign_of (dropWhile isspace (show_nat n)) = (False, show_nat n)" by (simp add: c)
  show ?thesis
  proof (cases "n = 0")
    case True
    then have "show_nat n = [digit_char 0]" by (subst show_nat.simps) simp
    moreover have "digit_char 0 = CHR ''0''" by (simp add: digit_char_zero)
    ultimately have z: "show_nat n = ''0''" by simp
    show ?thesis using True unfolding strtoul_def s unfolding z by (simp add: Let_def digits_value_def digit_of_def)
  next
    case False
    then have "c \<noteq> CHR ''0''" using show_nat_head [of n] c by simp
    then have "take 1 (show_nat n) \<noteq> ''0''" "take 2 (show_nat n) \<notin> {''0x'', ''0X''}" by (auto simp: c)
    then show ?thesis using assms digits_value_show [of "[]" n] unfolding strtoul_def s by (simp add: Let_def)
  qed
qed

text \<open>Numbers in the configuration file are read as they are written.\<close>

lemma toUInt_show_nat:
  assumes "n < 2 ^ 32"
  shows "Config_toUInt dflt (Config_at d (Some (YAML_SCALAR_NODE (show_nat n)))) = of_nat n"
proof -
  have "\<forall>c \<in> set (show_nat n). c \<noteq> CHR 0x00" using show_nat_digits [of n] by (auto simp: list_all_iff is_digit_def)
  then show ?thesis using strtoul_show_nat [OF assms] by (simp add: Config_toUInt_def Config_toString_def Config_at_def c_text_id)
qed

section \<open>A reload that fails\<close>

text \<open>The document is deleted, but the node still points into it: the next access uses memory that was freed.\<close>

lemma failed_reload_dangles:
  assumes "cf_file c \<noteq> []" and "cf_node c = Some (YAML_MAPPING_NODE ps)" and "open_file (cf_file c) = None" and "parse (cf_file c) = Inl e"
  shows "Config_key (snd (Config_reload True open_file parse c)) key = None"
  using assms by (cases e) (auto simp: Config_reload_def Config_load_def Config_key_def Config_clear_def Let_def)

end
