(* ===== verification/Tls.thy ===== *)
theory Tls
  imports Std_Map Yaml_Config
begin

text \<open>
  Encrypted connections: \<open>src/TLS.cpp\<close>, \<open>setupTLS\<close> and the loading of certificates in \<open>src/Main.cpp\<close>, and the verification of a client
  in \<open>src/Session.cpp\<close>. The results of the TLS library and what the file system holds are arguments (\<open>x509\<close>, \<open>tls_env\<close>,
  \<open>fnode\<close>); log messages are left out.
\<close>

section \<open>Byte strings\<close>

type_synonym datum_string = "u8 list"

definition hexchar :: "char \<Rightarrow> u8" where
  "hexchar c =
     (let n = (of_char c :: nat) in
      if 65 \<le> n \<and> n \<le> 70 then of_nat (n - (65 - 10))
      else if 97 \<le> n \<and> n \<le> 102 then of_nat (n - (97 - 10))
      else if 48 \<le> n \<and> n \<le> 57 then of_nat (n - 48) else 0)"

text \<open>The constructor from hexadecimal text; \<open>len\<close> is \<open>~0U\<close> by default. A last single digit is dropped.\<close>

fun hex_pairs :: "nat \<Rightarrow> string \<Rightarrow> datum_string" where
  "hex_pairs (Suc len) (a # b # s) = (push_bit 4 (hexchar a) + hexchar b) # hex_pairs len s"
| "hex_pairs _ _ = []"

definition datum_of_hex :: "nat \<Rightarrow> string \<Rightarrow> datum_string" where
  "datum_of_hex len hexdata = hex_pairs (min (length hexdata) len div 2) hexdata"

definition datum_hex :: "datum_string \<Rightarrow> string" where
  "datum_hex d = concat (map (\<lambda>c. [''0123456789abcdef'' ! unat (drop_bit 4 c AND 0x0F), ''0123456789abcdef'' ! unat (c AND 0x0F)]) d)"

text \<open>
  The conversion to \<open>gnutls_datum_t\<close> takes the size for the address of the data: \<open>None\<close> stands for a copy to such an address.
  Without bytes the result is a null pointer.
\<close>

definition datum_of :: "datum_string \<Rightarrow> datum_string option" where
  "datum_of d = (if d = [] then Some [] else None)"

section \<open>Resumable sessions\<close>

definition TLS_DB_SIZE :: nat where "TLS_DB_SIZE = 100"
definition TLS_DB_MAX_ENTRY_SIZE :: nat where "TLS_DB_MAX_ENTRY_SIZE = 5000"

text \<open>\<open>td_list\<close> holds iterators of the map, here their keys.\<close>

record tls_db =
  td_max :: nat
  td_map :: "(datum_string, datum_string) omap"
  td_list :: "datum_string list"

definition TlsSessionDB_new :: "nat \<Rightarrow> tls_db" where
  "TlsSessionDB_new m = \<lparr>td_max = m, td_map = [], td_list = []\<rparr>"

fun evict :: "nat \<Rightarrow> (datum_string, datum_string) omap \<Rightarrow> datum_string list \<Rightarrow> (datum_string, datum_string) omap \<times> datum_string list" where
  "evict m mp [] = (mp, [])"
| "evict m mp (k # ks) = (if length (k # ks) > m then evict m (om_del k mp) ks else (mp, k # ks))"

text \<open>\<open>insert\<close> leaves an entry that exists as it is.\<close>

definition TlsSessionDB_store :: "datum_string \<Rightarrow> datum_string \<Rightarrow> tls_db \<Rightarrow> int \<times> tls_db" where
  "TlsSessionDB_store key val db =
     (if length key > TLS_DB_MAX_ENTRY_SIZE \<or> length val > TLS_DB_MAX_ENTRY_SIZE then (- 1, db)
      else let mp = (if om_get (td_map db) key = None then om_put key val (td_map db) else td_map db);
               (mp', ks) = evict (td_max db) mp (os_erase key (td_list db))
           in (0, db\<lparr>td_map := mp', td_list := ks @ [key]\<rparr>))"

definition TlsSessionDB_erase :: "datum_string \<Rightarrow> tls_db \<Rightarrow> int \<times> tls_db" where
  "TlsSessionDB_erase key db =
     (if om_get (td_map db) key = None then (- 1, db)
      else (0, db\<lparr>td_list := os_erase key (td_list db), td_map := om_del key (td_map db)\<rparr>))"

definition TlsSessionDB_retrieve :: "datum_string \<Rightarrow> tls_db \<Rightarrow> datum_string option" where
  "TlsSessionDB_retrieve key db = (case om_get (td_map db) key of None \<Rightarrow> Some [] | Some v \<Rightarrow> datum_of v)"

section \<open>Verification of a client\<close>

text \<open>What the library answers about the certificates a client sent.\<close>

record 'c x509 =
  x_init :: int
  x_import :: "'c \<Rightarrow> int"
  x_print :: "'c \<Rightarrow> int"
  x_key_id :: "'c \<Rightarrow> int \<times> datum_string"
  x_verify :: "int \<times> u32"

text \<open>The loop over the certificates. The result of printing one is lost when there is a blacklist.\<close>

fun check_certs :: "('c, 'x) x509_scheme \<Rightarrow> datum_string list \<Rightarrow> 'c list \<Rightarrow> int" where
  "check_certs g blacklist [] = 0"
| "check_certs g blacklist (c # cs) =
     (if x_import g c \<noteq> 0 then x_import g c
      else if blacklist = []
      then if x_print g c \<noteq> 0 then x_print g c else check_certs g blacklist cs
      else let (result, buf) = x_key_id g c
           in if result \<noteq> 0 \<or> buf = [] then - 1
              else if buf \<in> set blacklist then - 1 else check_certs g blacklist cs)"

text \<open>\<open>peers\<close>: the certificates, or \<open>None\<close> when the library has none.\<close>

definition gnutls_verify_client :: "('c, 'x) x509_scheme \<Rightarrow> datum_string list \<Rightarrow> 'c list option \<Rightarrow> int" where
  "gnutls_verify_client g blacklist peers =
     (case peers of
        None \<Rightarrow> - 1
      | Some certs \<Rightarrow>
          if certs = [] then - 1
          else if x_init g \<noteq> 0 then - 1
          else let result = check_certs g blacklist certs
               in if result \<noteq> 0 then result
                  else let (result, status) = x_verify g
                       in if result \<noteq> 0 then - 1 else if status \<noteq> 0 then - 1 else 0)"

text \<open>The functions through which the library uses the socket: the result and the error code that is set.\<close>

definition gnutls_push_func :: "int \<Rightarrow> int \<times> int option" where
  "gnutls_push_func written = (if written \<ge> 0 then (written, None) else (- 1, Some (- written)))"

definition gnutls_pull_func :: "int \<times> u8 list \<Rightarrow> (int \<times> u8 list) \<times> int option" where
  "gnutls_pull_func r = (if fst r \<ge> 0 then (r, None) else ((- 1, []), Some (- fst r)))"

section \<open>Set up\<close>

text \<open>
  What \<open>opendir\<close>, \<open>readdir_r\<close> and \<open>stat\<close> find at a path: a directory with its entries, a regular file with its size, or anything else,
  also nothing. Directories have no cycles.
\<close>

datatype fnode = FDir "(string \<times> fnode) list" | FReg nat | FNone

text \<open>The members of \<open>Main\<close>; \<open>mt_trust\<close> and \<open>mt_crl\<close> are the files handed to the library.\<close>

record main_tls =
  mt_db :: "tls_db option"
  mt_blacklist :: "datum_string list"
  mt_verifyClient :: bool
  mt_trust :: "string list"
  mt_crl :: "string list"

definition Main_loadTrustFile :: "string \<Rightarrow> fnode \<Rightarrow> main_tls \<Rightarrow> main_tls" where
  "Main_loadTrustFile cafile f m = m\<lparr>mt_trust := mt_trust m @ [cafile]\<rparr>"

text \<open>\<open>basename\<close> of the GNU library: what follows the last slash.\<close>

definition basename :: "string \<Rightarrow> string" where
  "basename p = rev (takeWhile (\<lambda>c. c \<noteq> CHR ''/'') (rev p))"

definition Main_loadCrlFile :: "string \<Rightarrow> fnode \<Rightarrow> main_tls \<Rightarrow> main_tls" where
  "Main_loadCrlFile crlfile f m =
     (case f of
        FReg n \<Rightarrow>
          if n = 0 then m\<lparr>mt_blacklist := insort_insert (datum_of_hex (2 ^ 32 - 1) (basename crlfile)) (mt_blacklist m)\<rparr>
          else m\<lparr>mt_crl := mt_crl m @ [crlfile]\<rparr>
      | _ \<Rightarrow> m\<lparr>mt_blacklist := insort_insert (datum_of_hex (2 ^ 32 - 1) (basename crlfile)) (mt_blacklist m)\<rparr>)"

fun Main_parseCertConfigDir :: "(string \<Rightarrow> fnode \<Rightarrow> 'm \<Rightarrow> 'm) \<Rightarrow> string \<Rightarrow> fnode \<Rightarrow> 'm \<Rightarrow> 'm"
  and cert_entries :: "(string \<Rightarrow> fnode \<Rightarrow> 'm \<Rightarrow> 'm) \<Rightarrow> string \<Rightarrow> (string \<times> fnode) list \<Rightarrow> 'm \<Rightarrow> 'm" where
  "Main_parseCertConfigDir load path (FDir es) m = cert_entries load path es m"
| "Main_parseCertConfigDir load path (FReg n) m = load path (FReg n) m"
| "Main_parseCertConfigDir load path FNone m = load path FNone m"
| "cert_entries load path [] m = m"
| "cert_entries load path ((d_name, f) # es) m =
     cert_entries load path es
       (if take 1 d_name \<noteq> ''.'' then Main_parseCertConfigDir load (path @ ''/'' @ d_name) f m else m)"

text \<open>\<open>fs\<close> is the file system. The paths of the configuration end at a zero byte.\<close>

definition Main_parseCertConfigItem ::
  "(string \<Rightarrow> fnode) \<Rightarrow> config \<Rightarrow> (string \<Rightarrow> fnode \<Rightarrow> main_tls \<Rightarrow> main_tls) \<Rightarrow> main_tls \<Rightarrow> main_tls option" where
  "Main_parseCertConfigItem fs conf load m =
     (if \<not> Config_bool conf then Some m
      else each_item (\<lambda>item m. let path = c_text (Config_toString [] item) in Main_parseCertConfigDir load path (fs path) m)
             conf 0 (m\<lparr>mt_verifyClient := True\<rparr>))"

text \<open>Results of the library during the set up; \<open>te_dh_file\<close> is the content of a file that can be opened.\<close>

record tls_env =
  te_global_init :: int
  te_dh_init :: int
  te_dh_file :: "string \<Rightarrow> u8 list option"
  te_dh_import :: "u8 list \<Rightarrow> int"
  te_dh_generate :: "u32 \<Rightarrow> int"
  te_priority :: "string \<Rightarrow> int"
  te_credentials :: int
  te_key_file :: "string \<Rightarrow> string \<Rightarrow> int"
  te_fs :: "string \<Rightarrow> fnode"

text \<open>The parameters of the key exchange, from a file or generated.\<close>

definition setup_dh :: "tls_env \<Rightarrow> config \<Rightarrow> int option" where
  "setup_dh e tlsConf =
     Option.bind (Config_key tlsConf ''dh'') (\<lambda>dh.
       if Config_bool dh
       then (case te_dh_file e (Config_toString [] dh) of None \<Rightarrow> Some 0 | Some buf \<Rightarrow> Some (te_dh_import e buf))
       else map_option (\<lambda>b. te_dh_generate e (Config_toUInt 1024 b)) (Config_key tlsConf ''dh-bits''))"

definition setup_credentials :: "tls_env \<Rightarrow> config \<Rightarrow> int option" where
  "setup_credentials e tlsConf =
     Option.bind (Config_key tlsConf ''priority'') (\<lambda>prio.
       let result = te_priority e (Config_toString ''NORMAL'' prio)
       in if result \<noteq> 0 then Some result
          else if te_credentials e \<noteq> 0 then Some (te_credentials e)
          else Option.bind (Config_key tlsConf ''cert'') (\<lambda>cert.
               map_option (\<lambda>key. te_key_file e (Config_toString [] cert) (Config_toString [] key)) (Config_key tlsConf ''key'')))"

definition setup_certs :: "tls_env \<Rightarrow> config \<Rightarrow> main_tls \<Rightarrow> main_tls option" where
  "setup_certs e tlsConf m =
     Option.bind (Config_key tlsConf ''ca'') (\<lambda>ca.
     Option.bind (Main_parseCertConfigItem (te_fs e) ca Main_loadTrustFile m) (\<lambda>m1.
     Option.bind (Config_key tlsConf ''crl'') (\<lambda>crl.
     Main_parseCertConfigItem (te_fs e) crl Main_loadCrlFile m1)))"

definition Main_setupTLS :: "tls_env \<Rightarrow> config \<Rightarrow> (int \<times> main_tls) option" where
  "Main_setupTLS e tlsConf =
     (let m0 = \<lparr>mt_db = None, mt_blacklist = [], mt_verifyClient = False, mt_trust = [], mt_crl = []\<rparr>;
          m1 = m0\<lparr>mt_db := Some (TlsSessionDB_new TLS_DB_SIZE)\<rparr>
      in if \<not> Config_bool tlsConf then Some (0, m0)
         else Option.bind (Config_key tlsConf ''loglevel'') (\<lambda>_.
           if te_global_init e \<noteq> 0 then Some (te_global_init e, m1)
           else if te_dh_init e \<noteq> 0 then Some (te_dh_init e, m1)
           else Option.bind (setup_dh e tlsConf) (\<lambda>r.
             if r \<noteq> 0 then Some (r, m1)
             else Option.bind (setup_credentials e tlsConf) (\<lambda>r.
               if r \<noteq> 0 then Some (r, m1) else map_option (Pair 0) (setup_certs e tlsConf m1)))))"

text \<open>
  A client is asked for a certificate, and \<open>gnutls_verify_client\<close> is installed, when \<open>verifyClient\<close> is set
  (\<open>initTlsSessionData\<close>): the result of the verification during the handshake.
\<close>

definition client_result :: "main_tls \<Rightarrow> ('c, 'x) x509_scheme \<Rightarrow> 'c list option \<Rightarrow> int" where
  "client_result m g peers = (if mt_verifyClient m then gnutls_verify_client g (mt_blacklist m) peers else 0)"

section \<open>Hexadecimal key identifiers\<close>

lemma hexchar_digit: "d < 16 \<Longrightarrow> hexchar (''0123456789abcdef'' ! d) = of_nat d"
proof -
  have "list_all (\<lambda>d. hexchar (''0123456789abcdef'' ! d) = of_nat d) [0..<16]" by code_simp
  then show "d < 16 \<Longrightarrow> ?thesis" by (simp add: list_all_iff)
qed

lemma low_nibble: "x AND 0x0F = take_bit 4 (x :: u8)"
  by (simp add: take_bit_eq_mask mask_eq_exp_minus_1)

lemma high_nibble: "take_bit 4 (drop_bit 4 (c :: u8)) = drop_bit 4 c"
  by (rule bit_word_eqI) (auto simp: bit_take_bit_iff bit_drop_bit_eq dest: bit_imp_le_length)

lemma nibble_less: "unat (x AND 0x0F :: u8) < 16"
proof -
  have "unat (x AND 0x0F :: u8) = take_bit 4 (unat x)" by (simp add: low_nibble unsigned_take_bit_eq)
  then show ?thesis by (simp add: take_bit_eq_mod)
qed

lemma nibbles: "push_bit 4 (of_nat (unat (drop_bit 4 c AND 0x0F)) :: u8) + of_nat (unat (c AND 0x0F)) = (c :: u8)"
  unfolding low_nibble high_nibble by (simp add: bits_ident)

lemma hex_pairs_datum_hex: "hex_pairs (length d) (datum_hex d) = d"
proof (induction d)
  case (Cons c d)
  have "datum_hex (c # d) = ''0123456789abcdef'' ! unat (drop_bit 4 c AND 0x0F) # ''0123456789abcdef'' ! unat (c AND 0x0F) # datum_hex d"
    by (simp add: datum_hex_def)
  then show ?case using Cons hexchar_digit [OF nibble_less [of c]] hexchar_digit [OF nibble_less [of "drop_bit 4 c"]] nibbles [of c] by simp
qed (simp add: datum_hex_def)

lemma datum_of_hex_roundtrip: "2 * length d \<le> len \<Longrightarrow> datum_of_hex len (datum_hex d) = d"
proof -
  have "length (datum_hex d) = 2 * length d" by (induction d) (simp_all add: datum_hex_def)
  then show "2 * length d \<le> len \<Longrightarrow> ?thesis" using hex_pairs_datum_hex [of d] by (simp add: datum_of_hex_def min_def)
qed

section \<open>The store of sessions\<close>

lemma evict_suffix: "evict m mp ks = (mp', ks') \<Longrightarrow> \<exists>gone. ks = gone @ ks' \<and> mp' = fold om_del gone mp \<and> length ks' \<le> m"
proof (induction m mp ks rule: evict.induct)
  case (2 m mp k ks)
  show ?case
  proof (cases "length (k # ks) > m")
    case True
    then obtain gone where "ks = gone @ ks' \<and> mp' = fold om_del gone (om_del k mp) \<and> length ks' \<le> m" using 2 by auto
    then have "k # ks = (k # gone) @ ks' \<and> mp' = fold om_del (k # gone) mp \<and> length ks' \<le> m" by simp
    then show ?thesis by blast
  qed (use 2 in auto)
qed simp

lemma om_get_fold_del: "om_get (fold om_del gone mp) k = (if k \<in> set gone then None else om_get mp k)"
  by (induction gone arbitrary: mp) auto

lemma om_ok_fold_del: "om_ok mp \<Longrightarrow> om_ok (fold om_del gone mp)"
  by (induction gone arbitrary: mp) auto

text \<open>The list names every entry once, the entries and their number are bounded.\<close>

definition db_inv :: "tls_db \<Rightarrow> bool" where
  "db_inv db \<longleftrightarrow>
     om_ok (td_map db) \<and> distinct (td_list db) \<and> (\<forall>k. k \<in> set (td_list db) \<longleftrightarrow> om_get (td_map db) k \<noteq> None)
     \<and> length (td_list db) \<le> td_max db + 1
     \<and> (\<forall>k v. om_get (td_map db) k = Some v \<longrightarrow> length k \<le> TLS_DB_MAX_ENTRY_SIZE \<and> length v \<le> TLS_DB_MAX_ENTRY_SIZE)"

lemma os_erase_length: "length (os_erase k ks) \<le> length ks"
  by (simp add: os_erase_def)

lemma db_inv_store:
  assumes "db_inv db" and "TlsSessionDB_store key val db = (r, db')"
  shows "db_inv db'"
proof (cases "length key > TLS_DB_MAX_ENTRY_SIZE \<or> length val > TLS_DB_MAX_ENTRY_SIZE")
  case True
  then show ?thesis using assms by (auto simp: TlsSessionDB_store_def)
next
  case False
  let ?mp = "if om_get (td_map db) key = None then om_put key val (td_map db) else td_map db"
  obtain mp' ks where e: "evict (td_max db) ?mp (os_erase key (td_list db)) = (mp', ks)" by (cases "evict (td_max db) ?mp (os_erase key (td_list db))") auto
  from evict_suffix [OF e] obtain gone where g: "os_erase key (td_list db) = gone @ ks" "mp' = fold om_del gone ?mp" "length ks \<le> td_max db" by blast
  have d: "distinct (gone @ ks)" "set (gone @ ks) = set (td_list db) - {key}"
    using assms(1) by (simp_all add: g(1) [symmetric] db_inv_def)
  have db': "db' = db\<lparr>td_map := mp', td_list := ks @ [key]\<rparr>" using assms(2) False e by (auto simp: TlsSessionDB_store_def Let_def)
  have get: "om_get mp' k = (if k \<in> set gone then None else if k = key \<and> om_get (td_map db) key = None then Some val else om_get (td_map db) k)" for k
    by (simp add: g(2) om_get_fold_del)
  have "om_ok mp'" using assms(1) by (simp add: g(2) om_ok_fold_del db_inv_def)
  moreover have "key \<notin> set gone" "key \<notin> set ks" using d(2) by auto
  moreover have "k \<in> set (ks @ [key]) \<longleftrightarrow> om_get mp' k \<noteq> None" for k
    using assms(1) d calculation(2,3) by (auto simp: get db_inv_def)
  moreover have "length k \<le> TLS_DB_MAX_ENTRY_SIZE \<and> length v \<le> TLS_DB_MAX_ENTRY_SIZE" if "om_get mp' k = Some v" for k v
    using that assms(1) False by (auto simp: get db_inv_def split: if_splits)
  ultimately show ?thesis using d(1) g(3) by (simp add: db_inv_def db')
qed

lemma db_inv_erase: "db_inv db \<Longrightarrow> TlsSessionDB_erase key db = (r, db') \<Longrightarrow> db_inv db'"
  using os_erase_length [of key "td_list db"] by (auto simp: db_inv_def TlsSessionDB_erase_def split: if_splits)

lemma db_inv_size:
  assumes "db_inv db"
  shows "length (td_map db) = length (td_list db)"
proof -
  have "set (map fst (td_map db)) = set (td_list db)" using assms by (auto simp: db_inv_def om_get_def map_of_eq_None_iff)
  then show ?thesis using assms om_ok_distinct [of "td_map db"] by (metis db_inv_def distinct_card length_map)
qed

text \<open>Everything that happens to the store of a server.\<close>

inductive db_run :: "nat \<Rightarrow> tls_db \<Rightarrow> bool" for m where
  created: "db_run m (TlsSessionDB_new m)"
| store: "\<lbrakk>db_run m db; TlsSessionDB_store key val db = (r, db')\<rbrakk> \<Longrightarrow> db_run m db'"
| erase: "\<lbrakk>db_run m db; TlsSessionDB_erase key db = (r, db')\<rbrakk> \<Longrightarrow> db_run m db'"

lemma db_run_inv: "db_run m db \<Longrightarrow> db_inv db \<and> td_max db = m"
proof (induction rule: db_run.induct)
  case created
  then show ?case by (simp add: db_inv_def TlsSessionDB_new_def)
next
  case (store db key val r db')
  then show ?case using db_inv_store [OF _ store(2)]
    by (auto simp: TlsSessionDB_store_def Let_def split: if_splits prod.splits)
next
  case (erase db key r db')
  then show ?case using db_inv_erase [OF _ erase(2)] by (auto simp: TlsSessionDB_erase_def split: if_splits)
qed

lemma store_found:
  assumes "TlsSessionDB_store key val db = (0, db')"
  shows "om_get (td_map db') key = Some (case om_get (td_map db) key of None \<Rightarrow> val | Some old \<Rightarrow> old)"
proof -
  let ?mp = "if om_get (td_map db) key = None then om_put key val (td_map db) else td_map db"
  obtain mp' ks where e: "evict (td_max db) ?mp (os_erase key (td_list db)) = (mp', ks)" by (cases "evict (td_max db) ?mp (os_erase key (td_list db))") auto
  from evict_suffix [OF e] obtain gone where g: "os_erase key (td_list db) = gone @ ks" "mp' = fold om_del gone ?mp" by blast
  have "key \<notin> set gone" using g(1) by (metis Diff_iff UnCI insertI1 set_append set_os_erase)
  moreover have "td_map db' = mp'" using assms e by (auto simp: TlsSessionDB_store_def Let_def split: if_splits)
  ultimately show ?thesis using g(2) by (auto simp: om_get_fold_del split: option.split)
qed

lemma evict_eq: "evict m mp ks = (fold om_del (take (length ks - m) ks) mp, drop (length ks - m) ks)"
proof (induction m mp ks rule: evict.induct)
  case (2 m mp k ks)
  then show ?case by (simp add: Suc_diff_le)
qed simp

text \<open>The keys a store leaves beside its own: the newest of the others, as many as the limit.\<close>

definition others_left :: "datum_string \<Rightarrow> tls_db \<Rightarrow> datum_string list" where
  "others_left key db = (let ks = os_erase key (td_list db) in drop (length ks - td_max db) ks)"

lemma store_effect:
  assumes "db_inv db" and "TlsSessionDB_store key val db = (0, db')"
  shows "td_list db' = others_left key db @ [key]"
    and "om_get (td_map db') k = (if k = key then Some (case om_get (td_map db) key of None \<Rightarrow> val | Some old \<Rightarrow> old)
       else if k \<in> set (others_left key db) then om_get (td_map db) k else None)"
proof -
  let ?ks = "os_erase key (td_list db)"
  let ?mp = "if om_get (td_map db) key = None then om_put key val (td_map db) else td_map db"
  have db': "td_list db' = others_left key db @ [key]" "td_map db' = fold om_del (take (length ?ks - td_max db) ?ks) ?mp"
    using assms(2) by (auto simp: TlsSessionDB_store_def evict_eq Let_def others_left_def split: if_splits)
  then show "td_list db' = others_left key db @ [key]" by simp
  have app: "take (length ?ks - td_max db) ?ks @ others_left key db = ?ks" by (simp add: others_left_def Let_def)
  have d: "distinct ?ks" "set ?ks = set (td_list db) - {key}" using assms(1) by (simp_all add: db_inv_def)
  have disj: "set (take (length ?ks - td_max db) ?ks) \<inter> set (others_left key db) = {}"
    using d(1) distinct_append [of "take (length ?ks - td_max db) ?ks" "others_left key db"] app by simp
  have un: "set (take (length ?ks - td_max db) ?ks) \<union> set (others_left key db) = set (td_list db) - {key}"
    using d(2) app by (metis set_append)
  have ls: "k \<in> set (td_list db) \<longleftrightarrow> om_get (td_map db) k \<noteq> None" using assms(1) by (simp add: db_inv_def)
  show "om_get (td_map db') k = (if k = key then Some (case om_get (td_map db) key of None \<Rightarrow> val | Some old \<Rightarrow> old)
       else if k \<in> set (others_left key db) then om_get (td_map db) k else None)"
    unfolding db'(2) om_get_fold_del using disj un ls by (auto split: option.split)
qed

text \<open>
  Property C39 (session_store_bounded): however TLS sessions are stored and removed, the store holds at most one entry more than its
  limit, none with more than 5000 bytes of key or data, and the list that orders them names exactly the entries, each once. A
  store succeeds exactly within these sizes, else it changes nothing; it makes its key the newest, keeps of the other entries the
  newest, as many as the limit, with their data, and removes the rest; a key that was there already keeps its old data
  (\<open>second_store_keeps_old\<close>). Retrieving an unknown key or empty data gives the empty datum; retrieving anything else ends in an access
  to an invalid address (\<open>None\<close>; \<open>retrieve_faults\<close>).
\<close>

theorem session_store_bounded:
  assumes "db_run m db"
  shows "length (td_map db) \<le> m + 1 \<and> distinct (td_list db) \<and> set (td_list db) = fst ` set (td_map db)
    \<and> (\<forall>e \<in> set (td_map db). length (fst e) \<le> 5000 \<and> length (snd e) \<le> 5000)
    \<and> (case TlsSessionDB_store key val db of (r, db') \<Rightarrow>
         if length key > 5000 \<or> length val > 5000 then r = - 1 \<and> db' = db
         else r = 0 \<and> td_list db' = others_left key db @ [key] \<and>
           (\<forall>k. om_get (td_map db') k = (if k = key then Some (case om_get (td_map db) key of None \<Rightarrow> val | Some old \<Rightarrow> old)
              else if k \<in> set (others_left key db) then om_get (td_map db) k else None)))
    \<and> TlsSessionDB_retrieve key db =
        (case om_get (td_map db) key of None \<Rightarrow> Some [] | Some v \<Rightarrow> if v = [] then Some [] else None)"
proof -
  from db_run_inv [OF assms] have i: "db_inv db" "td_max db = m" by auto
  obtain r db' where st: "TlsSessionDB_store key val db = (r, db')" by fastforce
  have "set (td_list db) = fst ` set (td_map db)" using i(1) by (auto simp: db_inv_def om_get_def map_of_eq_None_iff)
  moreover have "\<forall>e \<in> set (td_map db). length (fst e) \<le> 5000 \<and> length (snd e) \<le> 5000"
  proof
    fix e assume "e \<in> set (td_map db)"
    then have "om_get (td_map db) (fst e) = Some (snd e)" using i(1) om_get_iff [of "td_map db" "fst e" "snd e"] by (simp add: db_inv_def)
    then show "length (fst e) \<le> 5000 \<and> length (snd e) \<le> 5000" using i(1) by (simp add: db_inv_def TLS_DB_MAX_ENTRY_SIZE_def)
  qed
  moreover have "if length key > 5000 \<or> length val > 5000 then r = - 1 \<and> db' = db else r = 0"
    using st by (auto simp: TlsSessionDB_store_def TLS_DB_MAX_ENTRY_SIZE_def Let_def split: if_splits prod.splits)
  moreover have "TlsSessionDB_retrieve key db = (case om_get (td_map db) key of None \<Rightarrow> Some [] | Some v \<Rightarrow> if v = [] then Some [] else None)"
    by (simp add: TlsSessionDB_retrieve_def datum_of_def split: option.split)
  ultimately show ?thesis
    using i db_inv_size [OF i(1)] st store_effect [OF i(1), of key val db'] by (auto simp: db_inv_def split: if_splits)
qed

theorem session_store_bounded_witness:
  "db_run 1 (snd (TlsSessionDB_store [3] [30] (snd (TlsSessionDB_store [2] [20] (snd (TlsSessionDB_store [1] [10] (TlsSessionDB_new 1)))))))
   \<and> length (td_map (snd (TlsSessionDB_store [3] [30] (snd (TlsSessionDB_store [2] [20] (snd (TlsSessionDB_store [1] [10] (TlsSessionDB_new 1)))))))) \<le> 2"
proof -
  have r: "db_run 1 (snd (TlsSessionDB_store [3] [30] (snd (TlsSessionDB_store [2] [20] (snd (TlsSessionDB_store [1] [10] (TlsSessionDB_new 1)))))))"
    by (intro db_run.store [OF _ prod.collapse [symmetric]] db_run.created)
  show ?thesis using conjunct1 [OF session_store_bounded [OF r]] r by simp
qed

text \<open>The limit is exceeded by one, a second store of a key keeps the old data, and data that was stored can not be read back.\<close>

lemma store_exceeds_limit:
  "length (td_map (snd (TlsSessionDB_store [2] [20] (snd (TlsSessionDB_store [1] [10] (TlsSessionDB_new 1)))))) = 2"
  by code_simp

lemma second_store_keeps_old:
  "TlsSessionDB_store key val db = (0, db') \<Longrightarrow> om_get (td_map db) key = Some old \<Longrightarrow> om_get (td_map db') key = Some old"
  using store_found by fastforce

lemma retrieve_faults: "om_get (td_map db) key = Some val \<Longrightarrow> val \<noteq> [] \<Longrightarrow> TlsSessionDB_retrieve key db = None"
  by (simp add: TlsSessionDB_retrieve_def datum_of_def)

section \<open>Which clients are accepted\<close>

lemma check_certs_zero:
  "check_certs g bl cs = 0 \<longleftrightarrow>
   (\<forall>c \<in> set cs. x_import g c = 0 \<and> (if bl = [] then x_print g c = 0 else fst (x_key_id g c) = 0 \<and> snd (x_key_id g c) \<noteq> [] \<and> snd (x_key_id g c) \<notin> set bl))"
  by (induction g bl cs rule: check_certs.induct) (auto split: prod.splits)

lemma verify_client_iff:
  "gnutls_verify_client g bl peers = 0 \<longleftrightarrow>
   (\<exists>cs. peers = Some cs \<and> cs \<noteq> [] \<and> x_init g = 0 \<and> x_verify g = (0, 0)
      \<and> (\<forall>c \<in> set cs. x_import g c = 0 \<and> (if bl = [] then x_print g c = 0 else fst (x_key_id g c) = 0 \<and> snd (x_key_id g c) \<noteq> [] \<and> snd (x_key_id g c) \<notin> set bl)))"
  unfolding gnutls_verify_client_def check_certs_zero [symmetric] by (auto simp: Let_def split: option.splits prod.splits)

text \<open>The files that the traversal of a directory reaches.\<close>

fun files_below :: "string \<Rightarrow> fnode \<Rightarrow> (string \<times> fnode) list"
  and entries_below :: "string \<Rightarrow> (string \<times> fnode) list \<Rightarrow> (string \<times> fnode) list" where
  "files_below path (FDir es) = entries_below path es"
| "files_below path (FReg n) = [(path, FReg n)]"
| "files_below path FNone = [(path, FNone)]"
| "entries_below path [] = []"
| "entries_below path ((d_name, f) # es) =
     (if take 1 d_name \<noteq> ''.'' then files_below (path @ ''/'' @ d_name) f else []) @ entries_below path es"

lemma parseCertConfigDir_fold:
  "Main_parseCertConfigDir load path f m = fold (\<lambda>(q, f). load q f) (files_below path f) m"
  "cert_entries load path es m = fold (\<lambda>(q, f). load q f) (entries_below path es) m"
  by (induction load path f m and load path es m rule: Main_parseCertConfigDir_cert_entries.induct) auto

text \<open>A file names a key when it is not a list of revoked certificates, that is absent, empty or not regular.\<close>

definition names_key :: "fnode \<Rightarrow> bool" where
  "names_key f = (case f of FReg n \<Rightarrow> n = 0 | _ \<Rightarrow> True)"

definition crl_files :: "tls_env \<Rightarrow> config \<Rightarrow> (string \<times> fnode) list" where
  "crl_files e crl = concat (map (\<lambda>item. let path = c_text (Config_toString [] item) in files_below path (te_fs e path)) (items_of crl))"

lemma loadCrlFile_blacklist:
  "set (mt_blacklist (fold (\<lambda>(q, f). Main_loadCrlFile q f) fs m)) =
   set (mt_blacklist m) \<union> {datum_of_hex (2 ^ 32 - 1) (basename q) | q f. (q, f) \<in> set fs \<and> names_key f}"
proof (induction fs arbitrary: m)
  case (Cons x fs)
  obtain q f where x: "x = (q, f)" by (cases x)
  have "set (mt_blacklist (Main_loadCrlFile q f m)) = set (mt_blacklist m) \<union> (if names_key f then {datum_of_hex (2 ^ 32 - 1) (basename q)} else {})"
    by (auto simp: Main_loadCrlFile_def names_key_def split: fnode.split)
  then show ?case using Cons [of "Main_loadCrlFile q f m"] x by auto
qed auto

lemma fold_concat_map: "fold g (concat (map h xs)) m = fold (\<lambda>x. fold g (h x)) xs m"
  by (induction xs arbitrary: m) auto

lemma parseCertConfigItem_proper:
  assumes "Config_bool conf" and "proper conf"
  shows "Main_parseCertConfigItem (te_fs e) conf load m = Some (fold (\<lambda>(q, f). load q f) (crl_files e conf) (m\<lparr>mt_verifyClient := True\<rparr>))"
  using assms by (simp add: Main_parseCertConfigItem_def each_item_all crl_files_def fold_concat_map parseCertConfigDir_fold Let_def)

lemma each_item_invariant:
  assumes "\<And>item m. P m \<Longrightarrow> P (act item m)" and "each_item act c i m = Some m'" and "P m"
  shows "P m'"
proof -
  have "(\<forall>item m. P m \<longrightarrow> P (act item m)) \<longrightarrow> P m \<longrightarrow> P m'"
  proof (rule each_item.raw_induct [OF _ assms(2)])
    fix f act c i m y
    assume IH: "\<And>act c i m y. f act c i m = Some y \<Longrightarrow> (\<forall>item m. P m \<longrightarrow> P (act item m)) \<longrightarrow> P m \<longrightarrow> P y"
      and b: "(case Config_index c i of None \<Rightarrow> None | Some item \<Rightarrow> if Config_bool item then f act c (Suc i) (act item m) else Some m) = Some y"
    show "(\<forall>item m. P m \<longrightarrow> P (act item m)) \<longrightarrow> P m \<longrightarrow> P y"
    proof (cases "Config_index c i")
      case (Some item)
      then show ?thesis using b IH [of act c "Suc i" "act item m" y] by (auto split: if_splits)
    qed (use b in simp)
  qed
  then show ?thesis using assms by blast
qed

lemma trust_keeps_blacklist:
  assumes "Main_parseCertConfigItem fs conf Main_loadTrustFile m = Some m'"
  shows "mt_blacklist m' = mt_blacklist m"
proof (cases "Config_bool conf")
  case True
  have f: "mt_blacklist (fold (\<lambda>(q, f). Main_loadTrustFile q f) xs k) = mt_blacklist k" for xs k
    by (induction xs arbitrary: k) (auto simp: Main_loadTrustFile_def)
  show ?thesis
    by (rule each_item_invariant [where P = "\<lambda>k. mt_blacklist k = mt_blacklist m", OF _ assms [unfolded Main_parseCertConfigItem_def, simplified True, simplified]])
      (simp_all add: Let_def parseCertConfigDir_fold f)
qed (use assms in \<open>simp add: Main_parseCertConfigItem_def\<close>)

lemma loadCrlFile_verify: "mt_verifyClient (Main_loadCrlFile q f m) = mt_verifyClient m"
  by (cases f) (simp_all add: Main_loadCrlFile_def)

lemma setup_blacklist:
  assumes "Main_setupTLS e tlsConf = Some (0, m)" and "Config_bool tlsConf" and "Config_key tlsConf ''crl'' = Some crl" and "Config_bool crl" and "proper crl"
  shows "mt_verifyClient m" and "set (mt_blacklist m) = {datum_of_hex (2 ^ 32 - 1) (basename q) | q f. (q, f) \<in> set (crl_files e crl) \<and> names_key f}"
proof -
  have v: "mt_verifyClient (fold (\<lambda>(q, f). Main_loadCrlFile q f) xs k) = mt_verifyClient k" for xs k
    by (induction xs arbitrary: k) (simp_all add: case_prod_unfold loadCrlFile_verify)
  obtain m1 where m1: "setup_certs e tlsConf m1 = Some m" "mt_blacklist m1 = []"
    using assms(1,2) by (auto simp: Main_setupTLS_def Option.bind_eq_Some_conv Let_def split: if_split_asm)
  then obtain ca m2 where m: "Main_parseCertConfigItem (te_fs e) ca Main_loadTrustFile m1 = Some m2" "mt_blacklist m1 = []"
    "Main_parseCertConfigItem (te_fs e) crl Main_loadCrlFile m2 = Some m"
    using assms(3) by (auto simp: setup_certs_def Option.bind_eq_Some_conv)
  then have "m = fold (\<lambda>(q, f). Main_loadCrlFile q f) (crl_files e crl) (m2\<lparr>mt_verifyClient := True\<rparr>)" "mt_blacklist m2 = []"
    using parseCertConfigItem_proper [OF assms(4,5)] trust_keeps_blacklist by auto
  then show "mt_verifyClient m" "set (mt_blacklist m) = {datum_of_hex (2 ^ 32 - 1) (basename q) | q f. (q, f) \<in> set (crl_files e crl) \<and> names_key f}"
    by (simp_all add: v loadCrlFile_blacklist)
qed

text \<open>
  Property C38 (blacklisted_client_refused): when the set up has read a list of keys, given by the names of files that are absent or
  empty, anywhere below the directories the configuration names, then a client whose chain contains a certificate with such a
  key is refused, whatever else it sends; and no client is accepted without certificates that the library has verified.
\<close>

theorem blacklisted_client_refused:
  assumes "Main_setupTLS e tlsConf = Some (0, m)" and "Config_bool tlsConf" and "Config_key tlsConf ''crl'' = Some crl" and "Config_bool crl" and "proper crl"
    and "(q, f) \<in> set (crl_files e crl)" and "names_key f" and "basename q = datum_hex kid" and "length kid \<le> 100"
    and "c \<in> set cs" and "x_key_id g c = (0, kid)"
  shows "client_result m g (Some cs) \<noteq> 0 \<and> (\<forall>peers. client_result m g peers = 0 \<longrightarrow> (\<exists>ds. peers = Some ds \<and> ds \<noteq> [] \<and> x_verify g = (0, 0)))"
proof -
  note b = setup_blacklist [OF assms(1-5)]
  have "datum_of_hex (2 ^ 32 - 1) (basename q) = kid" using assms(8,9) by (simp add: datum_of_hex_roundtrip)
  then have kid: "kid \<in> set (mt_blacklist m)" unfolding b(2) using assms(6,7) by blast
  then have "client_result m g (Some cs) \<noteq> 0"
    using assms(10,11) b(1) by (auto simp: client_result_def verify_client_iff dest!: bspec [of _ _ c])
  moreover have "\<exists>ds. peers = Some ds \<and> ds \<noteq> [] \<and> x_verify g = (0, 0)" if "client_result m g peers = 0" for peers
    using that b(1) by (auto simp: client_result_def verify_client_iff)
  ultimately show ?thesis by blast
qed

text \<open>A configuration whose list of revoked keys is the one key \<open>0a\<close>.\<close>

definition key_doc :: ydoc where
  "key_doc n = (if n = 1 then Some (YAML_SCALAR_NODE ''crl'') else if n = 2 then Some (YAML_SCALAR_NODE ''0a'') else None)"

definition key_config :: config where
  "key_config = Config_at (Some key_doc) (Some (YAML_MAPPING_NODE [(1, 2)]))"

definition key_env :: tls_env where
  "key_env = \<lparr>te_global_init = 0, te_dh_init = 0, te_dh_file = \<lambda>_. None, te_dh_import = \<lambda>_. 0, te_dh_generate = \<lambda>_. 0,
     te_priority = \<lambda>_. 0, te_credentials = 0, te_key_file = \<lambda>_ _. 0, te_fs = \<lambda>_. FNone\<rparr>"

definition key_x509 :: "datum_string x509" where
  "key_x509 = \<lparr>x_init = 0, x_import = \<lambda>_. 0, x_print = \<lambda>_. 0, x_key_id = \<lambda>c. (0, c), x_verify = (0, 0)\<rparr>"

lemmas key_defs = key_doc_def key_config_def key_env_def key_x509_def Config_at_def Config_new_def Config_copy_def Config_key_def
  Config_bool_def Config_toString_def Config_toUInt_def c_text_def

definition key_crl :: config where
  "key_crl = Config_at (Some key_doc) (key_doc 2)"

definition key_main :: main_tls where
  "key_main = \<lparr>mt_db = Some (TlsSessionDB_new TLS_DB_SIZE), mt_blacklist = [[0x0a]], mt_verifyClient = True, mt_trust = [], mt_crl = []\<rparr>"

lemma key_crl_files: "crl_files key_env key_crl = [(''0a'', FNone)]"
  by (simp add: crl_files_def items_of_def key_crl_def key_defs Let_def)

lemma key_lookup: "Config_key key_config k = Some (if length k = 3 \<and> c_text ''crl'' = c_text k then key_crl else Config_new)"
  by (simp add: Config_key_def key_config_def Config_at_def key_crl_def key_doc_def)

lemma key_name: "basename ''0a'' = datum_hex [0x0a]"
  by code_simp

lemma key_setup: "Main_setupTLS key_env key_config = Some (0, key_main)"
proof -
  have p: "proper key_crl" "Config_bool key_crl" by (simp_all add: proper_def key_crl_def key_defs)
  have crl: "Config_key key_config ''crl'' = Some key_crl" by (simp add: key_lookup)
  have k: "Config_key key_config ''loglevel'' = Some Config_new" "Config_key key_config ''dh'' = Some Config_new"
    "Config_key key_config ''dh-bits'' = Some Config_new" "Config_key key_config ''priority'' = Some Config_new"
    "Config_key key_config ''cert'' = Some Config_new" "Config_key key_config ''key'' = Some Config_new" "Config_key key_config ''ca'' = Some Config_new"
    by (simp_all add: key_lookup c_text_def)
  have "datum_of_hex 4294967295 (basename ''0a'') = [0x0a]" using key_name datum_of_hex_roundtrip [of "[0x0a]" 4294967295] by simp
  then have "Main_loadCrlFile ''0a'' FNone (key_main\<lparr>mt_blacklist := []\<rparr>) = key_main"
    by (simp add: Main_loadCrlFile_def key_main_def insort_insert_key_def)
  then have "Main_parseCertConfigItem (te_fs key_env) key_crl Main_loadCrlFile (key_main\<lparr>mt_blacklist := [], mt_verifyClient := False\<rparr>) = Some key_main"
    using parseCertConfigItem_proper [OF p(2,1), of key_env Main_loadCrlFile] by (simp add: key_crl_files key_main_def)
  moreover have "Main_parseCertConfigItem (te_fs key_env) Config_new Main_loadTrustFile (key_main\<lparr>mt_blacklist := [], mt_verifyClient := False\<rparr>)
      = Some (key_main\<lparr>mt_blacklist := [], mt_verifyClient := False\<rparr>)"
    by (simp add: Main_parseCertConfigItem_def Config_bool_def Config_new_def)
  ultimately have c: "setup_certs key_env key_config (key_main\<lparr>mt_blacklist := [], mt_verifyClient := False\<rparr>) = Some key_main"
    by (simp only: setup_certs_def k crl Option.bind.bind_lunit)
  have "setup_dh key_env key_config = Some 0" "setup_credentials key_env key_config = Some 0"
    by (simp_all only: setup_dh_def setup_credentials_def k Option.bind.bind_lunit) (simp_all add: key_env_def Config_bool_def Config_new_def)
  moreover have "te_global_init key_env = 0" "te_dh_init key_env = 0" "Config_bool key_config" by (simp_all add: key_defs)
  ultimately show ?thesis using c by (simp add: Main_setupTLS_def k(1) key_main_def)
qed

theorem blacklisted_client_refused_witness:
  "Main_setupTLS key_env key_config = Some (0, key_main) \<and> client_result key_main key_x509 (Some [[1], [0x0a]]) \<noteq> 0"
proof -
  have "(''0a'', FNone) \<in> set (crl_files key_env key_crl)" by (simp add: key_crl_files)
  moreover have "Config_bool key_config" "Config_key key_config ''crl'' = Some key_crl" "Config_bool key_crl" "proper key_crl"
    by (simp_all add: proper_def key_crl_def key_defs)
  ultimately show ?thesis
    using blacklisted_client_refused [OF key_setup, of key_crl "''0a''" FNone "[0x0a]" "[0x0a]" "[[1], [0x0a]]" key_x509] key_setup key_name
    by (simp add: names_key_def key_x509_def)
qed

end
