(* ===== verification/Buddy.thy ===== *)
theory Buddy
  imports Event_Log Yaml_Config Std_Map
begin

text \<open>
  \<open>src/buddy\<close>: the server for applications that run in the kernel. The kernel module takes snapshots (photos) of the memory of the
  application in a cyclic album and tells how far it is; the buddy numbers them and its sessions follow the numbers. The
  structures of the module (\<open>signal_info\<close>), its answers to \<open>ioctl\<close> and the comparison of floating point numbers are
  arguments. Log messages are left out.
\<close>

section \<open>Signals and parameters of the module\<close>

datatype si_type =
    si_boolean_T | si_uint8_T | si_sint8_T | si_uint16_T | si_sint16_T | si_uint32_T | si_sint32_T | si_double_T | si_single_T | si_other_T

text \<open>The members that are used; \<open>si_col_major\<close> is true for \<open>si_matrix_col_major\<close>.\<close>

record signal_info =
  si_path :: string
  si_name :: string
  si_alias :: string
  si_port :: nat
  si_dim0 :: nat
  si_dim1 :: nat
  si_data_type :: si_type
  si_col_major :: bool
  si_offset :: nat

fun SignalInfo_dataType :: "si_type \<Rightarrow> dtype" where
  "SignalInfo_dataType si_boolean_T = PrimaryType C_bool"
| "SignalInfo_dataType si_uint8_T = PrimaryType C_uint8"
| "SignalInfo_dataType si_sint8_T = PrimaryType C_int8"
| "SignalInfo_dataType si_uint16_T = PrimaryType C_uint16"
| "SignalInfo_dataType si_sint16_T = PrimaryType C_int16"
| "SignalInfo_dataType si_uint32_T = PrimaryType C_uint32"
| "SignalInfo_dataType si_sint32_T = PrimaryType C_int32"
| "SignalInfo_dataType si_double_T = PrimaryType C_double"
| "SignalInfo_dataType si_single_T = PrimaryType C_float"
| "SignalInfo_dataType si_other_T = PrimaryType C_double"

definition SignalInfo_dim :: "signal_info \<Rightarrow> nat \<times> nat" where
  "SignalInfo_dim si =
     (if si_dim0 si = 1 \<or> si_dim1 si = 1 then (si_dim0 si * si_dim1 si, 0)
      else if si_col_major si then (si_dim1 si, si_dim0 si) else (si_dim0 si, si_dim1 si))"

definition SignalInfo_ndim :: "signal_info \<Rightarrow> nat" where
  "SignalInfo_ndim si = of_bool (fst (SignalInfo_dim si) > 0) + of_bool (snd (SignalInfo_dim si) > 0)"

text \<open>\<open>simulink_port\<close>: the configuration option \<open>HAVE_SIMULINK_PORT\<close>.\<close>

definition SignalInfo_path :: "bool \<Rightarrow> signal_info \<Rightarrow> string" where
  "SignalInfo_path simulink_port si =
     (if si_path si \<noteq> [] then ''/'' @ si_path si else []) @ ''/'' @ si_name si
     @ (if simulink_port \<and> si_port si \<noteq> 0 then ''/'' @ (if si_alias si \<noteq> [] then si_alias si else show_nat (si_port si - 1)) else [])"

text \<open>A signal, or a parameter: path, type, extents and the offset in a photo or in the parameters.\<close>

record buddy_var =
  bv_path :: string
  bv_dtype :: dtype
  bv_dim :: "nat list"
  bv_offset :: nat
  bv_memSize :: nat

definition Signal_of_info :: "bool \<Rightarrow> signal_info \<Rightarrow> buddy_var" where
  "Signal_of_info simulink_port si =
     (let d = SignalInfo_dim si; dim = take (SignalInfo_ndim si) [fst d, snd d]; ty = SignalInfo_dataType (si_data_type si)
      in \<lparr>bv_path = SignalInfo_path simulink_port si, bv_dtype = ty, bv_dim = dim, bv_offset = si_offset si, bv_memSize = nelem dim * dt_size ty\<rparr>)"

section \<open>The album\<close>

text \<open>\<open>photoReady\<close> and \<open>photoCount\<close>, and the photos themselves, which the module writes.\<close>

record 'p album =
  al_ready :: "u32 list"
  al_count :: u32
  al_photos :: "'p list"

definition album_new :: "'p list \<Rightarrow> 'p album" where
  "album_new photos = \<lparr>al_ready = replicate (length photos) 0, al_count = 0, al_photos = photos\<rparr>"

text \<open>One iteration of the loop over new photos in \<open>serve\<close>. \<open>None\<close>: outside of the array.\<close>

definition mark_photo :: "nat \<Rightarrow> 'p album \<Rightarrow> 'p album option" where
  "mark_photo i al =
     (if i < length (al_ready al) then Some (al\<lparr>al_ready := (al_ready al)[i := al_count al], al_count := al_count al + 1\<rparr>) else None)"

text \<open>
  The loop from \<open>photoPtr\<close> to the write pointer \<open>wp\<close> of the module, with the test for events as \<open>test\<close> and the
  index of the last photo.
\<close>

fun mark_photos :: "(nat \<Rightarrow> 'p album \<Rightarrow> 's \<Rightarrow> 's) \<Rightarrow> nat list \<Rightarrow> nat \<Rightarrow> 'p album \<Rightarrow> 's \<Rightarrow> (nat \<times> 'p album \<times> 's) option" where
  "mark_photos test [] readPointer al s = Some (readPointer, al, s)"
| "mark_photos test (i # is) readPointer al s =
     Option.bind (mark_photo i al) (\<lambda>al1. mark_photos test is i al1 (test i al1 s))"

text \<open>
  New data: \<open>wp\<close> is the answer to \<open>GET_WRITE_PTRS\<close>, \<open>reset\<close> that to \<open>RESET_BLOCKIO_RP\<close>, \<open>rp\<close> that to \<open>SET_BLOCKIO_RP\<close>. The result is the
  new \<open>photoPtr\<close> and \<open>readPointer\<close>.
\<close>

definition serve_data ::
  "(nat \<Rightarrow> 'p album \<Rightarrow> 's \<Rightarrow> 's) \<Rightarrow> int \<Rightarrow> int \<Rightarrow> (int \<Rightarrow> int) \<Rightarrow> int \<Rightarrow> nat \<Rightarrow> 'p album \<Rightarrow> 's \<Rightarrow> (int \<times> nat \<times> 'p album \<times> 's) option" where
  "serve_data test wp reset rp photoPtr readPointer al s =
     (if wp = - 28 then Some (reset, readPointer, al, s)
      else if photoPtr < 0 \<and> photoPtr < wp then None
      else map_option (\<lambda>(r, al1, s1). (rp wp, r, al1, s1)) (mark_photos test [nat photoPtr..<nat wp] readPointer al s))"

section \<open>A session follows the album\<close>

text \<open>\<open>pr_current\<close> and \<open>pr_next\<close> are indices into \<open>photoReady\<close>, \<open>pr_photo\<close> is an offset in the album.\<close>

record photo_reader =
  pr_current :: nat
  pr_next :: nat
  pr_photo :: nat

definition photo_rxPdo :: "nat \<Rightarrow> 'p album \<Rightarrow> photo_reader \<Rightarrow> (bool \<times> photo_reader) option" where
  "photo_rxPdo photoSize al r =
     (let ready = al_ready al in
      if pr_next r \<ge> length ready \<or> pr_current r \<ge> length ready then None
      else if ready ! pr_next r - ready ! pr_current r \<noteq> 1 then Some (False, r)
      else let current = pr_next r; nxt = (if Suc current = length ready then 0 else Suc current)
           in Some (True, \<lparr>pr_current = current, pr_next = nxt, pr_photo = (if current = 0 then 0 else pr_photo r + photoSize)\<rparr>))"

partial_function (option) rx_all :: "nat \<Rightarrow> 'p album \<Rightarrow> photo_reader \<Rightarrow> photo_reader option" where
  "rx_all photoSize al r =
     (case photo_rxPdo photoSize al r of
        None \<Rightarrow> None | Some (received, r1) \<Rightarrow> if received then rx_all photoSize al r1 else Some r1)"

definition photo_reader_new :: "nat \<Rightarrow> 'p album \<Rightarrow> photo_reader option" where
  "photo_reader_new photoSize al = rx_all photoSize al \<lparr>pr_current = 0, pr_next = 1, pr_photo = 0\<rparr>"

text \<open>The photo a session looks at.\<close>

definition reader_photo :: "nat \<Rightarrow> 'p album \<Rightarrow> photo_reader \<Rightarrow> 'p" where
  "reader_photo photoSize al r = al_photos al ! (pr_photo r div photoSize)"

section \<open>Events\<close>

definition getPriority :: "string \<Rightarrow> priority" where
  "getPriority prio =
     (if prio = ''emergency'' then Emergency
      else if prio = ''alert'' then Alert
      else if prio = ''critical'' then Critical
      else if prio = ''error'' then Error
      else if prio = ''warning'' then Warning
      else if prio = ''notice'' then Notice
      else if prio = ''info'' then Info
      else Debug)"

text \<open>
  \<open>Event::test\<close> for all elements: what triggered, the time stamps of the triggered elements, the new values. \<open>gt\<close> is \<open>>\<close> of
  floating point numbers and \<open>nz\<close> is true for numbers other than zero.
\<close>

fun Event_test :: "('d \<Rightarrow> 'd \<Rightarrow> bool) \<Rightarrow> ('d \<Rightarrow> bool) \<Rightarrow> 'd list \<Rightarrow> 'd list \<Rightarrow> (int \<times> 'd) list \<times> 'd list" where
  "Event_test gt nz (s # src) (v # vs) =
     (let (ts, ns) = Event_test gt nz src vs
      in ((of_bool (gt s v) - of_bool (gt v s), if nz s then s else v) # ts, s # ns))"
| "Event_test gt nz _ _ = ([], [])"

text \<open>The queue is a cyclic array (\<open>wring\<close>). \<open>EventQ_put\<close> is one entry; \<open>None\<close> stands for a write outside of the array.\<close>

type_synonym event_q = "event_data wring"

definition EventQ_new :: "nat \<Rightarrow> event_q" where
  "EventQ_new eventCount = \<lparr>wr_slots = replicate eventCount EventData_new, wr_wp = 0\<rparr>"

definition EventQ_put :: "event_data \<Rightarrow> event_q \<Rightarrow> event_q option" where
  "EventQ_put d q = (if wr_wp q < length (wr_slots q) then Some (wring_write d q) else None)"

text \<open>The loop over the elements; \<open>ts\<close> converts a number of seconds.\<close>

fun EventQ_loop :: "('d \<Rightarrow> timespec) \<Rightarrow> nat \<Rightarrow> nat \<Rightarrow> (int \<times> 'd) list \<Rightarrow> event_q \<Rightarrow> event_q option" where
  "EventQ_loop ts e i [] q = Some q"
| "EventQ_loop ts e i ((trig, t) # xs) q =
     (if trig = 0 then EventQ_loop ts e (Suc i) xs q
      else Option.bind (EventQ_put \<lparr>ed_event = Some e, ed_index = i, ed_state = (trig = 1), ed_time = ts t\<rparr> q) (EventQ_loop ts e (Suc i) xs))"

definition EventQ_test ::
  "('d \<Rightarrow> 'd \<Rightarrow> bool) \<Rightarrow> ('d \<Rightarrow> bool) \<Rightarrow> ('d \<Rightarrow> timespec) \<Rightarrow> nat \<Rightarrow> 'd list \<Rightarrow> 'd list \<Rightarrow> event_q \<Rightarrow> ('d list \<times> event_q) option" where
  "EventQ_test gt nz ts e src val q =
     (let (triggered, val1) = Event_test gt nz src val
      in map_option (Pair val1) (if \<exists>x \<in> set triggered. fst x \<noteq> 0 then EventQ_loop ts e 0 triggered q else Some q))"

text \<open>The loop of \<open>serve\<close> over all events for one photo: their numbers with the values in the photo.\<close>

fun EventQ_test_all ::
  "('d \<Rightarrow> 'd \<Rightarrow> bool) \<Rightarrow> ('d \<Rightarrow> bool) \<Rightarrow> ('d \<Rightarrow> timespec) \<Rightarrow> (nat \<times> 'd list) list \<Rightarrow> (nat \<Rightarrow> 'd list) \<Rightarrow> event_q \<Rightarrow> ((nat \<Rightarrow> 'd list) \<times> event_q) option" where
  "EventQ_test_all gt nz ts [] vals q = Some (vals, q)"
| "EventQ_test_all gt nz ts ((e, src) # es) vals q =
     Option.bind (EventQ_test gt nz ts e src (vals e) q) (\<lambda>(val, q1). EventQ_test_all gt nz ts es (vals(e := val)) q1)"

definition EventQ_getNextEvent :: "event_q \<Rightarrow> nat \<Rightarrow> (event_data \<times> nat) option" where
  "EventQ_getNextEvent q rp =
     (if rp = wr_wp q then None else Some (wr_slots q ! rp, ptr_inc (length (wr_slots q)) rp))"

definition EventQ_initialize :: "event_q \<Rightarrow> nat" where
  "EventQ_initialize q = wr_wp q"

section \<open>Set up\<close>

text \<open>The events of the configuration by their names.\<close>

definition event_map :: "config \<Rightarrow> (string, config) omap option" where
  "event_map eventList =
     Option.bind (each_item (\<lambda>conf mp. Option.bind mp (\<lambda>mp.
         map_option (\<lambda>name. om_put (Config_toString [] name) (Config_copy conf) mp) (Config_key conf ''name''))) eventList 0 (Some [])) id"

text \<open>The variables for which the module has a description; \<open>info\<close> is the answer to \<open>GET_PARAM_INFO\<close> or \<open>GET_SIGNAL_INFO\<close>.\<close>

definition known_infos :: "(nat \<Rightarrow> signal_info option) \<Rightarrow> nat \<Rightarrow> signal_info list" where
  "known_infos info n = concat (map (\<lambda>i. case info i of None \<Rightarrow> [] | Some si \<Rightarrow> if si_dim0 si = 0 then [] else [si]) [0..<n])"

record buddy_setup =
  bs_signals :: "buddy_var list"
  bs_events :: "event_obj list"
  bs_eventCount :: nat
  bs_eventMap :: "(string, config) omap"

definition add_signal :: "bool \<Rightarrow> signal_info \<Rightarrow> buddy_setup \<Rightarrow> buddy_setup option" where
  "add_signal simulink_port si b =
     (let s = Signal_of_info simulink_port si; b1 = b\<lparr>bs_signals := bs_signals b @ [s]\<rparr>
      in case om_get (bs_eventMap b) (bv_path s) of
           None \<Rightarrow> Some b1
         | Some conf \<Rightarrow>
             if primary_of (bv_dtype s) = double_T
             then map_option (\<lambda>prio.
                    let e = Event_new (bv_path s) (getPriority (Config_toString [] prio)) (nelem (bv_dim s))
                    in b1\<lparr>bs_events := bs_events b @ [e], bs_eventCount := bs_eventCount b + ev_nelem e,
                          bs_eventMap := om_put (bv_path s) Config_new (bs_eventMap b)\<rparr>)
                  (Config_key conf ''priority'')
             else Some b1)"

fun add_signals :: "bool \<Rightarrow> signal_info list \<Rightarrow> buddy_setup \<Rightarrow> buddy_setup option" where
  "add_signals simulink_port [] b = Some b"
| "add_signals simulink_port (si # sis) b = Option.bind (add_signal simulink_port si b) (add_signals simulink_port sis)"

text \<open>
  The parameters, the signals with the events, the names of events without a signal (only reported) and the queue of
  events.
\<close>

definition Main_postfork_nrt_setup ::
  "bool \<Rightarrow> config \<Rightarrow> (nat \<Rightarrow> signal_info option) \<Rightarrow> nat \<Rightarrow> (nat \<Rightarrow> signal_info option) \<Rightarrow> nat
   \<Rightarrow> (buddy_var list \<times> buddy_setup \<times> string list \<times> event_q) option" where
  "Main_postfork_nrt_setup simulink_port m_config param_info param_count signal_info_of signal_count =
     Option.bind (Config_key m_config ''events'') (\<lambda>eventList.
     Option.bind (event_map eventList) (\<lambda>mp.
     map_option (\<lambda>b. (map (Signal_of_info simulink_port) (known_infos param_info param_count), b,
                       map fst (filter (\<lambda>e. Config_bool (snd e)) (bs_eventMap b)), EventQ_new (bs_eventCount b * 2)))
       (add_signals simulink_port (known_infos signal_info_of signal_count)
         \<lparr>bs_signals = [], bs_events = [], bs_eventCount = 0, bs_eventMap = mp\<rparr>)))"

definition buddy_findParameter :: "buddy_var list \<Rightarrow> string \<Rightarrow> buddy_var option" where
  "buddy_findParameter ps path = find (\<lambda>p. bv_path p = path) ps"

section \<open>Values\<close>

text \<open>The value of a signal in the last photo; \<open>stat_time\<close> reads the time of the first task from a photo.\<close>

definition buddy_getValue :: "(u8 list \<Rightarrow> timespec) \<Rightarrow> u8 list album \<Rightarrow> nat \<Rightarrow> buddy_var \<Rightarrow> u8 list \<times> timespec" where
  "buddy_getValue stat_time al readPointer s =
     (let data = al_photos al ! readPointer in (take (bv_memSize s) (drop (bv_offset s) data), stat_time data))"

text \<open>\<open>parameterBuf\<close> and the times of the parameters, by their paths.\<close>

record buddy_params =
  bp_buf :: "u8 list"
  bp_mtime :: "string \<Rightarrow> timespec"

definition overwrite :: "nat \<Rightarrow> u8 list \<Rightarrow> u8 list \<Rightarrow> u8 list" where
  "overwrite a bs m = take a m @ bs @ drop (a + length bs) m"

text \<open>\<open>change\<close> is the answer to \<open>CHANGE_PARAM\<close>: zero, or the error number that \<open>setValue\<close> returns.\<close>

definition buddy_setValue :: "(nat \<Rightarrow> u8 list \<Rightarrow> int) \<Rightarrow> timespec \<Rightarrow> buddy_var \<Rightarrow> u8 list \<Rightarrow> nat \<Rightarrow> buddy_params \<Rightarrow> int \<times> buddy_params" where
  "buddy_setValue change now p buf offset st =
     (let addr = bv_offset p + offset; backup = take (length buf) (drop addr (bp_buf st)); m = overwrite addr buf (bp_buf st); err = change addr m
      in if err \<noteq> 0 then (err, st\<lparr>bp_buf := overwrite addr backup m\<rparr>)
         else (0, st\<lparr>bp_buf := m, bp_mtime := (bp_mtime st)(bv_path p := now)\<rparr>))"

text \<open>\<open>data\<close> is \<open>None\<close> for a null pointer; \<open>paired\<close>: the parameter takes the value of a signal.\<close>

definition buddy_initializeParameter ::
  "(nat \<Rightarrow> u8 list \<Rightarrow> int) \<Rightarrow> timespec \<Rightarrow> buddy_var \<Rightarrow> u8 list option \<Rightarrow> timespec \<Rightarrow> bool \<Rightarrow> buddy_params \<Rightarrow> buddy_params" where
  "buddy_initializeParameter change now p data mtime paired st =
     (case data of
        None \<Rightarrow> st
      | Some d \<Rightarrow>
          let st1 = st\<lparr>bp_mtime := (bp_mtime st)(bv_path p := mtime)\<rparr>
          in if paired \<and> (\<exists>b \<in> set (take (bv_memSize p) (drop (bv_offset p) (bp_buf st))). b \<noteq> 0) then st1
             else let v = take (bv_memSize p) d
                  in snd (buddy_setValue change now p v 0 (st1\<lparr>bp_buf := overwrite (bv_offset p) v (bp_buf st1)\<rparr>)))"

section \<open>The daemon\<close>

text \<open>
  One scan of the active applications: \<open>apps\<close> is the set of bits of the module, \<open>app\<close> the table of process numbers, \<open>serve\<close> the
  result of starting a buddy for an application. The second result is the processes that are sent \<open>SIGTERM\<close>.
\<close>

fun scan_apps :: "(nat \<Rightarrow> int) \<Rightarrow> nat \<Rightarrow> u32 \<Rightarrow> int list \<Rightarrow> int list \<times> int list" where
  "scan_apps serve app_id apps [] = ([], [])"
| "scan_apps serve app_id apps (a # app) =
     (if apps = 0 then (a # app, [])
      else let (a1, kills) =
                 (if bit apps 0 \<and> a = 0 then (if serve app_id \<le> 0 then 0 else serve app_id, [])
                  else if \<not> bit apps 0 \<and> a \<noteq> 0 then (0, [a]) else (a, []));
               (rest, ks) = scan_apps serve (Suc app_id) (drop_bit 1 apps) app
           in (a1 # rest, kills @ ks))"

text \<open>A child has ended; \<open>gone\<close>: the process does not exist any more. Only its first entry is cleared.\<close>

fun child_ended :: "int \<Rightarrow> bool \<Rightarrow> int list \<Rightarrow> int list" where
  "child_ended pid gone [] = []"
| "child_ended pid gone (a # app) = (if a = pid \<and> gone then 0 # app else a # child_ended pid gone app)"

datatype daemon_sig = SIGCHLD int bool | SIGHUP | SIGEND | SIGOTHER

text \<open>A signal: whether the daemon goes on, whether it scans again, and the table.\<close>

fun daemon_signal :: "daemon_sig \<Rightarrow> bool \<Rightarrow> int list \<Rightarrow> bool \<times> bool \<times> int list" where
  "daemon_signal (SIGCHLD pid gone) rescan app = (True, rescan, child_ended pid gone app)"
| "daemon_signal SIGHUP rescan app = (True, True, app)"
| "daemon_signal SIGEND rescan app = (False, rescan, app)"
| "daemon_signal SIGOTHER rescan app = (True, rescan, app)"

section \<open>Photos reach the sessions in order\<close>

text \<open>
  The album of \<open>N\<close> photos as the module and the buddy see it: the first photo has the place \<open>i0\<close>, the result of \<open>RESET_BLOCKIO_RP\<close> when
  the buddy started, and the others follow around the album (\<open>SET_BLOCKIO_RP\<close> answers the place behind the last one marked). \<open>w\<close> photos
  were written, the photo \<open>k\<close> with the content \<open>snap k\<close>, and \<open>k\<close> of them were marked. The module stays less than a round ahead of the
  buddy, so that it never answers \<open>-ENOSPC\<close>.
\<close>

definition place :: "nat \<Rightarrow> nat \<Rightarrow> nat \<Rightarrow> nat" where
  "place N i0 k = (i0 + k) mod N"

inductive photo_world :: "nat \<Rightarrow> nat \<Rightarrow> (nat \<Rightarrow> 'p) \<Rightarrow> nat \<Rightarrow> nat \<Rightarrow> 'p album \<Rightarrow> bool" for N i0 snap where
  start: "\<lbrakk>length ps = N; i0 < N\<rbrakk> \<Longrightarrow> photo_world N i0 snap 0 0 (album_new ps)"
| snap: "\<lbrakk>photo_world N i0 snap w k al; w + 1 < k + N\<rbrakk>
    \<Longrightarrow> photo_world N i0 snap (Suc w) k (al\<lparr>al_photos := (al_photos al)[place N i0 w := snap w]\<rparr>)"
| mark: "\<lbrakk>photo_world N i0 snap w k al; k < w; mark_photo (place N i0 k) al = Some al'\<rbrakk> \<Longrightarrow> photo_world N i0 snap w (Suc k) al'"

definition album_inv :: "nat \<Rightarrow> nat \<Rightarrow> (nat \<Rightarrow> 'p) \<Rightarrow> nat \<Rightarrow> nat \<Rightarrow> 'p album \<Rightarrow> bool" where
  "album_inv N i0 snap w k al \<longleftrightarrow>
     i0 < N \<and> length (al_ready al) = N \<and> length (al_photos al) = N \<and> al_count al = of_nat k \<and> k \<le> w \<and> w < k + N
     \<and> (\<forall>m. m < k \<longrightarrow> k \<le> m + N \<longrightarrow> al_ready al ! place N i0 m = of_nat m) \<and> (\<forall>j < N. k \<le> j \<longrightarrow> al_ready al ! place N i0 j = 0)
     \<and> (\<forall>m. m < w \<longrightarrow> w \<le> m + N \<longrightarrow> al_photos al ! place N i0 m = snap m)"

lemma place_less: "0 < N \<Longrightarrow> place N i0 k < N"
  by (simp add: place_def)

lemma place_window: "m < k \<Longrightarrow> k < m + N \<Longrightarrow> place N i0 k \<noteq> place N i0 m"
proof
  assume a: "m < k" "k < m + N" "place N i0 k = place N i0 m"
  then have "N dvd (i0 + k) - (i0 + m)" unfolding place_def by (metis add_le_cancel_left less_imp_le mod_eq_dvd_iff_nat)
  then show False using a by (auto dest: dvd_imp_le)
qed

lemma place_round: "N \<le> k \<Longrightarrow> place N i0 k = place N i0 (k - N)"
  by (simp add: place_def le_mod_geq add_diff_assoc)

lemma place_Suc: "0 < N \<Longrightarrow> place N i0 (Suc r) = (if Suc (place N i0 r) = N then 0 else Suc (place N i0 r))"
  by (simp add: place_def mod_Suc)

lemma window_update:
  assumes "\<forall>m. m < k \<longrightarrow> k \<le> m + N \<longrightarrow> xs ! place N i0 m = f m" and "length xs = N" and "0 < N"
  shows "\<forall>m. m < Suc k \<longrightarrow> Suc k \<le> m + N \<longrightarrow> xs[place N i0 k := f k] ! place N i0 m = f m"
proof (intro allI impI)
  fix m assume m: "m < Suc k" "Suc k \<le> m + N"
  show "xs[place N i0 k := f k] ! place N i0 m = f m"
  proof (cases "m = k")
    case True
    then show ?thesis using assms(2,3) place_less by simp
  next
    case False
    then show ?thesis using assms m place_window [of m k N i0] by simp
  qed
qed

lemma photo_world_inv: "photo_world N i0 snap w k al \<Longrightarrow> 0 < N \<Longrightarrow> album_inv N i0 snap w k al"
proof (induction rule: photo_world.induct)
  case (start ps)
  then show ?case by (simp add: album_inv_def album_new_def place_less)
next
  case (snap w k al)
  then have i: "album_inv N i0 snap w k al" by simp
  then have "\<forall>m. m < Suc w \<longrightarrow> Suc w \<le> m + N \<longrightarrow> (al_photos al)[place N i0 w := snap w] ! place N i0 m = snap m"
    by (intro window_update) (use snap in \<open>auto simp: album_inv_def\<close>)
  with i snap(2) show ?case by (simp add: album_inv_def)
next
  case (mark w k al al')
  then have i: "album_inv N i0 snap w k al" by simp
  have al': "al' = al\<lparr>al_ready := (al_ready al)[place N i0 k := of_nat k], al_count := of_nat (Suc k)\<rparr>"
    using mark(3) i by (auto simp: mark_photo_def album_inv_def split: if_splits)
  have "\<forall>m. m < Suc k \<longrightarrow> Suc k \<le> m + N \<longrightarrow> (al_ready al)[place N i0 k := of_nat k] ! place N i0 m = of_nat m"
    by (intro window_update) (use i mark.prems in \<open>auto simp: album_inv_def\<close>)
  moreover have "(al_ready al)[place N i0 k := of_nat k] ! place N i0 j = 0" if "j < N" "Suc k \<le> j" for j
    using that i place_window [of k j N i0] by (simp add: album_inv_def)
  ultimately show ?case using i mark(2) by (simp add: album_inv_def al')
qed

text \<open>The reader looks at photo \<open>r\<close>, or waits for it at its place.\<close>

definition at_photo :: "nat \<Rightarrow> nat \<Rightarrow> nat \<Rightarrow> nat \<Rightarrow> photo_reader \<Rightarrow> bool" where
  "at_photo N i0 sz r R \<longleftrightarrow> pr_current R = place N i0 r \<and> pr_next R = place N i0 (Suc r) \<and> pr_photo R = place N i0 r * sz"

lemma word_dist:
  assumes "0 < d" and "d < 2 ^ 32"
  shows "(of_nat d :: u32) \<noteq> 0"
proof
  assume "(of_nat d :: u32) = 0"
  then have "unat (of_nat d :: u32) = 0" by simp
  then show False using assms by (simp add: unsigned_of_nat take_bit_eq_mod)
qed

lemma next_ready:
  assumes i: "album_inv N i0 snap w k al" and N: "2 \<le> N" "N < 2 ^ 32" and r: "k \<le> r + N" "r < k \<or> r < N"
  shows "al_ready al ! place N i0 (Suc r) - al_ready al ! place N i0 r = 1 \<longleftrightarrow> Suc r < k"
proof (cases "r < k")
  case False
  then have rN: "r < N" "k \<le> r" using r by simp_all
  then have cur: "al_ready al ! place N i0 r = 0" using i by (simp add: album_inv_def)
  have "al_ready al ! place N i0 (Suc r) = 0"
  proof (cases "Suc r = N")
    case True
    then have "place N i0 (Suc r) = place N i0 0" using place_round [of N N i0] by simp
    moreover have "al_ready al ! place N i0 0 = 0" using i rN N by (cases "k = 0") (auto simp: album_inv_def)
    ultimately show ?thesis by simp
  qed (use i rN in \<open>simp add: album_inv_def\<close>)
  then show ?thesis using cur False by simp
next
  case rk: True
  then have cur: "al_ready al ! place N i0 r = of_nat r" using i r by (simp add: album_inv_def)
  show ?thesis
  proof (cases "Suc r < k")
    case True
    then have "al_ready al ! place N i0 (Suc r) = of_nat (Suc r)" using i r by (simp add: album_inv_def)
    then show ?thesis using True cur by simp
  next
    case last: False
    then have k: "k = Suc r" using rk by simp
    show ?thesis
    proof (cases "N \<le> k")
      case True
      have "al_ready al ! place N i0 (k - N) = of_nat (k - N)" using i True N by (simp add: album_inv_def)
      then have nx: "al_ready al ! place N i0 (Suc r) = of_nat (k - N)" using k place_round [OF True, of i0] by simp
      have "of_nat (k - N) - (of_nat r :: u32) = 1 - of_nat N" using True k by (simp add: of_nat_diff)
      then show ?thesis using cur nx last word_dist [of N] N by simp
    next
      case False
      then have nx: "al_ready al ! place N i0 (Suc r) = 0" using i k by (simp add: album_inv_def)
      have "(0 :: u32) - of_nat r = 1 \<longleftrightarrow> of_nat (Suc r) = (0 :: u32)" unfolding diff_eq_eq by auto
      then show ?thesis using cur nx last word_dist [of "Suc r"] False k N by simp
    qed
  qed
qed

lemma rxPdo_at:
  assumes i: "album_inv N i0 snap w k al" and N: "2 \<le> N" "N < 2 ^ 32" and r: "k \<le> r + N" "r < k \<or> r < N" and R: "at_photo N i0 sz r R"
  shows "\<exists>R'. photo_rxPdo sz al R = Some (Suc r < k, R') \<and> at_photo N i0 sz (if Suc r < k then Suc r else r) R'"
proof -
  have len: "length (al_ready al) = N" using i by (simp add: album_inv_def)
  have N0: "0 < N" using N by simp
  have m: "place N i0 (Suc (Suc r)) = (if Suc (place N i0 (Suc r)) = N then 0 else Suc (place N i0 (Suc r)))" by (rule place_Suc [OF N0])
  have p: "place N i0 (Suc r) * sz = (if place N i0 (Suc r) = 0 then 0 else place N i0 r * sz + sz)" using place_Suc [OF N0, of i0 r] by auto
  have b: "place N i0 r < N" "place N i0 (Suc r) < N" using N0 place_less by simp_all
  have e: "photo_rxPdo sz al R = (if Suc r < k then Some (True,
      \<lparr>pr_current = place N i0 (Suc r), pr_next = (if Suc (place N i0 (Suc r)) = N then 0 else Suc (place N i0 (Suc r))),
       pr_photo = (if place N i0 (Suc r) = 0 then 0 else place N i0 r * sz + sz)\<rparr>) else Some (False, R))"
    using R next_ready [OF i N r] by (simp add: photo_rxPdo_def at_photo_def Let_def len b [unfolded not_le [symmetric]])
  show ?thesis
  proof (cases "Suc r < k")
    case True
    then show ?thesis unfolding e by (simp add: at_photo_def m p)
  qed (use R in \<open>simp add: e\<close>)
qed

lemma rx_all_last:
  assumes i: "album_inv N i0 snap w k al" and N: "2 \<le> N" "N < 2 ^ 32" and "k \<le> r + N" "r < k \<or> r < N" and "at_photo N i0 sz r R"
  shows "\<exists>R'. rx_all sz al R = Some R' \<and> at_photo N i0 sz (max r (k - 1)) R'"
  using assms(4-6)
proof (induction "k - r" arbitrary: r R rule: less_induct)
  case less
  obtain R1 where x: "photo_rxPdo sz al R = Some (Suc r < k, R1)" "at_photo N i0 sz (if Suc r < k then Suc r else r) R1"
    using rxPdo_at [OF i N less.prems] by blast
  show ?case
  proof (cases "Suc r < k")
    case True
    then have "\<exists>R'. rx_all sz al R1 = Some R' \<and> at_photo N i0 sz (max (Suc r) (k - 1)) R'"
      using less.hyps [of "Suc r" R1] less.prems x(2) by simp
    moreover have "max (Suc r) (k - 1) = max r (k - 1)" using True by simp
    ultimately show ?thesis using x(1) True by (subst rx_all.simps) simp
  next
    case False
    then have "photo_rxPdo sz al R = Some (False, R)" using x(1) by (auto simp: photo_rxPdo_def Let_def split: if_splits)
    moreover have "max r (k - 1) = r" using False by simp
    ultimately show ?thesis using less.prems by (subst rx_all.simps) simp
  qed
qed

text \<open>The number of the first photo that gets the first place of the album, where every session starts to look.\<close>

definition first_photo :: "nat \<Rightarrow> nat \<Rightarrow> nat" where
  "first_photo N i0 = (N - i0) mod N"

text \<open>A session starts at the last photo, or waits for the one at the first place when there was none yet.\<close>

lemma photo_reader_new_last:
  assumes i: "album_inv N i0 snap w k al" and N: "2 \<le> N" "N < 2 ^ 32"
  shows "\<exists>R. photo_reader_new sz al = Some R \<and> at_photo N i0 sz (max (first_photo N i0) (k - 1)) R"
proof -
  let ?b = "first_photo N i0" and ?R = "\<lparr>pr_current = 0, pr_next = 1, pr_photo = 0\<rparr>"
  have i0: "i0 < N" using i by (simp add: album_inv_def)
  have b: "?b < N" using N by (simp add: first_photo_def)
  have d: "N dvd i0 + ?b" using i0 by (cases "i0 = 0") (simp_all add: first_photo_def)
  have at0: "at_photo N i0 sz (?b + q * N) ?R" for q
  proof -
    from d obtain c where "i0 + ?b = N * c" by (elim dvdE)
    then have "i0 + (?b + q * N) = N * (c + q)" "i0 + Suc (?b + q * N) = Suc (N * (c + q))" by (simp_all add: algebra_simps)
    then have "place N i0 (?b + q * N) = 0" "place N i0 (Suc (?b + q * N)) = 1" using N by (simp_all only: place_def) (simp_all add: mod_Suc)
    then show ?thesis by (simp add: at_photo_def)
  qed
  show ?thesis
  proof (cases "k \<le> ?b")
    case True
    from rx_all_last [OF i N, of ?b sz ?R] at0 [of 0] b True show ?thesis by (simp add: photo_reader_new_def)
  next
    case False
    let ?q = "(k - 1 - ?b) div N"
    let ?r = "?b + ?q * N"
    have r: "?r \<le> k - 1" "k - 1 < ?r + N"
      using N False div_mult_mod_eq [of "k - 1 - ?b" N] mod_less_divisor [of N "k - 1 - ?b"] by linarith+
    then have "\<exists>R. photo_reader_new sz al = Some R \<and> at_photo N i0 sz (max ?r (k - 1)) R"
      unfolding photo_reader_new_def using False by (intro rx_all_last [OF i N _ _ at0 [of ?q]]) auto
    moreover have "max ?r (k - 1) = max ?b (k - 1)" using r(1) False by simp
    ultimately show ?thesis by simp
  qed
qed

text \<open>
  A session together with the world: the number \<open>k0\<close> of photos marked when it attached, its reader, and the photos it received, as the
  signals are read from them. As long as the session is attached the module does not overwrite the photo at which it looks.
\<close>

inductive photo_session :: "nat \<Rightarrow> nat \<Rightarrow> nat \<Rightarrow> (nat \<Rightarrow> 'p) \<Rightarrow> nat \<Rightarrow> nat \<Rightarrow> nat \<Rightarrow> 'p album \<Rightarrow> photo_reader \<Rightarrow> 'p list \<Rightarrow> bool" for N i0 sz snap k0 where
  attach: "\<lbrakk>photo_world N i0 snap w k0 al; photo_reader_new sz al = Some R\<rbrakk> \<Longrightarrow> photo_session N i0 sz snap k0 w k0 al R []"
| snap: "\<lbrakk>photo_session N i0 sz snap k0 w k al R got; w + 1 < k + N; place N i0 w \<noteq> pr_current R \<or> w < N\<rbrakk>
    \<Longrightarrow> photo_session N i0 sz snap k0 (Suc w) k (al\<lparr>al_photos := (al_photos al)[place N i0 w := snap w]\<rparr>) R got"
| mark: "\<lbrakk>photo_session N i0 sz snap k0 w k al R got; k < w; mark_photo (place N i0 k) al = Some al'\<rbrakk>
    \<Longrightarrow> photo_session N i0 sz snap k0 w (Suc k) al' R got"
| receive: "\<lbrakk>photo_session N i0 sz snap k0 w k al R got; photo_rxPdo sz al R = Some (True, R')\<rbrakk>
    \<Longrightarrow> photo_session N i0 sz snap k0 w k al R' (got @ [reader_photo sz al R'])"

lemma photo_session_world: "photo_session N i0 sz snap k0 w k al R got \<Longrightarrow> photo_world N i0 snap w k al"
  by (induction rule: photo_session.induct) (blast intro: photo_world.intros)+

definition follows :: "nat \<Rightarrow> nat \<Rightarrow> nat \<Rightarrow> (nat \<Rightarrow> 'p) \<Rightarrow> nat \<Rightarrow> nat \<Rightarrow> photo_reader \<Rightarrow> 'p list \<Rightarrow> nat \<Rightarrow> bool" where
  "follows N i0 sz snap w k R got a \<longleftrightarrow>
     got = map snap [Suc a..<Suc (a + length got)] \<and> at_photo N i0 sz (a + length got) R \<and> w \<le> a + length got + N
     \<and> (a + length got < k \<or> a + length got < N)"

lemma photo_session_follows:
  assumes "photo_session N i0 sz snap k0 w k al R got" and N: "2 \<le> N" "N < 2 ^ 32" and sz: "0 < sz"
  shows "follows N i0 sz snap w k R got (max (first_photo N i0) (k0 - 1))"
  using assms(1)
proof (induction rule: photo_session.induct)
  case (attach w al R)
  then have i: "album_inv N i0 snap w k0 al" using photo_world_inv N by fastforce
  have "first_photo N i0 < N" using N by (simp add: first_photo_def)
  then show ?case
    using photo_reader_new_last [OF i N, of sz] attach(2) i by (auto simp: follows_def album_inv_def)
next
  case (snap w k al R got)
  let ?r = "max (first_photo N i0) (k0 - 1) + length got"
  have "w \<noteq> ?r + N"
  proof
    assume w: "w = ?r + N"
    then have "place N i0 w = pr_current R" using snap(4) place_round [of N w i0] by (simp add: follows_def at_photo_def)
    then show False using snap(3) w by simp
  qed
  then show ?case using snap(4) by (auto simp: follows_def)
next
  case (mark w k al R got al')
  then show ?case by (auto simp: follows_def)
next
  case (receive w k al R got R')
  let ?a = "max (first_photo N i0) (k0 - 1)"
  let ?r = "?a + length got"
  note a = receive(3)
  have i: "album_inv N i0 snap w k al" using photo_world_inv [OF photo_session_world [OF receive(1)]] N by simp
  have "k \<le> ?r + N" "?r < k \<or> ?r < N" "at_photo N i0 sz ?r R" using a i by (auto simp: follows_def album_inv_def)
  from rxPdo_at [OF i N this] receive(2) have r: "Suc ?r < k" "at_photo N i0 sz (Suc ?r) R'" by auto
  have "reader_photo sz al R' = snap (Suc ?r)" using r sz i a by (auto simp: reader_photo_def at_photo_def follows_def album_inv_def)
  then show ?case using a r by (auto simp: follows_def)
qed

text \<open>
  Property C40 (photos_in_order): under every interleaving of the kernel module, the buddy and a session, with any place for the first
  photo and with the counter of the photos running over \<open>2 ^ 32\<close>, a session receives every photo after the last one marked when it
  attached (or, when the first place of the album had no photo by then, every photo after the first that gets this place), in order and
  with its content; \<open>rxPdo\<close> always returns, with true exactly when such a photo is left. The conditions: the module uses the places of
  the album in turn, it stays less than a round ahead of the buddy (so it never answers \<open>-ENOSPC\<close>, after which the buddy goes on at
  another place: \<open>photos_after_reset\<close>), and it does not overwrite the photo at which the session looks.
\<close>

theorem photos_in_order:
  assumes "photo_session N i0 sz snap k0 w k al R got" and "2 \<le> N" and "N < 2 ^ 32" and "0 < sz"
    and "a = max (first_photo N i0) (k0 - 1)"
  shows "got = map snap [Suc a..<Suc (a + length got)] \<and> (\<exists>R'. photo_rxPdo sz al R = Some (Suc (a + length got) < k, R'))"
proof -
  have f: "follows N i0 sz snap w k R got a" using photo_session_follows [OF assms(1-4)] assms(5) by simp
  have i: "album_inv N i0 snap w k al" using photo_world_inv [OF photo_session_world [OF assms(1)]] assms(2) by simp
  have "k \<le> a + length got + N" "a + length got < k \<or> a + length got < N" "at_photo N i0 sz (a + length got) R"
    using f i by (auto simp: follows_def album_inv_def)
  from rxPdo_at [OF i assms(2,3) this] f show ?thesis by (auto simp: follows_def)
qed

theorem photos_in_order_witness:
  "\<exists>al R. photo_session 3 2 8 (\<lambda>k. 10 * k) 0 3 3 al R [20 :: nat] \<and> (\<exists>R'. photo_rxPdo 8 al R = Some (False, R'))"
proof -
  let ?snap = "\<lambda>k. 10 * k :: nat"
  let ?al = "\<lambda>ps rs c. \<lparr>al_ready = rs, al_count = c, al_photos = ps\<rparr> :: nat album"
  let ?R = "\<lparr>pr_current = 0, pr_next = 1, pr_photo = 0\<rparr>"
  have pl0: "place 3 2 0 = 2" "place 3 2 (Suc 0) = 0" "place 3 2 (Suc (Suc 0)) = 1" by (simp_all add: place_def)
  note pl = pl0 pl0 [unfolded numeral_2_eq_2] pl0 [unfolded numeral_2_eq_2 numeral_3_eq_3]
  have w: "photo_world 3 2 ?snap 0 0 (?al [0, 0, 0] [0, 0, 0] 0)"
    using photo_world.start [of "[0, 0, 0]" 3 2 ?snap] by (simp add: album_new_def numeral_3_eq_3)
  have n: "photo_reader_new 8 (?al [0, 0, 0] [0, 0, 0] 0) = Some ?R"
    unfolding photo_reader_new_def by (subst rx_all.simps) (simp add: photo_rxPdo_def)
  have s0: "photo_session 3 2 8 ?snap 0 0 0 (?al [0, 0, 0] [0, 0, 0] 0) ?R []"
    by (rule photo_session.attach [OF w n])
  have s1: "photo_session 3 2 8 ?snap 0 1 0 (?al [0, 0, 0] [0, 0, 0] 0) ?R []"
    using photo_session.snap [OF s0] by (simp add: pl numeral_2_eq_2)
  have s2: "photo_session 3 2 8 ?snap 0 2 0 (?al [10, 0, 0] [0, 0, 0] 0) ?R []"
    using photo_session.snap [OF s1] by (simp add: pl numeral_2_eq_2)
  have s3: "photo_session 3 2 8 ?snap 0 2 1 (?al [10, 0, 0] [0, 0, 0] 1) ?R []"
    using photo_session.mark [OF s2, of "?al [10, 0, 0] [0, 0, 0] 1"] by (simp add: mark_photo_def pl numeral_2_eq_2)
  have s4: "photo_session 3 2 8 ?snap 0 3 1 (?al [10, 20, 0] [0, 0, 0] 1) ?R []"
    using photo_session.snap [OF s3] by (simp add: pl numeral_2_eq_2 numeral_3_eq_3)
  have s5: "photo_session 3 2 8 ?snap 0 3 2 (?al [10, 20, 0] [1, 0, 0] 2) ?R []"
    using photo_session.mark [OF s4, of "?al [10, 20, 0] [1, 0, 0] 2"] by (simp add: mark_photo_def pl numeral_2_eq_2)
  have s6: "photo_session 3 2 8 ?snap 0 3 3 (?al [10, 20, 0] [1, 2, 0] 3) ?R []"
    using photo_session.mark [OF s5, of "?al [10, 20, 0] [1, 2, 0] 3"] by (simp add: mark_photo_def pl numeral_2_eq_2 numeral_3_eq_3)
  let ?R1 = "\<lparr>pr_current = 1, pr_next = 2, pr_photo = 8\<rparr>"
  have rx: "photo_rxPdo 8 (?al [10, 20, 0] [1, 2, 0] 3) ?R = Some (True, ?R1)"
    by (simp add: photo_rxPdo_def Let_def)
  have s7: "photo_session 3 2 8 ?snap 0 3 3 (?al [10, 20, 0] [1, 2, 0] 3) ?R1 [20]"
    using photo_session.receive [OF s6 rx] by (simp add: reader_photo_def)
  have a: "max (first_photo 3 2) (0 - 1) = 1" by (simp add: first_photo_def)
  from photos_in_order [OF s7 _ _ _ a [symmetric]] s7 show ?thesis by auto
qed

text \<open>
  After \<open>-ENOSPC\<close> the buddy goes on at the place that \<open>RESET_BLOCKIO_RP\<close> answers. A session whose next place is not that one
  receives nothing until the numbers at its place and the next are in sequence again, and misses the photos in between: here the
  numbers 2 and 3 go to the places 0 and 1, and the session, which has photo 1 at place 1, receives number 4.
\<close>

lemma photos_after_reset:
  "photo_rxPdo 8 \<lparr>al_ready = [2, 3, 0], al_count = 4, al_photos = [20, 30, 0 :: nat]\<rparr> \<lparr>pr_current = 1, pr_next = 2, pr_photo = 8\<rparr>
     = Some (False, \<lparr>pr_current = 1, pr_next = 2, pr_photo = 8\<rparr>)"
  "photo_rxPdo 8 \<lparr>al_ready = [2, 3, 4], al_count = 5, al_photos = [20, 30, 40 :: nat]\<rparr> \<lparr>pr_current = 1, pr_next = 2, pr_photo = 8\<rparr>
     = Some (True, \<lparr>pr_current = 2, pr_next = 0, pr_photo = 16\<rparr>)"
  by (simp_all add: photo_rxPdo_def Let_def)

section \<open>Events of a photo\<close>

interpretation photo_events: spsc_fifo "\<lambda>(q :: event_q, rp). wring_inv q rp" "\<lambda>(q, rp). wring_full q rp"
  "\<lambda>e (q, rp). (the (EventQ_put e q), rp)" "\<lambda>(q, rp). wr_slots q ! rp" "\<lambda>(q, rp). (q, case EventQ_getNextEvent q rp of None \<Rightarrow> rp | Some (_, rp') \<Rightarrow> rp')"
  "\<lambda>(q, rp). unread q rp"
proof (unfold_locales, goal_cases)
  case (1 q e)
  then show ?case using wring.put_inv [of q e] by (auto simp: EventQ_put_def wring_inv_def split: prod.splits)
next
  case (2 q e)
  then show ?case using wring.put_contents [of q e] by (auto simp: EventQ_put_def wring_inv_def split: prod.splits)
next
  case (3 q)
  then show ?case using wring.head_contents [of q] by auto
next
  case (4 q)
  then show ?case using wring.advance_inv [of q] by (auto simp: EventQ_getNextEvent_def)
next
  case (5 q)
  then show ?case using wring.advance_contents [of q] by (auto simp: EventQ_getNextEvent_def unread_Nil_iff split: prod.splits)
next
  case (6 q)
  then show ?case using wring.advance_frees [of q] by (auto simp: EventQ_getNextEvent_def unread_Nil_iff split: prod.splits)
qed

fun entries_of :: "('d \<Rightarrow> timespec) \<Rightarrow> nat \<Rightarrow> nat \<Rightarrow> (int \<times> 'd) list \<Rightarrow> event_data list" where
  "entries_of ts e i [] = []"
| "entries_of ts e i ((trig, t) # xs) =
     (if trig = 0 then [] else [\<lparr>ed_event = Some e, ed_index = i, ed_state = (trig = 1), ed_time = ts t\<rparr>]) @ entries_of ts e (Suc i) xs"

lemma length_entries_of: "length (entries_of ts e i xs) \<le> length xs"
  by (induction ts e i xs rule: entries_of.induct) auto

lemma write_all_append: "write_all (xs @ ys) w = write_all ys (write_all xs w)"
  by (induction xs arbitrary: w) auto

lemma write_all_wp: "wr_wp w < length (wr_slots w) \<Longrightarrow> wr_wp (write_all es w) < length (wr_slots (write_all es w)) \<and> length (wr_slots (write_all es w)) = length (wr_slots w)"
proof (induction es arbitrary: w)
  case (Cons e es)
  have "wr_wp (wring_write e w) < length (wr_slots (wring_write e w))" "length (wr_slots (wring_write e w)) = length (wr_slots w)"
    using Cons.prems by (auto simp: wring_write_def ptr_inc_less)
  then show ?case using Cons.IH [of "wring_write e w"] by simp
qed simp

lemma EventQ_loop_writes: "wr_wp q < length (wr_slots q) \<Longrightarrow> EventQ_loop ts e i xs q = Some (write_all (entries_of ts e i xs) q)"
proof (induction ts e i xs q rule: EventQ_loop.induct)
  case (2 ts e i trig t xs q)
  then show ?case by (auto simp: EventQ_put_def wring_write_def ptr_inc_less)
qed simp

lemma entries_of_none: "\<forall>x \<in> set xs. fst x = 0 \<Longrightarrow> entries_of ts e i xs = []"
  by (induction ts e i xs rule: entries_of.induct) auto

fun photo_entries :: "('d \<Rightarrow> 'd \<Rightarrow> bool) \<Rightarrow> ('d \<Rightarrow> bool) \<Rightarrow> ('d \<Rightarrow> timespec) \<Rightarrow> (nat \<times> 'd list) list \<Rightarrow> (nat \<Rightarrow> 'd list) \<Rightarrow> event_data list" where
  "photo_entries gt nz ts [] vals = []"
| "photo_entries gt nz ts ((e, src) # es) vals =
     entries_of ts e 0 (fst (Event_test gt nz src (vals e))) @ photo_entries gt nz ts es (vals(e := snd (Event_test gt nz src (vals e))))"

lemma length_Event_test: "length (fst (Event_test gt nz src val)) \<le> length src"
  by (induction gt nz src val rule: Event_test.induct) (auto split: prod.splits)

lemma length_photo_entries: "length (photo_entries gt nz ts es vals) \<le> sum_list (map (length \<circ> snd) es)"
proof (induction gt nz ts es vals rule: photo_entries.induct)
  case (2 gt nz ts e src es vals)
  then show ?case
    using length_entries_of [of ts e 0 "fst (Event_test gt nz src (vals e))"] length_Event_test [of gt nz src "vals e"]
    by (simp del: fun_upd_apply)
qed simp

lemma EventQ_test_writes:
  "wr_wp q < length (wr_slots q) \<Longrightarrow> EventQ_test gt nz ts e src val q =
     Some (snd (Event_test gt nz src val), write_all (entries_of ts e 0 (fst (Event_test gt nz src val))) q)"
  by (auto simp: EventQ_test_def EventQ_loop_writes entries_of_none split: prod.splits)

lemma EventQ_test_all_writes:
  "wr_wp q < length (wr_slots q) \<Longrightarrow> \<exists>vals'. EventQ_test_all gt nz ts es vals q = Some (vals', write_all (photo_entries gt nz ts es vals) q)"
proof (induction gt nz ts es vals q rule: EventQ_test_all.induct)
  case (2 gt nz ts e src es vals q)
  let ?q = "write_all (entries_of ts e 0 (fst (Event_test gt nz src (vals e)))) q"
  have t: "EventQ_test gt nz ts e src (vals e) q = Some (snd (Event_test gt nz src (vals e)), ?q)" by (rule EventQ_test_writes [OF 2(2)])
  have "wr_wp ?q < length (wr_slots ?q)" using write_all_wp [OF 2(2)] by blast
  from 2(1) [OF t refl this] show ?case by (simp add: t write_all_append del: fun_upd_apply)
qed simp

text \<open>The events of one photo fit into a queue of twice the number of elements, and a reader that was up to date finds exactly them.\<close>

lemma photo_events_queued:
  assumes "q = EventQ_new (2 * n)" and "sum_list (map (length \<circ> snd) es) \<le> n" and "0 < n"
  shows "\<exists>vals' q'. EventQ_test_all gt nz ts es vals q = Some (vals', q') \<and> unread q' (EventQ_initialize q) = photo_entries gt nz ts es vals"
proof -
  have i: "wring_inv q (wr_wp q)" and e: "unread q (wr_wp q) = []" and len: "length (wr_slots q) = 2 * n"
    using assms(1,3) by (simp_all add: EventQ_new_def wring_inv_def unread_def slice_def)
  have "length (photo_entries gt nz ts es vals) < length (wr_slots q)"
    using length_photo_entries [of gt nz ts es vals] assms(2,3) len by linarith
  then have "unread (write_all (photo_entries gt nz ts es vals) q) (wr_wp q) = photo_entries gt nz ts es vals"
    using write_all_unread(1) [OF i, of "photo_entries gt nz ts es vals"] e by simp
  then show ?thesis using EventQ_test_all_writes [of q gt nz ts es vals] i by (auto simp: EventQ_initialize_def wring_inv_def)
qed

section \<open>Parameters\<close>

lemma length_overwrite: "a + length d \<le> length m \<Longrightarrow> length (overwrite a d m) = length m"
  by (simp add: overwrite_def)

lemma overwrite_back:
  assumes "a + length d \<le> length m"
  shows "overwrite a (take (length d) (drop a m)) (overwrite a d m) = m"
proof -
  have "take a (overwrite a d m) = take a m" "drop (a + length d) (overwrite a d m) = drop (a + length d) m"
    using assms by (simp_all add: overwrite_def)
  then have "overwrite a (take (length d) (drop a m)) (overwrite a d m) = take a m @ take (length d) (drop a m) @ drop (a + length d) m"
    using assms by (simp add: overwrite_def)
  also have "\<dots> = take a m @ drop a m" by (metis add.commute append_take_drop_id drop_drop)
  finally show ?thesis by simp
qed

text \<open>A refused change leaves everything as it was, an accepted one changes exactly its bytes and the time of the parameter.\<close>

lemma buddy_setValue_cases:
  assumes "buddy_setValue change now p buf offset st = (r, st')" and "bv_offset p + offset + length buf \<le> length (bp_buf st)"
  shows "if r = 0 then bp_buf st' = overwrite (bv_offset p + offset) buf (bp_buf st) \<and> bp_mtime st' (bv_path p) = now else st' = st"
  using assms overwrite_back [of "bv_offset p + offset" buf "bp_buf st"] by (auto simp: buddy_setValue_def Let_def split: if_splits)

text \<open>A restored value loses its time, and it stays in the memory of the buddy when the module refuses it.\<close>

lemma restored_time_lost:
  "buddy_initializeParameter (\<lambda>_ _. 0) now p (Some d) mtime False st = st' \<Longrightarrow> bp_mtime st' (bv_path p) = now"
  by (auto simp: buddy_initializeParameter_def buddy_setValue_def Let_def)

lemma refused_value_stays:
  assumes "bv_offset p + length d \<le> length (bp_buf st)" and "length d = bv_memSize p" and "err \<noteq> 0"
  shows "bp_buf (buddy_initializeParameter (\<lambda>_ _. err) now p (Some d) mtime False st) = overwrite (bv_offset p) d (bp_buf st)"
  using assms overwrite_back [of "bv_offset p" d "overwrite (bv_offset p) d (bp_buf st)"] length_overwrite [of "bv_offset p" d "bp_buf st"] by (simp add: buddy_initializeParameter_def buddy_setValue_def Let_def)

section \<open>Applications\<close>

text \<open>When the last application ends no bit is set, the scan stops at once and its buddy is not ended.\<close>

lemma last_application_missed: "scan_apps serve app_id 0 app = (app, [])"
  by (cases app) auto

text \<open>Up to the last active application the table follows the bits.\<close>

lemma scan_apps_Cons:
  "apps \<noteq> 0 \<Longrightarrow> fst (scan_apps serve app_id apps (a # app)) =
     (if bit apps 0 then if a = 0 then max 0 (serve app_id) else a else 0) # fst (scan_apps serve (Suc app_id) (drop_bit 1 apps) app)"
  by (auto simp: Let_def max_def split: prod.splits)

lemma scan_apps_follows:
  "\<lbrakk>i < length app; drop_bit i apps \<noteq> 0\<rbrakk> \<Longrightarrow> fst (scan_apps serve app_id apps app) ! i =
    (if bit apps i then if app ! i = 0 then max 0 (serve (app_id + i)) else app ! i else 0)"
proof (induction app arbitrary: i app_id apps)
  case (Cons a app)
  have n: "apps \<noteq> 0" using Cons.prems(2) by auto
  show ?case
  proof (cases i)
    case (Suc j)
    then show ?thesis
      using Cons.IH [of j "drop_bit 1 apps" "Suc app_id"] Cons.prems by (simp add: scan_apps_Cons [OF n] bit_drop_bit_eq del: scan_apps.simps)
  qed (simp add: scan_apps_Cons [OF n] del: scan_apps.simps)
qed simp

end
