(* ===== verification/Persist_Reader.thy ===== *)
theory Persist_Reader
  imports Session_Data Param_Store
begin

text \<open>
  Signals that are stored in the database: the reader that a task of \<open>lib/Task.cpp\<close> keeps for them in the non-real-time process, and the
  loop of that process in \<open>setup\<close> of \<open>lib/Main.cpp\<close>. The calls of the operating system are arguments.
\<close>

section \<open>The reader of a task\<close>

text \<open>\<open>persistentSet\<close>, the reader (\<open>None\<close> for a null pointer) and \<open>time\<close>, here the address of the Pdo whose time it points to.\<close>

record persist_task =
  pt_set :: "nat list"
  pt_reader :: "sess option"
  pt_time :: "nat option"

definition persist_new :: persist_task where
  "persist_new = \<lparr>pt_set = [], pt_reader = None, pt_time = None\<rparr>"

definition Task_makePersistent :: "nat \<Rightarrow> persist_task \<Rightarrow> persist_task" where
  "Task_makePersistent j p = p\<lparr>pt_set := insort_insert j (pt_set p)\<rparr>"

text \<open>The signals of the set are subscribed; \<open>sid\<close> is the number of the subscription. The signals that \<open>newSignal\<close> reported are active.\<close>

fun subscribe_all ::
  "nat \<Rightarrow> nat list \<Rightarrow> sess \<Rightarrow> 'z task_scheme \<Rightarrow> sl_entry ring \<Rightarrow> (sess \<times> 'z task_scheme \<times> sl_entry ring) option" where
  "subscribe_all sid [] st t r = Some (st, t, r)"
| "subscribe_all sid (j # js) st t r =
     (case SessionTaskData_subscribe j sid st t r of
        None \<Rightarrow> None | Some (st1, t1, r1) \<Rightarrow> subscribe_all sid js st1 t1 r1)"

definition Task_nrt_init_persist ::
  "nat \<Rightarrow> tx \<Rightarrow> pmem \<Rightarrow> persist_task \<Rightarrow> 'z task_scheme \<Rightarrow> sl_entry ring \<Rightarrow> (persist_task \<times> 'z task_scheme \<times> sl_entry ring) option" where
  "Task_nrt_init_persist sid x m p t r =
     (let t0 = Task_nrt_init t in
      if pt_set p = [] then Some (p, t0, r)
      else case SessionTaskData_ctor t0 r x m of
             None \<Rightarrow> None
           | Some st \<Rightarrow>
               map_option (\<lambda>(st1, t1, r1). (p\<lparr>pt_reader := Some st1\<rparr>, t1, r1)) (subscribe_all sid (pt_set p) st t0 r))"

definition persist_active :: "sess \<Rightarrow> nat set" where
  "persist_active st = set (newSignals st)"

text \<open>The loop \<open>while (rxPdo(persist, &time, &stat))\<close>. The time is set with every result but after a new start of the reader; the last result is false.\<close>

partial_function (option) rx_until :: "'z task_scheme \<Rightarrow> sl_entry ring \<Rightarrow> pmem \<Rightarrow> sess \<Rightarrow> sess option" where
  "rx_until t r m st =
     (case SessionTaskData_rxPdo t r m st of
        None \<Rightarrow> None
      | Some (received, st1) \<Rightarrow> if received then rx_until t r m st1 else Some st1)"

definition Task_nrt_update :: "'z task_scheme \<Rightarrow> sl_entry ring \<Rightarrow> pmem \<Rightarrow> persist_task \<Rightarrow> persist_task option" where
  "Task_nrt_update t r m p =
     (case pt_reader p of
        None \<Rightarrow> Some p
      | Some st \<Rightarrow> map_option (\<lambda>st1. p\<lparr>pt_reader := Some st1, pt_time := Some (s_pdo st1)\<rparr>) (rx_until t r m st))"

text \<open>
  The result, the bytes copied and the time set, if they are. \<open>None\<close>: there is no reader.
\<close>

definition Task_getPersistentValue ::
  "pmem \<Rightarrow> signal list \<Rightarrow> nat \<Rightarrow> persist_task \<Rightarrow> (bool \<times> u8 list option \<times> nat option) option" where
  "Task_getPersistentValue m sigs j p =
     (case pt_reader p of
        None \<Rightarrow> None
      | Some st \<Rightarrow>
          if j \<in> persist_active st then Some (pt_time p \<noteq> None, Some (session_bytes m sigs st j), pt_time p)
          else Some (pt_time p \<noteq> None, None, None))"

text \<open>\<open>None\<close>: a null pointer or a pointer that was never set is followed. \<open>buf\<close> is what the buffer held before.\<close>

definition Main_getPersistentSignalValue ::
  "pmem \<Rightarrow> signal list \<Rightarrow> nat \<Rightarrow> persist_task \<Rightarrow> u8 list \<Rightarrow> (bool \<times> u8 list \<times> (int \<times> int) option) option" where
  "Main_getPersistentSignalValue m sigs j p buf =
     (case Task_getPersistentValue m sigs j p of
        None \<Rightarrow> None
      | Some (rv, v, tm) \<Rightarrow>
          let b = (case v of None \<Rightarrow> buf | Some bs \<Rightarrow> bs) in
          if rv then (case tm of
                        None \<Rightarrow> None
                      | Some a \<Rightarrow> (case m a of None \<Rightarrow> None | Some q \<Rightarrow> Some (True, b, Some (pd_time (pd_body q)))))
          else Some (False, b, None))"

section \<open>The non-real-time process\<close>

text \<open>
  One round of the loop in \<open>setup\<close>: \<open>update\<close> is \<open>nrt_update\<close> of all tasks, \<open>save\<close> is \<open>savePersistent\<close>, \<open>events\<close> the loop over the event
  area. \<open>now\<close> is the answer of \<open>gettimeofday\<close>, the error number for a failure, which ends the loop.
\<close>

definition Main_nrt_round ::
  "('s \<Rightarrow> 's option) \<Rightarrow> ('s \<Rightarrow> 's) \<Rightarrow> ('s \<Rightarrow> 's option) \<Rightarrow> int \<Rightarrow> int + int \<Rightarrow> int \<times> 's \<Rightarrow> (bool \<times> int \<times> 's) option" where
  "Main_nrt_round update save events persistTimeout now st =
     (case update (snd st) of
        None \<Rightarrow> None
      | Some s1 \<Rightarrow>
          if persistTimeout \<noteq> 0
          then (case now of
                  Inl e \<Rightarrow> Some (False, fst st, s1)
                | Inr sec \<Rightarrow>
                    let (timeout, s2) = (if sec \<ge> fst st then (fst st + persistTimeout, save s1) else (fst st, s1))
                    in map_option (\<lambda>s3. (True, timeout, s3)) (events s2))
          else map_option (\<lambda>s3. (True, fst st, s3)) (events s1))"

section \<open>The reader is up to date\<close>

lemma rx_loop_none:
  assumes "rx_loop subId sigs m st = Some (RxNone, st')"
  shows "\<exists>p. m (s_pdo st') = Some p \<and> pd_next p = 0"
proof -
  have "fst (RxNone, st') = RxNone \<longrightarrow> (\<exists>p. m (s_pdo (snd (RxNone, st'))) = Some p \<and> pd_next p = 0)"
  proof (rule rx_loop.raw_induct [OF _ assms])
    fix f subId sigs m st y
    assume IH: "\<And>subId sigs m st y. f subId sigs m st = Some y \<Longrightarrow> fst y = RxNone \<longrightarrow> (\<exists>p. m (s_pdo (snd y)) = Some p \<and> pd_next p = 0)"
      and b: "(case m (s_pdo st) of
        None \<Rightarrow> Some (RxUndef, st)
      | Some p \<Rightarrow>
          if pd_next p = 0 then Some (RxNone, st)
          else let a = pd_next p; st1 = st\<lparr>s_pdo := a\<rparr> in
            if a < s_memBegin st \<or> s_memEnd st < a + pdo_header then Some (RxOut, st1)
            else (case m a of
                None \<Rightarrow> Some (RxUndef, st1)
              | Some q \<Rightarrow>
                  (case pd_body q of
                     SignalListPdo idx \<Rightarrow>
                       let n = pd_count q in
                       if s_memEnd st < a + pdo_header + sizeof_size_t * n then Some (RxOut, st1)
                       else if length idx < n \<or> length sigs < n then Some (RxUndef, st1)
                       else if \<not> list_all (\<lambda>i. i < length sigs) (take n idx) then Some (RxOut, st1)
                       else f subId sigs m (loadSignalList subId sigs (take n idx) (pd_listId q) st1)
                   | DataPdo sq tm ts d \<Rightarrow>
                       if s_memEnd st \<le> a + pdo_header + pdoSize st \<or> pd_listId q \<noteq> s_listId st \<or> sq - s_seqNo st \<noteq> 1
                       then Some (RxOut, st1)
                       else Some (RxData, st1\<lparr>s_seqNo := sq, signalBuffer := a + pdo_header\<rparr>)))) = Some y"
    show "fst y = RxNone \<longrightarrow> (\<exists>p. m (s_pdo (snd y)) = Some p \<and> pd_next p = 0)"
      using b IH by (auto simp: Let_def split: option.split_asm if_split_asm pdo_body.split_asm)
  qed
  then show ?thesis by simp
qed

lemma rx_until_last:
  assumes "rx_until t r m st = Some st'"
  shows "\<exists>p. m (s_pdo st') = Some p \<and> pd_next p = 0"
proof (rule rx_until.raw_induct [OF _ assms])
  fix f t r m st y
  assume IH: "\<And>t r m st y. f t r m st = Some y \<Longrightarrow> \<exists>p. m (s_pdo y) = Some p \<and> pd_next p = 0"
    and b: "(case SessionTaskData_rxPdo t r m st of None \<Rightarrow> None | Some (received, st1) \<Rightarrow> if received then f t r m st1 else Some st1) = Some y"
  then show "\<exists>p. m (s_pdo y) = Some p \<and> pd_next p = 0"
    by (auto simp: SessionTaskData_rxPdo_def split: option.split_asm prod.split_asm if_split_asm rx.split_asm dest: rx_loop_none)
qed

text \<open>After an update a stored value is never read through a pointer that is null or unset, when the signal is active.\<close>

lemma active_value_read:
  assumes "Task_nrt_update t r m p = Some p'" and "pt_reader p' = Some st" and "j \<in> persist_active st"
  shows "\<exists>q. m (s_pdo st) = Some q \<and> pd_next q = 0
    \<and> Main_getPersistentSignalValue m sigs j p' buf = Some (True, session_bytes m sigs st j, Some (pd_time (pd_body q)))"
proof -
  obtain st0 where s0: "pt_reader p = Some st0" using assms(1,2) by (auto simp: Task_nrt_update_def split: option.split_asm)
  then have "rx_until t r m st0 = Some st" "pt_time p' = Some (s_pdo st)"
    using assms(1,2) by (auto simp: Task_nrt_update_def)
  with rx_until_last obtain q where "m (s_pdo st) = Some q" "pd_next q = 0" by blast
  then show ?thesis using assms(2,3) \<open>pt_time p' = Some (s_pdo st)\<close>
    by (simp add: Main_getPersistentSignalValue_def Task_getPersistentValue_def)
qed

text \<open>For a signal that is not active the time is read through a pointer that was never set.\<close>

lemma inactive_value_wild:
  "\<lbrakk>pt_reader p = Some st; j \<notin> persist_active st; pt_time p = Some a\<rbrakk> \<Longrightarrow> Main_getPersistentSignalValue m sigs j p buf = None"
  by (simp add: Main_getPersistentSignalValue_def Task_getPersistentValue_def)

section \<open>Saving\<close>

text \<open>A round saves exactly when the time has come, and then moves the time on by one interval.\<close>

lemma nrt_round_saves:
  assumes "persistTimeout \<noteq> 0" and "update s = Some s1" and "events = Some"
  shows "Main_nrt_round update save events persistTimeout (Inr sec) (timeout, s) =
    Some (True, (if timeout \<le> sec then (timeout + persistTimeout, save s1) else (timeout, s1)))"
  using assms by (simp add: Main_nrt_round_def)

section \<open>The loop of the process\<close>

text \<open>
  The loop of \<open>setup\<close> until the real-time process has gone. For each round the environment answers with the result of \<open>gettimeofday\<close>,
  that of \<open>select\<close> on the pipe to the real-time process and the flag \<open>ipc_error\<close>; the first result is the code for \<open>exit\<close>, \<open>None\<close> while
  the loop goes on. A readable pipe (1) is not an error.
\<close>

definition exit_code :: "int \<Rightarrow> int" where
  "exit_code rv = (if rv = 1 then 0 else rv)"

fun nrt_loop ::
  "('s \<Rightarrow> 's option) \<Rightarrow> ('s \<Rightarrow> 's) \<Rightarrow> ('s \<Rightarrow> 's option) \<Rightarrow> int \<Rightarrow> ((int + int) \<times> int \<times> bool) list \<Rightarrow> int \<times> 's
     \<Rightarrow> (int option \<times> int \<times> 's) option" where
  "nrt_loop update save events persistTimeout [] st = Some (None, st)"
| "nrt_loop update save events persistTimeout ((now, rv, ipc_error) # env) st =
     (case Main_nrt_round update save events persistTimeout now st of
        None \<Rightarrow> None
      | Some (False, st') \<Rightarrow> Some (Some (exit_code (case now of Inl e \<Rightarrow> e | Inr _ \<Rightarrow> 0)), st')
      | Some (True, st') \<Rightarrow>
          if rv \<noteq> 0 \<or> ipc_error then Some (Some (exit_code rv), st')
          else nrt_loop update save events persistTimeout env st')"

text \<open>The child: the first time to save is one interval after the start; at the end \<open>stopServers\<close> saves once more.\<close>

definition nrt_process ::
  "('s \<Rightarrow> 's option) \<Rightarrow> ('s \<Rightarrow> 's) \<Rightarrow> ('s \<Rightarrow> 's option) \<Rightarrow> int \<Rightarrow> int \<Rightarrow> ((int + int) \<times> int \<times> bool) list \<Rightarrow> 's \<Rightarrow> (int option \<times> 's) option" where
  "nrt_process update save events persistTimeout start env s =
     map_option (\<lambda>(code, t, s'). (code, if code = None then s' else save s'))
       (nrt_loop update save events persistTimeout env (start + persistTimeout, s))"

text \<open>
  The values are saved at most once in an interval: with saves that are counted, the time of the next one is that of the first plus one interval for each, and
  unless nothing was saved it is at most one interval ahead of the clock.
\<close>

lemma nrt_round_counts:
  assumes "Main_nrt_round update (map_prod f Suc) events pt now (t, s, k) = Some (go, t', s', k')"
    and "\<And>s k s' k'. update (s, k) = Some (s', k') \<Longrightarrow> k' = k" and "\<And>s k s' k'. events (s, k) = Some (s', k') \<Longrightarrow> k' = k"
  shows "t' = t + pt * (int k' - int k) \<and> k \<le> k' \<and> (k' \<noteq> k \<longrightarrow> (\<exists>sec. now = Inr sec \<and> t' \<le> sec + pt))"
  using assms(1) unfolding Main_nrt_round_def
  by (auto simp: Let_def map_prod_def dest!: assms(2,3) split: option.splits if_splits sum.splits prod.splits)

lemma nrt_loop_counts:
  assumes "nrt_loop update (map_prod f Suc) events pt env (t, s, k) = Some (code, t', s', k')"
    and u: "\<And>s k s' k'. update (s, k) = Some (s', k') \<Longrightarrow> k' = k" and e: "\<And>s k s' k'. events (s, k) = Some (s', k') \<Longrightarrow> k' = k"
    and "\<forall>(now, r) \<in> set env. \<forall>sec. now = Inr sec \<longrightarrow> sec \<le> T"
  shows "t' = t + pt * (int k' - int k) \<and> k \<le> k' \<and> (k' \<noteq> k \<longrightarrow> t' \<le> T + pt)"
  using assms(1,4)
proof (induction env arbitrary: t s k)
  case (Cons x env)
  obtain now rv ipc where x: "x = (now, rv, ipc)" by (cases x) auto
  obtain go t1 s1 k1 where r: "Main_nrt_round update (map_prod f Suc) events pt now (t, s, k) = Some (go, t1, s1, k1)"
    using Cons.prems(1) by (cases "Main_nrt_round update (map_prod f Suc) events pt now (t, s, k)") (auto simp: x)
  have one: "t1 = t + pt * (int k1 - int k) \<and> k \<le> k1 \<and> (k1 \<noteq> k \<longrightarrow> (\<exists>sec. now = Inr sec \<and> t1 \<le> sec + pt))"
    by (rule nrt_round_counts [OF r]) (use u e in blast)+
  have T: "k1 \<noteq> k \<longrightarrow> t1 \<le> T + pt" using one Cons.prems(2) by (fastforce simp: x)
  consider "t' = t1" "k' = k1" | "nrt_loop update (map_prod f Suc) events pt env (t1, s1, k1) = Some (code, t', s', k')"
    using Cons.prems(1) r by (auto simp: x split: bool.splits if_splits)
  then show ?case
  proof cases
    case 1
    then show ?thesis using one T by simp
  next
    case 2
    have "\<forall>(now, r) \<in> set env. \<forall>sec. now = Inr sec \<longrightarrow> sec \<le> T" using Cons.prems(2) by simp
    from Cons.IH [OF 2 this] have "t' = t1 + pt * (int k' - int k1) \<and> k1 \<le> k' \<and> (k' \<noteq> k1 \<longrightarrow> t' \<le> T + pt)" .
    then show ?thesis using one T by (cases "k' = k1") (auto simp: algebra_simps)
  qed
qed simp

text \<open>When the clock never passes \<open>T\<close>, the child saves at most \<open>(T - start) / persistTimeout\<close> times before it stops.\<close>

lemma saves_bounded:
  assumes "nrt_loop update (map_prod f Suc) events pt env (start + pt, s, 0) = Some (code, t', s', k')" and "0 < pt" and "start \<le> T"
    and "\<And>s k s' k'. update (s, k) = Some (s', k') \<Longrightarrow> k' = k" and "\<And>s k s' k'. events (s, k) = Some (s', k') \<Longrightarrow> k' = k"
    and "\<forall>(now, r) \<in> set env. \<forall>sec. now = Inr sec \<longrightarrow> sec \<le> T"
  shows "int k' \<le> (T - start) div pt"
proof -
  have "t' = start + pt + pt * (int k' - int 0) \<and> 0 \<le> k' \<and> (k' \<noteq> 0 \<longrightarrow> t' \<le> T + pt)"
    by (rule nrt_loop_counts [OF assms(1)]) (use assms(4-6) in blast)+
  then have "k' \<noteq> 0 \<longrightarrow> pt * int k' \<le> T - start" by auto
  then have "pt * int k' \<le> T - start" using assms(3) by (cases "k' = 0") auto
  from zdiv_mono1 [OF this assms(2)] show ?thesis using assms(2) by simp
qed

end
