(* ===== verification/C_Interface.thy ===== *)
theory C_Interface
  imports Msr_Server Shm_Task
begin

text \<open>
  \<open>lib/interface.cpp\<close>: the functions of the C interface by which an application declares its types, signals, parameters and events. Types
  are numbers; compound types follow the primary ones. A field holds the type as it is
  when the field is added: the source keeps a reference, and types are completed before they are used. \<open>None\<close> stands for an access outside of the table of compound types.
\<close>

type_synonym compounds = "dtype list"

definition pd_datatype_end :: nat where
  "pd_datatype_end = 12"

text \<open>The numbers of the primary types are those of \<open>pdserv.h\<close>.\<close>

definition getDataType :: "compounds \<Rightarrow> nat \<Rightarrow> dtype option" where
  "getDataType compoundType dt =
     (if dt = 11 then Some (PrimaryType C_bool)
      else if dt = 3 then Some (PrimaryType C_uint8)
      else if dt = 5 then Some (PrimaryType C_uint16)
      else if dt = 7 then Some (PrimaryType C_uint32)
      else if dt = 9 then Some (PrimaryType C_uint64)
      else if dt = 4 then Some (PrimaryType C_int8)
      else if dt = 6 then Some (PrimaryType C_int16)
      else if dt = 8 then Some (PrimaryType C_int32)
      else if dt = 10 then Some (PrimaryType C_int64)
      else if dt = 1 then Some (PrimaryType C_double)
      else if dt = 2 then Some (PrimaryType C_float)
      else if pd_datatype_end \<le> dt \<and> dt - pd_datatype_end < length compoundType then Some (compoundType ! (dt - pd_datatype_end))
      else None)"

definition pdserv_create_compound :: "string \<Rightarrow> nat \<Rightarrow> compounds \<Rightarrow> nat \<times> compounds" where
  "pdserv_create_compound name sz compoundType =
     (pd_datatype_end + length compoundType, compoundType @ [CompoundType name sz []])"

definition pdserv_compound_add_field ::
  "nat \<Rightarrow> string \<Rightarrow> nat \<Rightarrow> nat \<Rightarrow> nat \<Rightarrow> nat list option \<Rightarrow> compounds \<Rightarrow> compounds option" where
  "pdserv_compound_add_field compound name data_type offset ndims dim compoundType =
     (if pd_datatype_end \<le> compound \<and> compound - pd_datatype_end < length compoundType
      then map_option (\<lambda>ty. compoundType[compound - pd_datatype_end := addField (compoundType ! (compound - pd_datatype_end)) name ty offset ndims dim])
             (getDataType compoundType data_type)
      else None)"

definition pdserv_event :: "string \<Rightarrow> int \<Rightarrow> nat \<Rightarrow> event_obj list \<Rightarrow> event_obj list" where
  "pdserv_event path prio n events = Main_addEvent path prio n events"

text \<open>The state is any character but zero.\<close>

definition pdserv_event_set :: "nat \<Rightarrow> nat \<Rightarrow> u8 \<Rightarrow> timespec \<Rightarrow> rt_events \<Rightarrow> rt_events option" where
  "pdserv_event_set event element state t ev = Event_set event element (state \<noteq> 0) t ev"

text \<open>A signal, and the function that reads it; \<open>copy\<close> is the default.\<close>

definition pdserv_signal ::
  "'cb \<Rightarrow> compounds \<Rightarrow> nat \<Rightarrow> string \<Rightarrow> nat \<Rightarrow> nat \<Rightarrow> nat \<Rightarrow> nat list option \<Rightarrow> 'cb option \<Rightarrow> 'z task_scheme \<times> 'cb list \<Rightarrow> ('z task_scheme \<times> 'cb list) option" where
  "pdserv_signal copy compoundType decimation path datatype addr n dim read_cb st =
     map_option (\<lambda>ty. (Task_addSignal decimation path ty addr n dim (fst st), snd st @ [case read_cb of None \<Rightarrow> copy | Some f \<Rightarrow> f]))
       (getDataType compoundType datatype)"

definition pdserv_parameter ::
  "'cb \<Rightarrow> compounds \<Rightarrow> string \<Rightarrow> nat \<Rightarrow> nat \<Rightarrow> nat \<Rightarrow> nat list option \<Rightarrow> 'cb option \<Rightarrow> param list \<times> 'cb list \<Rightarrow> (param list \<times> 'cb list) option" where
  "pdserv_parameter copy compoundType path datatype addr n dim trigger st =
     map_option (\<lambda>ty. (Main_addParameter path ty (mk_dims n dim) addr (fst st), snd st @ [case trigger of None \<Rightarrow> copy | Some f \<Rightarrow> f]))
       (getDataType compoundType datatype)"

definition pdserv_set_alias :: "string \<Rightarrow> main_var \<Rightarrow> main_var" where
  "pdserv_set_alias a v = v\<lparr>va_alias := a\<rparr>"

definition pdserv_set_comment :: "string \<Rightarrow> main_var \<Rightarrow> main_var" where
  "pdserv_set_comment c v = v\<lparr>va_comment := c\<rparr>"

section \<open>The table of types\<close>

lemma getDataType_compound: "getDataType ct (pd_datatype_end + i) = (if i < length ct then Some (ct ! i) else None)"
  by (simp add: getDataType_def pd_datatype_end_def)

text \<open>A new compound type is found under its number, and all others stay.\<close>

lemma created_compound:
  assumes "pdserv_create_compound name sz ct = (dt, ct')"
  shows "getDataType ct' dt = Some (CompoundType name sz [])" and "getDataType ct k = Some ty \<Longrightarrow> getDataType ct' k = Some ty"
proof -
  have dt: "dt = pd_datatype_end + length ct" "ct' = ct @ [CompoundType name sz []]" using assms by (auto simp: pdserv_create_compound_def)
  show "getDataType ct' dt = Some (CompoundType name sz [])" by (simp add: dt getDataType_compound)
  show "getDataType ct k = Some ty \<Longrightarrow> getDataType ct' k = Some ty"
    by (auto simp: getDataType_def dt(2) nth_append split: if_splits)
qed

text \<open>A field is added at the end of its type, and no other type changes.\<close>

lemma added_field:
  assumes "pdserv_compound_add_field (pd_datatype_end + i) name dt offset ndims dim ct = Some ct'" and "ct ! i = CompoundType n s fs"
  shows "\<exists>ty. getDataType ct dt = Some ty \<and> ct' ! i = CompoundType n s (fs @ [Field name ty offset (mk_dims ndims dim)])"
    and "length ct' = length ct" and "j \<noteq> i \<Longrightarrow> ct' ! j = ct ! j"
  using assms by (auto simp: pdserv_compound_add_field_def split: if_splits)

text \<open>What was declared is what the task and the server work with.\<close>

lemma declared_signal:
  assumes "pdserv_signal copy ct decimation path datatype addr n dim read_cb (t, cbs) = Some (t', cbs')"
  shows "\<exists>ty. getDataType ct datatype = Some ty \<and> signals t' = signals t @ [Signal_new (length (signals t)) decimation path ty addr n dim]"
  using assms by (auto simp: pdserv_signal_def Task_addSignal_def Let_def)

end
